(* ===== verification/Prelude.thy ===== *)
theory Prelude
  imports Main "HOL-Library.Word" "HOL-Library.Char_ord" "HOL-Library.List_Lexorder"
    "HOL-Library.Multiset"
begin

text \<open>
  The shared vocabulary of the development: Go's integers, times and durations, the string
  functions of the Go standard library that the daemon calls, the idiom ``collect the keys of
  a map and sort them'', and the generic lemmas on lists and maps the components use.

  A Go string is a byte sequence, and so is a \<open>string\<close> here (a list of 8-bit characters);
  \<open>sort\<close> on strings is Go's \<open>sort.Strings\<close>, the byte-wise lexicographic order of
  \<open>HOL-Library.List_Lexorder\<close> over \<open>HOL-Library.Char_ord\<close>.
\<close>

section \<open>Collections of facts\<close>

named_theorems go_string_simps \<open>definitions of the Go string functions, for evaluation\<close>
named_theorems netip_simps \<open>definitions of the address functions, for evaluation\<close>
named_theorems invariant_intros \<open>preservation lemmas of the components' invariants\<close>


section \<open>Integers, durations and times\<close>

text \<open>
  A Go \<open>int\<close> (64 bit on the supported platforms) and a \<open>time.Duration\<close> are mathematical
  integers; \<open>wrap64\<close> is applied where the code computes on values that nothing has bounded
  yet. A \<open>time.Time\<close> is the number of nanoseconds since Go's zero time, so the zero value
  of the type is \<open>0\<close> and \<open>IsZero\<close> is a comparison with \<open>0\<close>.
\<close>

type_synonym duration = int
type_synonym gotime = int

definition maxInt64 :: int where
  "maxInt64 = 9223372036854775807"

definition minInt64 :: int where
  "minInt64 = -9223372036854775808"

definition wrap64 :: "int \<Rightarrow> int" where
  "wrap64 x = (x + 2 ^ 63) mod 2 ^ 64 - 2 ^ 63"

definition second :: duration where
  "second = 1000000000"

text \<open>\<open>Time.Sub\<close> saturates at the ends of the duration range.\<close>

definition time_sub :: "gotime \<Rightarrow> gotime \<Rightarrow> duration" where
  "time_sub t u = max minInt64 (min maxInt64 (t - u))"

lemma wrap64_id: "minInt64 \<le> x \<Longrightarrow> x \<le> maxInt64 \<Longrightarrow> wrap64 x = x"
  by (simp add: wrap64_def minInt64_def maxInt64_def)

lemma wrap64_range: "minInt64 \<le> wrap64 x \<and> wrap64 x \<le> maxInt64"
proof -
  have "0 \<le> (x + 2 ^ 63) mod 2 ^ 64" and "(x + 2 ^ 63) mod 2 ^ 64 < 2 ^ 64"
    by simp_all
  then show ?thesis
    by (simp add: wrap64_def minInt64_def maxInt64_def)
qed

lemma time_sub_le_iff:
  "minInt64 \<le> d \<Longrightarrow> d < maxInt64 \<Longrightarrow> time_sub t u \<le> d \<longleftrightarrow> t - u \<le> d"
  by (auto simp: time_sub_def minInt64_def maxInt64_def)

lemma time_sub_mono: "t \<le> t' \<Longrightarrow> time_sub t u \<le> time_sub t' u"
  by (auto simp: time_sub_def)


section \<open>Strings\<close>

definition has_prefix :: "string \<Rightarrow> string \<Rightarrow> bool" where
  [go_string_simps]: "has_prefix p s \<longleftrightarrow> take (length p) s = p"

definition has_suffix :: "string \<Rightarrow> string \<Rightarrow> bool" where
  [go_string_simps]: "has_suffix p s \<longleftrightarrow> has_prefix (rev p) (rev s)"

definition trim_prefix :: "string \<Rightarrow> string \<Rightarrow> string" where
  [go_string_simps]: "trim_prefix p s = (if has_prefix p s then drop (length p) s else s)"

definition trim_suffix :: "string \<Rightarrow> string \<Rightarrow> string" where
  [go_string_simps]:
  "trim_suffix p s = (if has_suffix p s then take (length s - length p) s else s)"

text \<open>\<open>strings.Contains\<close> and \<open>strings.ContainsAny\<close>.\<close>

fun contains :: "string \<Rightarrow> string \<Rightarrow> bool" where
  "contains [] p \<longleftrightarrow> p = []"
| "contains (c # s) p \<longleftrightarrow> has_prefix p (c # s) \<or> contains s p"

definition contains_any :: "string \<Rightarrow> string \<Rightarrow> bool" where
  [go_string_simps]: "contains_any s cs \<longleftrightarrow> (\<exists>c \<in> set s. c \<in> set cs)"

text \<open>\<open>strings.IndexByte\<close>, \<open>None\<close> for -1, and \<open>strings.LastIndexByte\<close>.\<close>

fun index_byte :: "string \<Rightarrow> char \<Rightarrow> nat option" where
  "index_byte [] c = None"
| "index_byte (x # s) c = (if x = c then Some 0 else map_option Suc (index_byte s c))"

definition last_index_byte :: "string \<Rightarrow> char \<Rightarrow> nat option" where
  [go_string_simps]:
  "last_index_byte s c = map_option (\<lambda>i. length s - Suc i) (index_byte (rev s) c)"

text \<open>\<open>strings.Split\<close> at a one-byte separator, and \<open>strings.Join\<close>.\<close>

fun split_byte :: "char \<Rightarrow> string \<Rightarrow> string list" where
  "split_byte sep [] = [[]]"
| "split_byte sep (c # s) =
     (if c = sep then [] # split_byte sep s
      else (case split_byte sep s of [] \<Rightarrow> [[c]] | w # ws \<Rightarrow> (c # w) # ws))"

fun join :: "string \<Rightarrow> string list \<Rightarrow> string" where
  "join sep [] = []"
| "join sep [w] = w"
| "join sep (w # v # ws) = w @ sep @ join sep (v # ws)"

text \<open>
  \<open>strings.ToLower\<close> on ASCII text. Every string the daemon lower-cases for routing has been
  checked to be ASCII before.
\<close>

definition lower_char :: "char \<Rightarrow> char" where
  [go_string_simps]:
  "lower_char c =
     (let n = (of_char c :: nat)
      in if 65 \<le> n \<and> n \<le> 90 then ''abcdefghijklmnopqrstuvwxyz'' ! (n - 65) else c)"

definition to_lower :: "string \<Rightarrow> string" where
  [go_string_simps]: "to_lower s = map lower_char s"

text \<open>
  \<open>strings.TrimSpace\<close> removes the characters of Unicode's \<open>White_Space\<close> class at both ends.
  The list holds their UTF-8 encodings.
\<close>

definition space_encodings :: "string list" where
  [go_string_simps]:
  "space_encodings =
     [[CHR 0x09], [CHR 0x0A], [CHR 0x0B], [CHR 0x0C], [CHR 0x0D], [CHR 0x20],
      [CHR 0xC2, CHR 0x85], [CHR 0xC2, CHR 0xA0], [CHR 0xE1, CHR 0x9A, CHR 0x80],
      [CHR 0xE2, CHR 0x80, CHR 0x80], [CHR 0xE2, CHR 0x80, CHR 0x81],
      [CHR 0xE2, CHR 0x80, CHR 0x82], [CHR 0xE2, CHR 0x80, CHR 0x83],
      [CHR 0xE2, CHR 0x80, CHR 0x84], [CHR 0xE2, CHR 0x80, CHR 0x85],
      [CHR 0xE2, CHR 0x80, CHR 0x86], [CHR 0xE2, CHR 0x80, CHR 0x87],
      [CHR 0xE2, CHR 0x80, CHR 0x88], [CHR 0xE2, CHR 0x80, CHR 0x89],
      [CHR 0xE2, CHR 0x80, CHR 0x8A], [CHR 0xE2, CHR 0x80, CHR 0xA8],
      [CHR 0xE2, CHR 0x80, CHR 0xA9], [CHR 0xE2, CHR 0x80, CHR 0xAF],
      [CHR 0xE2, CHR 0x81, CHR 0x9F], [CHR 0xE3, CHR 0x80, CHR 0x80]]"

definition strip_one :: "string list \<Rightarrow> string \<Rightarrow> string option" where
  [go_string_simps]:
  "strip_one ps s = map_option (\<lambda>p. drop (length p) s) (find (\<lambda>p. p \<noteq> [] \<and> has_prefix p s) ps)"

lemma strip_one_shorter: "strip_one ps s = Some t \<Longrightarrow> length t < length s"
proof -
  assume "strip_one ps s = Some t"
  then obtain p where "find (\<lambda>p. p \<noteq> [] \<and> has_prefix p s) ps = Some p"
    and t: "t = drop (length p) s"
    by (auto simp: strip_one_def)
  then have "p \<noteq> []" and "take (length p) s = p"
    by (auto simp: find_Some_iff has_prefix_def)
  then have "s \<noteq> []"
    by auto
  with \<open>p \<noteq> []\<close> t show ?thesis
    by simp
qed

function trim_left_of :: "string list \<Rightarrow> string \<Rightarrow> string" where
  "trim_left_of ps s = (case strip_one ps s of None \<Rightarrow> s | Some t \<Rightarrow> trim_left_of ps t)"
  by pat_completeness auto
termination
  by (relation "measure (\<lambda>(ps, s). length s)") (auto dest: strip_one_shorter)

declare trim_left_of.simps [simp del]

definition trim_space :: "string \<Rightarrow> string" where
  "trim_space s =
     rev (trim_left_of (map rev space_encodings) (rev (trim_left_of space_encodings s)))"

text \<open>\<open>utf8.ValidString\<close>: the well-formed sequences of RFC 3629.\<close>

definition cont_byte :: "nat \<Rightarrow> nat \<Rightarrow> nat \<Rightarrow> bool" where
  "cont_byte lo hi n \<longleftrightarrow> lo \<le> n \<and> n \<le> hi"

fun utf8_valid_bytes :: "nat list \<Rightarrow> bool" where
  "utf8_valid_bytes [] \<longleftrightarrow> True"
| "utf8_valid_bytes (a # xs) \<longleftrightarrow>
     (if a < 128 then utf8_valid_bytes xs
      else if 194 \<le> a \<and> a \<le> 223 then
        (case xs of b # ys \<Rightarrow> cont_byte 128 191 b \<and> utf8_valid_bytes ys | _ \<Rightarrow> False)
      else if 224 \<le> a \<and> a \<le> 239 then
        (case xs of b # c # ys \<Rightarrow>
           cont_byte (if a = 224 then 160 else 128) (if a = 237 then 159 else 191) b \<and>
           cont_byte 128 191 c \<and> utf8_valid_bytes ys
         | _ \<Rightarrow> False)
      else if 240 \<le> a \<and> a \<le> 244 then
        (case xs of b # c # d # ys \<Rightarrow>
           cont_byte (if a = 240 then 144 else 128) (if a = 244 then 143 else 191) b \<and>
           cont_byte 128 191 c \<and> cont_byte 128 191 d \<and> utf8_valid_bytes ys
         | _ \<Rightarrow> False)
      else False)"

definition utf8_valid :: "string \<Rightarrow> bool" where
  "utf8_valid s = utf8_valid_bytes (map of_char s)"

text \<open>Decimal digits: \<open>strconv.Itoa\<close>, first on non-negative numbers, and \<open>strconv.Atoi\<close>.\<close>

definition is_digit :: "char \<Rightarrow> bool" where
  [go_string_simps]: "is_digit c \<longleftrightarrow> 48 \<le> (of_char c :: nat) \<and> (of_char c :: nat) \<le> 57"

definition digit_val :: "char \<Rightarrow> nat" where
  [go_string_simps]: "digit_val c = of_char c - 48"

definition digit_char :: "nat \<Rightarrow> char" where
  [go_string_simps]: "digit_char n = ''0123456789'' ! n"

fun nat_of_digits :: "nat \<Rightarrow> string \<Rightarrow> nat" where
  "nat_of_digits acc [] = acc"
| "nat_of_digits acc (c # s) = nat_of_digits (acc * 10 + digit_val c) s"

fun itoa :: "nat \<Rightarrow> string" where
  "itoa n = (if n < 10 then [digit_char n] else itoa (n div 10) @ [digit_char (n mod 10)])"

declare itoa.simps [simp del]

definition itoa_int :: "int \<Rightarrow> string" where
  "itoa_int n = (if n < 0 then ''-'' @ itoa (nat (- n)) else itoa (nat n))"

definition atoi :: "string \<Rightarrow> int option" where
  "atoi s =
     (let neg = has_prefix ''-'' s;
          ds = (if neg \<or> has_prefix ''+'' s then tl s else s);
          v = int (nat_of_digits 0 ds)
      in if ds = [] \<or> \<not> list_all is_digit ds then None
         else if neg then (if - v < minInt64 then None else Some (- v))
         else if maxInt64 < v then None else Some v)"

text \<open>
  The facts the address round trips rest on: what \<open>Itoa\<close> prints reads back as the same number,
  and a separator that does not occur in a word splits it off.
\<close>

lemma is_digit_digit_char: "n < 10 \<Longrightarrow> is_digit (digit_char n) \<and> digit_val (digit_char n) = n"
proof -
  assume "n < 10"
  then have "n \<in> {0, 1, 2, 3, 4, 5, 6, 7, 8, 9}"
    by auto
  then show ?thesis
    by (auto simp: go_string_simps)
qed

lemma nat_of_digits_append: "nat_of_digits acc (s @ t) = nat_of_digits (nat_of_digits acc s) t"
  by (induction s arbitrary: acc) simp_all

lemma itoa_correct: "itoa n \<noteq> [] \<and> list_all is_digit (itoa n) \<and> nat_of_digits 0 (itoa n) = n"
proof (induction n rule: itoa.induct)
  case (1 n)
  then show ?case
    by (cases "n < 10")
      (simp_all add: itoa.simps [of n] is_digit_digit_char nat_of_digits_append)
qed

lemma itoa_no_leading_zero: "0 < n \<Longrightarrow> hd (itoa n) \<noteq> CHR ''0''"
proof (induction n rule: itoa.induct)
  case (1 n)
  show ?case
  proof (cases "n < 10")
    case True
    with 1(2) have "is_digit (hd (itoa n)) \<and> digit_val (hd (itoa n)) = n"
      by (simp add: itoa.simps [of n] is_digit_digit_char)
    with 1(2) show ?thesis
      by (auto simp: digit_val_def)
  next
    case False
    with 1 show ?thesis
      by (simp add: itoa.simps [of n] itoa_correct)
  qed
qed

lemma itoa_length_1: "n < 10 \<Longrightarrow> length (itoa n) = 1"
  by (simp add: itoa.simps)

lemma itoa_no_punct: "\<not> is_digit c \<Longrightarrow> c \<notin> set (itoa n)"
  using itoa_correct [of n] by (auto simp: list_all_iff)

lemma itoa_hd: "is_digit (hd (itoa n))"
  using itoa_correct [of n] by (cases "itoa n") auto

lemma itoa_not_sign: "\<not> has_prefix ''-'' (itoa n)" "\<not> has_prefix ''+'' (itoa n)"
  using itoa_correct [of n] by (cases "itoa n"; auto simp: has_prefix_def is_digit_def)+

lemma atoi_itoa: "int n \<le> maxInt64 \<Longrightarrow> atoi (itoa n) = Some (int n)"
  using itoa_correct [of n] by (simp add: atoi_def itoa_not_sign)

lemma split_byte_append:
  "sep \<notin> set w \<Longrightarrow> split_byte sep (w @ sep # s) = w # split_byte sep s"
  by (induction w) auto

lemma split_byte_no_sep: "sep \<notin> set w \<Longrightarrow> split_byte sep w = [w]"
  by (induction w) auto

lemma index_byte_append: "c \<notin> set s \<Longrightarrow> index_byte (s @ c # t) c = Some (length s)"
  by (induction s) auto

lemma index_byte_Some:
  "index_byte s c = Some i \<Longrightarrow> i < length s \<and> s ! i = c \<and> c \<notin> set (take i s)"
  by (induction s arbitrary: i) (auto split: if_splits)

lemma index_byte_None: "index_byte s c = None \<longleftrightarrow> c \<notin> set s"
  by (induction s) auto

lemma index_byte_split:
  assumes "index_byte s c = Some i"
  shows "s = take i s @ c # drop (i + 1) s" and "c \<notin> set (take i s)"
  using index_byte_Some [OF assms] by (auto simp: id_take_nth_drop)

lemma last_index_byte_append: "c \<notin> set t \<Longrightarrow> last_index_byte (s @ c # t) c = Some (length s)"
  using index_byte_append [of c "rev t" "rev s"] by (simp add: last_index_byte_def)

lemma map_sum_Inr_iff: "map_sum f g x = Inr y \<longleftrightarrow> (\<exists>z. x = Inr z \<and> y = g z)"
  by (cases x) auto

lemma find_append_skip: "list_all (\<lambda>x. \<not> P x) xs \<Longrightarrow> find P (xs @ ys) = find P ys"
  by (induction xs) auto

text \<open>Collecting the keys of a map and sorting them gives the same list in every visiting order.\<close>

lemma sort_distinct_set: "distinct xs \<Longrightarrow> sort xs = sorted_list_of_set (set xs)"
  by (simp add: sorted_list_of_set_sort_remdups distinct_remdups_id)

text \<open>
  \<open>sort.Slice\<close> is not stable: on equal keys its order is open. A function meets this contract
  when it returns its argument rearranged with the keys in order.
\<close>

definition sorts_by :: "('a \<Rightarrow> 'k::linorder) \<Rightarrow> ('a list \<Rightarrow> 'a list) \<Rightarrow> bool" where
  "sorts_by key srt \<longleftrightarrow> (\<forall>xs. mset (srt xs) = mset xs \<and> sorted (map key (srt xs)))"

lemma sorts_by_sort_key [simp]: "sorts_by key (sort_key key)"
  by (simp add: sorts_by_def)

lemma sorts_by_set: "sorts_by key srt \<Longrightarrow> set (srt xs) = set xs"
  by (metis sorts_by_def set_mset_mset)

lemma sorts_by_sorted: "sorts_by key srt \<Longrightarrow> sorted (map key (srt xs))"
  by (simp add: sorts_by_def)

lemma map_sort_key: "map f (sort_key f xs) = sort (map f xs)"
  by (intro properties_for_sort [symmetric]) simp_all

text \<open>A visiting order of a map: the keys, rearranged.\<close>

definition visits :: "('k list \<Rightarrow> 'k list) \<Rightarrow> bool" where
  "visits rng \<longleftrightarrow> (\<forall>ks. mset (rng ks) = mset ks)"

lemma visits_rev [simp]: "visits rev"
  by (simp add: visits_def)

lemma visits_set: "visits rng \<Longrightarrow> set (rng ks) = set ks"
  by (metis visits_def set_mset_mset)

lemma visits_sorted:
  assumes "visits rng"
  shows "sort (rng (remdups xs)) = sorted_list_of_set (set xs)"
proof -
  have m: "mset (rng (remdups xs)) = mset (remdups xs)"
    using assms by (simp add: visits_def)
  then have "distinct (rng (remdups xs))" "set (rng (remdups xs)) = set xs"
    by (metis distinct_remdups mset_eq_imp_distinct_iff, metis set_mset_mset set_remdups)
  then show ?thesis
    by (simp add: sort_distinct_set)
qed

end
