(* ===== verification/Lifecycle.thy ===== *)
theory Lifecycle
  imports Prelude
begin

text \<open>
  \<open>src/internal/runtime/generation.go\<close>: the process-local identity of a committed configuration.
  The counter is a 64-bit word, as \<open>atomic.Uint64\<close> is. The lemmas show that the identities a
  process hands out are all different until the counter wraps.
\<close>

type_synonym generation = "64 word"

definition Generation_String :: "generation \<Rightarrow> string" where
  "Generation_String g = itoa (unat g)"

record Generations =
  active :: generation

definition NewGenerations :: Generations where
  "NewGenerations = \<lparr>active = 1\<rparr>"

definition Active :: "Generations \<Rightarrow> generation" where
  "Active g = active g"

definition Advance :: "Generations \<Rightarrow> generation \<times> Generations" where
  "Advance g = (let n = active g + 1 in (n, g\<lparr>active := n\<rparr>))"

lemma active_after_advances: "Active (((snd \<circ> Advance) ^^ n) g) = Active g + of_nat n"
  by (induction n) (simp_all add: Active_def Advance_def Let_def algebra_simps)

lemma itoa_inject: "itoa m = itoa n \<longleftrightarrow> m = n"
  using itoa_correct by metis

lemma Generation_String_inject: "Generation_String g = Generation_String h \<longleftrightarrow> g = h"
  by (auto simp: Generation_String_def itoa_inject intro: unsigned_word_eqI)

lemma advances_distinct:
  assumes "m < n" and "n < 2 ^ 64"
  shows "Generation_String (Active (((snd \<circ> Advance) ^^ m) NewGenerations)) \<noteq>
    Generation_String (Active (((snd \<circ> Advance) ^^ n) NewGenerations))"
proof -
  have "(of_nat m :: 64 word) \<noteq> of_nat n"
    using assms by (simp add: word_of_nat_eq_iff take_bit_nat_eq_self)
  then show ?thesis
    by (simp add: active_after_advances Generation_String_inject)
qed

end
