(* ===== verification/Planner.thy ===== *)
theory Planner
  imports Prelude
begin

text \<open>
  The contract of a reconciling planner: a function that compares a current with a desired
  state and returns the changes to make. Both planners of the daemon meet it, the object planner
  of \<open>src/internal/kernel/plan.go\<close> and the set planner of \<open>src/internal/routing/routing.go\<close>. What
  the reconcile loop relies on is proved here once: the first round does all the work, and every
  later round of an undisturbed system changes nothing.
\<close>

locale planner =
  fixes plan :: "'c \<Rightarrow> 'd \<Rightarrow> 'p"
    and run :: "'p \<Rightarrow> 'c \<Rightarrow> 'c"
    and admissible :: "'c \<Rightarrow> 'd \<Rightarrow> bool"
    and idle :: "'p \<Rightarrow> bool"
  assumes run_admissible: "admissible c d \<Longrightarrow> admissible (run (plan c d) c) d"
    and run_settles: "admissible c d \<Longrightarrow> idle (plan (run (plan c d) c) d)"
    and idle_run: "idle p \<Longrightarrow> run p c = c"
begin

lemma second_round_idle: "admissible c d \<Longrightarrow> run (plan (run (plan c d) c) d) (run (plan c d) c) = run (plan c d) c"
  by (simp add: run_settles idle_run)

lemma rounds_stable: "admissible c d \<Longrightarrow> ((\<lambda>c. run (plan c d) c) ^^ Suc n) c = run (plan c d) c"
  by (induction n) (simp_all add: second_round_idle)

lemma rounds_idle: "admissible c d \<Longrightarrow> idle (plan (((\<lambda>c. run (plan c d) c) ^^ Suc n) c) d)"
  by (simp only: rounds_stable run_settles)

end

end
