(* ===== verification/Kernel_Plan.thy ===== *)
theory Kernel_Plan
  imports Planner "HOL-Library.AList"
begin

unbundle bit_operations_syntax

text \<open>
  The ownership planner of \<open>src/internal/kernel/plan.go\<close>: \<open>indexObjects\<close>, \<open>PlanDiff\<close> and
  \<open>ValidateAllocations\<close>. Go visits a map in an unspecified order, so \<open>kernel_PlanDiff\<close> takes the
  two visiting orders as functions that rearrange the keys. The lemmas show that the plan does
  not depend on them, that it only ever touches owned or adoptable objects, that applying it
  gives exactly the desired state beside the foreign objects, and that accepted allocations
  never select the same packet mark twice.
\<close>


section \<open>Objects, operations and plans\<close>

definition RouteProtocol :: nat where
  "RouteProtocol = 186"

definition RulePriorityMin :: int where
  "RulePriorityMin = 31000"

definition RulePriorityMax :: int where
  "RulePriorityMax = 31999"

definition FullMarkMask :: "32 word" where
  "FullMarkMask = NOT 0"

datatype Action = Add | Update | Delete

text \<open>\<open>Kind\<close> is a string type in the source, so an unknown or empty kind is representable.\<close>

type_synonym Kind = string

definition Link :: Kind where
  "Link = ''link''"

definition Address :: Kind where
  "Address = ''address''"

definition Route :: Kind where
  "Route = ''route''"

definition Rule :: Kind where
  "Rule = ''rule''"

record Object =
  o_Kind :: Kind
  o_ID :: string
  o_Value :: string
  o_Owned :: bool
  o_Evidence :: string
  o_AllowAdopt :: bool

definition zero_Object :: Object where
  "zero_Object =
     \<lparr>o_Kind = [], o_ID = [], o_Value = [], o_Owned = False, o_Evidence = [], o_AllowAdopt = False\<rparr>"

definition object_key :: "Object \<Rightarrow> string" where
  "object_key o1 = o_Kind o1 @ '':'' @ o_ID o1"

record Operation =
  op_Action :: Action
  op_Kind :: Kind
  op_ID :: string
  op_Before :: string
  op_After :: string
  op_Evidence :: string

record Drift =
  d_Kind :: Kind
  d_ID :: string
  d_Blocking :: bool
  d_Reason :: string

record Plan =
  p_Operations :: "Operation list"
  p_Drift :: "Drift list"

definition empty_Plan :: Plan where
  "empty_Plan = \<lparr>p_Operations = [], p_Drift = []\<rparr>"

definition HasBlockingDrift :: "Plan \<Rightarrow> bool" where
  "HasBlockingDrift p \<longleftrightarrow> list_ex d_Blocking (p_Drift p)"


section \<open>Planning\<close>

datatype plan_error =
    KindAndIDRequired
  | LacksEvidence string
  | DuplicateObject string
  | CurrentState plan_error
  | DesiredState plan_error

fun index_loop ::
  "bool \<Rightarrow> (string \<times> Object) list \<Rightarrow> Object list \<Rightarrow> plan_error + (string \<times> Object) list"
where
  "index_loop desired indexed [] = Inr indexed"
| "index_loop desired indexed (ob # obs) =
     (if o_Kind ob = [] \<or> o_ID ob = [] then Inl KindAndIDRequired
      else if desired \<and> o_Evidence ob = [] then Inl (LacksEvidence (object_key ob))
      else if map_of indexed (object_key ob) \<noteq> None then Inl (DuplicateObject (object_key ob))
      else index_loop desired (AList.update (object_key ob) ob indexed) obs)"

definition indexObjects :: "Object list \<Rightarrow> bool \<Rightarrow> plan_error + (string \<times> Object) list" where
  "indexObjects objects desired = index_loop desired [] objects"

definition collision_reason :: string where
  "collision_reason = ''desired tuple collides with an object lacking ownership evidence''"

text \<open>One round of the loop over the sorted keys: the \<open>switch\<close> of \<open>PlanDiff\<close>.\<close>

definition plan_step ::
  "(string \<times> Object) list \<Rightarrow> (string \<times> Object) list \<Rightarrow> string \<Rightarrow> Plan \<Rightarrow> Plan"
where
  "plan_step have_m want_m k p =
     (let dst = (case map_of want_m k of None \<Rightarrow> zero_Object | Some ob \<Rightarrow> ob)
      in case map_of have_m k of
        None \<Rightarrow>
          p\<lparr>p_Operations := p_Operations p @
             [\<lparr>op_Action = Add, op_Kind = o_Kind dst, op_ID = o_ID dst, op_Before = [],
               op_After = o_Value dst, op_Evidence = o_Evidence dst\<rparr>]\<rparr>
      | Some cur \<Rightarrow>
          if map_of want_m k = None then
            (if o_Owned cur then
               p\<lparr>p_Operations := p_Operations p @
                  [\<lparr>op_Action = Delete, op_Kind = o_Kind cur, op_ID = o_ID cur,
                    op_Before = o_Value cur, op_After = [], op_Evidence = o_Evidence cur\<rparr>]\<rparr>
             else p)
          else if \<not> o_Owned cur then
            (if o_AllowAdopt dst \<and> o_Value cur = o_Value dst then
               p\<lparr>p_Operations := p_Operations p @
                  [\<lparr>op_Action = Update, op_Kind = o_Kind dst, op_ID = o_ID dst,
                    op_Before = o_Value cur, op_After = o_Value dst,
                    op_Evidence = o_Evidence dst\<rparr>]\<rparr>
             else
               p\<lparr>p_Drift := p_Drift p @
                  [\<lparr>d_Kind = o_Kind dst, d_ID = o_ID dst, d_Blocking = True,
                    d_Reason = collision_reason\<rparr>]\<rparr>)
          else if o_Value cur \<noteq> o_Value dst then
            p\<lparr>p_Operations := p_Operations p @
               [\<lparr>op_Action = Update, op_Kind = o_Kind dst, op_ID = o_ID dst,
                 op_Before = o_Value cur, op_After = o_Value dst,
                 op_Evidence = o_Evidence cur\<rparr>]\<rparr>
          else p)"

text \<open>
  \<open>rng_have\<close> and \<open>rng_want\<close> rearrange the keys of the two maps: the order in which the two
  \<open>range\<close> loops visit them.
\<close>

definition plan_keys ::
  "(string list \<Rightarrow> string list) \<Rightarrow> (string list \<Rightarrow> string list) \<Rightarrow>
   (string \<times> Object) list \<Rightarrow> (string \<times> Object) list \<Rightarrow> string list"
where
  "plan_keys rng_have rng_want have_m want_m =
     sort (rng_have (map fst have_m) @
           filter (\<lambda>k. map_of have_m k = None) (rng_want (map fst want_m)))"

definition kernel_PlanDiff ::
  "(string list \<Rightarrow> string list) \<Rightarrow> (string list \<Rightarrow> string list) \<Rightarrow>
   Object list \<Rightarrow> Object list \<Rightarrow> plan_error + Plan"
where
  "kernel_PlanDiff rng_have rng_want current desired =
     (case indexObjects current False of
        Inl e \<Rightarrow> Inl (CurrentState e)
      | Inr have_m \<Rightarrow>
          (case indexObjects desired True of
             Inl e \<Rightarrow> Inl (DesiredState e)
           | Inr want_m \<Rightarrow>
               Inr (fold (plan_step have_m want_m)
                      (plan_keys rng_have rng_want have_m want_m) empty_Plan)))"


section \<open>Allocations\<close>

record Allocation =
  al_Name :: string
  al_Mark :: "32 word"
  al_Mask :: "32 word"
  al_Table :: int
  al_Priority :: int

datatype allocation_error =
    NameRequired nat
  | MarkZero string
  | MaskInexact string "32 word" "32 word"
  | TableReserved string int
  | PriorityOutside string int
  | TableUsed string int string
  | PriorityUsed string int string
  | SelectorsOverlap string string

fun check_earlier :: "Allocation \<Rightarrow> Allocation list \<Rightarrow> allocation_error option" where
  "check_earlier a [] = None"
| "check_earlier a (b # bs) =
     (if al_Table a = al_Table b then Some (TableUsed (al_Name a) (al_Table a) (al_Name b))
      else if al_Priority a = al_Priority b
      then Some (PriorityUsed (al_Name a) (al_Priority a) (al_Name b))
      else let common = al_Mask a AND al_Mask b
        in if al_Mark a AND common = al_Mark b AND common
           then Some (SelectorsOverlap (al_Name b) (al_Name a))
           else check_earlier a bs)"

fun validate_from :: "nat \<Rightarrow> Allocation list \<Rightarrow> Allocation list \<Rightarrow> allocation_error option" where
  "validate_from i earlier [] = None"
| "validate_from i earlier (a # rest) =
     (if al_Name a = [] then Some (NameRequired i)
      else if al_Mark a = 0 then Some (MarkZero (al_Name a))
      else if al_Mask a = 0 \<or> al_Mark a AND al_Mask a \<noteq> al_Mark a
      then Some (MaskInexact (al_Name a) (al_Mask a) (al_Mark a))
      else if al_Table a \<le> 0 \<or> al_Table a = 253 \<or> al_Table a = 254 \<or> al_Table a = 255
      then Some (TableReserved (al_Name a) (al_Table a))
      else if al_Priority a < RulePriorityMin \<or> RulePriorityMax < al_Priority a
      then Some (PriorityOutside (al_Name a) (al_Priority a))
      else case check_earlier a earlier of
        Some e \<Rightarrow> Some e
      | None \<Rightarrow> validate_from (Suc i) (earlier @ [a]) rest)"

definition ValidateAllocations :: "Allocation list \<Rightarrow> allocation_error option" where
  "ValidateAllocations allocations = validate_from 0 [] allocations"


section \<open>Indexing\<close>

definition keyed :: "Object list \<Rightarrow> (string \<times> Object) list" where
  "keyed obs = map (\<lambda>ob. (object_key ob, ob)) obs"

definition valid_objects :: "bool \<Rightarrow> Object list \<Rightarrow> bool" where
  "valid_objects desired obs \<longleftrightarrow>
     list_all (\<lambda>ob. o_Kind ob \<noteq> [] \<and> o_ID ob \<noteq> [] \<and> (desired \<longrightarrow> o_Evidence ob \<noteq> [])) obs \<and>
     distinct (map object_key obs)"

lemma map_fst_keyed [simp]: "map fst (keyed obs) = map object_key obs"
  by (simp add: keyed_def comp_def)

lemma keyed_simps [simp]:
  "keyed [] = []" "keyed (ob # obs) = (object_key ob, ob) # keyed obs"
  "keyed (xs @ ys) = keyed xs @ keyed ys"
  by (simp_all add: keyed_def)

lemma update_absent: "map_of m k = None \<Longrightarrow> AList.update k v m = m @ [(k, v)]"
  by (induction m) (auto split: if_splits)

lemma index_loop_Inr:
  "index_loop desired m obs = Inr r \<longleftrightarrow>
     valid_objects desired obs \<and> set (map object_key obs) \<inter> fst ` set m = {} \<and> r = m @ keyed obs"
proof (induction obs arbitrary: m)
  case (Cons ob obs)
  show ?case
  proof (cases "map_of m (object_key ob) = None")
    case True
    then show ?thesis
      using Cons.IH [of "AList.update (object_key ob) ob m"]
      by (auto simp: valid_objects_def update_absent map_of_eq_None_iff)
  next
    case False
    then show ?thesis
      by (auto simp: valid_objects_def map_of_eq_None_iff)
  qed
qed (auto simp: valid_objects_def)

lemma indexObjects_Inr:
  "indexObjects obs desired = Inr r \<longleftrightarrow> valid_objects desired obs \<and> r = keyed obs"
  by (simp add: indexObjects_def index_loop_Inr)

lemma map_of_keyed_Some: "map_of (keyed obs) k = Some ob \<Longrightarrow> ob \<in> set obs \<and> object_key ob = k"
  by (auto simp: keyed_def dest: map_of_SomeD)

lemma map_of_keyed_None: "map_of (keyed obs) k = None \<longleftrightarrow> k \<notin> object_key ` set obs"
  by (simp add: map_of_eq_None_iff keyed_def image_image)

lemma map_of_keyed_member:
  "distinct (map object_key obs) \<Longrightarrow> ob \<in> set obs \<Longrightarrow> map_of (keyed obs) (object_key ob) = Some ob"
  by (simp add: keyed_def map_of_eq_Some_iff comp_def)


section \<open>The keys of a plan\<close>

lemma plan_keys_eq:
  assumes "mset (rng_have (map object_key cur)) = mset (map object_key cur)"
    and "mset (rng_want (map object_key des)) = mset (map object_key des)"
    and "distinct (map object_key cur)" and "distinct (map object_key des)"
  shows "plan_keys rng_have rng_want (keyed cur) (keyed des) =
     sorted_list_of_set (object_key ` set cur \<union> object_key ` set des)"
proof -
  let ?ks = "rng_have (map object_key cur) @
    filter (\<lambda>k. map_of (keyed cur) k = None) (rng_want (map object_key des))"
  have sets: "set (rng_have (map object_key cur)) = object_key ` set cur"
    "set (rng_want (map object_key des)) = object_key ` set des"
    using assms(1,2) by (metis set_mset_mset list.set_map)+
  have "distinct (rng_have (map object_key cur))" "distinct (rng_want (map object_key des))"
    using assms by (metis mset_eq_imp_distinct_iff)+
  with sets have "distinct ?ks"
    by (auto simp: map_of_keyed_None)
  moreover have "set ?ks = object_key ` set cur \<union> object_key ` set des"
    using sets by (auto simp: map_of_keyed_None)
  ultimately show ?thesis
    unfolding plan_keys_def map_fst_keyed by (simp only: sort_distinct_set)
qed

lemma plan_step_append:
  "plan_step h w k p =
     \<lparr>p_Operations = p_Operations p @ p_Operations (plan_step h w k empty_Plan),
      p_Drift = p_Drift p @ p_Drift (plan_step h w k empty_Plan)\<rparr>"
  by (cases p) (auto simp: plan_step_def empty_Plan_def Let_def split: option.splits)

lemma fold_plan_step:
  "fold (plan_step h w) ks p =
     \<lparr>p_Operations = p_Operations p @ concat (map (\<lambda>k. p_Operations (plan_step h w k empty_Plan)) ks),
      p_Drift = p_Drift p @ concat (map (\<lambda>k. p_Drift (plan_step h w k empty_Plan)) ks)\<rparr>"
proof (induction ks arbitrary: p)
  case (Cons k ks)
  show ?case
    by (simp add: Cons.IH) (simp add: plan_step_append [of h w k p])
qed simp

definition plan_of :: "Object list \<Rightarrow> Object list \<Rightarrow> Plan" where
  "plan_of cur des =
     (let ks = sorted_list_of_set (object_key ` set cur \<union> object_key ` set des);
          s = (\<lambda>k. plan_step (keyed cur) (keyed des) k empty_Plan)
      in \<lparr>p_Operations = concat (map (\<lambda>k. p_Operations (s k)) ks),
          p_Drift = concat (map (\<lambda>k. p_Drift (s k)) ks)\<rparr>)"

lemma kernel_PlanDiff_Inr:
  assumes "\<And>ks. mset (rng_have ks) = mset ks" and "\<And>ks. mset (rng_want ks) = mset ks"
  shows "kernel_PlanDiff rng_have rng_want cur des = Inr p \<longleftrightarrow>
    valid_objects False cur \<and> valid_objects True des \<and> p = plan_of cur des"
proof -
  have "fold (plan_step (keyed cur) (keyed des)) (plan_keys rng_have rng_want (keyed cur) (keyed des))
      empty_Plan = plan_of cur des"
    if "valid_objects False cur" "valid_objects True des"
    using that assms
    by (subst plan_keys_eq) (simp_all add: valid_objects_def fold_plan_step plan_of_def empty_Plan_def)
  then show ?thesis
    by (auto simp: kernel_PlanDiff_def indexObjects_Inr split: sum.splits)
      (metis Inl_Inr_False indexObjects_Inr sum.exhaust)+
qed


section \<open>Applying a plan\<close>

definition op_key :: "Operation \<Rightarrow> string" where
  "op_key p = op_Kind p @ '':'' @ op_ID p"

lemma op_key_object [simp]:
  "op_key \<lparr>op_Action = a, op_Kind = o_Kind ob, op_ID = o_ID ob, op_Before = b, op_After = v,
           op_Evidence = e\<rparr> = object_key ob"
  by (simp add: op_key_def object_key_def)

definition apply_op :: "Operation \<Rightarrow> Object list \<Rightarrow> Object list" where
  "apply_op p obs =
     (case op_Action p of
        Add \<Rightarrow> obs @ [\<lparr>o_Kind = op_Kind p, o_ID = op_ID p, o_Value = op_After p, o_Owned = True,
                     o_Evidence = op_Evidence p, o_AllowAdopt = False\<rparr>]
      | Update \<Rightarrow> map (\<lambda>ob. if object_key ob = op_key p
                            then ob\<lparr>o_Value := op_After p, o_Owned := True\<rparr> else ob) obs
      | Delete \<Rightarrow> filter (\<lambda>ob. object_key ob \<noteq> op_key p) obs)"

definition apply_plan :: "Plan \<Rightarrow> Object list \<Rightarrow> Object list" where
  "apply_plan p obs = fold apply_op (p_Operations p) obs"

definition view :: "Object list \<Rightarrow> string \<Rightarrow> (string \<times> bool) option" where
  "view obs k = map_option (\<lambda>ob. (o_Value ob, o_Owned ob)) (map_of (keyed obs) k)"

text \<open>What an object of the kernel should be after the plan ran.\<close>

definition target :: "Object list \<Rightarrow> Object list \<Rightarrow> string \<Rightarrow> (string \<times> bool) option" where
  "target cur des k =
     (case map_of (keyed des) k of
        None \<Rightarrow>
          (case view cur k of Some (v, False) \<Rightarrow> Some (v, False) | _ \<Rightarrow> None)
      | Some d \<Rightarrow>
          (case view cur k of
             Some (v, False) \<Rightarrow>
               if o_AllowAdopt d \<and> v = o_Value d then Some (v, True) else Some (v, False)
           | _ \<Rightarrow> Some (o_Value d, True)))"

lemma view_Cons: "view (ob # obs) = (view obs)(object_key ob \<mapsto> (o_Value ob, o_Owned ob))"
  by (auto simp: view_def)

lemma view_Nil [simp]: "view [] = Map.empty"
  by (auto simp: view_def)

lemma view_None: "view obs k = None \<longleftrightarrow> k \<notin> object_key ` set obs"
  by (simp add: view_def map_of_keyed_None)

lemma view_append_new:
  "object_key ob \<notin> object_key ` set obs \<Longrightarrow>
   view (obs @ [ob]) = (view obs)(object_key ob \<mapsto> (o_Value ob, o_Owned ob))"
  by (induction obs) (auto simp: view_Cons)

lemma view_update:
  "view (map (\<lambda>ob. if object_key ob = k then ob\<lparr>o_Value := v, o_Owned := True\<rparr> else ob) obs) =
   (if k \<in> object_key ` set obs then (view obs)(k \<mapsto> (v, True)) else view obs)"
  by (induction obs) (auto simp: view_Cons object_key_def fun_eq_iff)

lemma view_remove: "view (filter (\<lambda>ob. object_key ob \<noteq> k) obs) = (view obs)(k := None)"
  by (induction obs) (auto simp: view_Cons fun_eq_iff view_None)

lemma valid_append_new:
  "valid_objects False obs \<Longrightarrow> object_key ob \<notin> object_key ` set obs \<Longrightarrow>
   o_Kind ob \<noteq> [] \<Longrightarrow> o_ID ob \<noteq> [] \<Longrightarrow> valid_objects False (obs @ [ob])"
  by (simp add: valid_objects_def)

lemma valid_update:
  "valid_objects False obs \<Longrightarrow>
   valid_objects False
     (map (\<lambda>ob. if object_key ob = k then ob\<lparr>o_Value := v, o_Owned := True\<rparr> else ob) obs)"
proof -
  have "object_key (if object_key ob = k then ob\<lparr>o_Value := v, o_Owned := True\<rparr> else ob) =
      object_key ob" for ob
    by (simp add: object_key_def)
  then show "valid_objects False obs \<Longrightarrow> ?thesis"
    by (auto simp: valid_objects_def list_all_iff comp_def)
qed

lemma valid_remove:
  "valid_objects False obs \<Longrightarrow> valid_objects False (filter (\<lambda>ob. object_key ob \<noteq> k) obs)"
  by (auto simp: valid_objects_def list_all_iff distinct_map_filter)

abbreviation step_ops :: "Object list \<Rightarrow> Object list \<Rightarrow> string \<Rightarrow> Operation list" where
  "step_ops cur des k \<equiv> p_Operations (plan_step (keyed cur) (keyed des) k empty_Plan)"

text \<open>The operations planned for one key bring that key, and no other, to its target.\<close>

lemma step_ops_effect:
  assumes "k \<in> object_key ` set cur \<union> object_key ` set des" and "valid_objects True des"
    and "valid_objects False obs" and "view obs k = view cur k"
  shows "view (fold apply_op (step_ops cur des k) obs) = (view obs)(k := target cur des k) \<and>
    valid_objects False (fold apply_op (step_ops cur des k) obs)"
proof (cases "map_of (keyed cur) k")
  case None
  then obtain d where d: "map_of (keyed des) k = Some d" "object_key d = k" "d \<in> set des"
    using assms(1) map_of_keyed_Some [of des k]
    by (cases "map_of (keyed des) k") (auto simp: map_of_keyed_None)
  have "o_Kind d \<noteq> []" "o_ID d \<noteq> []"
    using d assms(2) by (auto simp: valid_objects_def list_all_iff)
  moreover have "view cur k = None"
    using None by (simp add: view_def)
  moreover have "k \<notin> object_key ` set obs"
    using assms(4) \<open>view cur k = None\<close> view_None by metis
  ultimately show ?thesis
    using d None assms(3)
    by (auto simp: plan_step_def empty_Plan_def apply_op_def target_def view_append_new
        valid_append_new object_key_def)
next
  case (Some c)
  then have c: "object_key c = k" "view cur k = Some (o_Value c, o_Owned c)"
    using map_of_keyed_Some by (auto simp: view_def)
  have k: "k \<in> object_key ` set obs"
    using assms(4) c view_None by (metis option.distinct(1))
  show ?thesis
  proof (cases "map_of (keyed des) k")
    case None
    then show ?thesis
      using Some c k assms(3,4)
      by (auto simp: plan_step_def empty_Plan_def apply_op_def target_def view_remove valid_remove
          fun_upd_idem)
  next
    case (Some d)
    then have "object_key d = k"
      using map_of_keyed_Some by auto
    then show ?thesis
      using \<open>map_of (keyed cur) k = Some c\<close> Some c k assms(3,4)
      by (auto simp: plan_step_def empty_Plan_def apply_op_def target_def view_update valid_update
          fun_upd_idem)
  qed
qed

lemma plan_effect:
  assumes "valid_objects False obs" "valid_objects True des" "distinct ks"
    and "set ks \<subseteq> object_key ` set cur \<union> object_key ` set des"
    and "\<And>k. k \<in> set ks \<Longrightarrow> view obs k = view cur k"
  shows "view (fold apply_op (concat (map (step_ops cur des) ks)) obs) =
      (\<lambda>k. if k \<in> set ks then target cur des k else view obs k) \<and>
    valid_objects False (fold apply_op (concat (map (step_ops cur des) ks)) obs)"
  using assms
proof (induction ks arbitrary: obs)
  case (Cons k ks)
  let ?obs = "fold apply_op (step_ops cur des k) obs"
  have one: "view ?obs = (view obs)(k := target cur des k)" "valid_objects False ?obs"
    using step_ops_effect [of k cur des obs] Cons.prems by auto
  with Cons.prems have "view ?obs k' = view cur k'" if "k' \<in> set ks" for k'
    using that by auto
  with Cons.IH [of ?obs] Cons.prems one show ?case
    by (auto simp: fun_eq_iff)
qed simp

lemma apply_plan_of:
  assumes "valid_objects False cur" "valid_objects True des"
  shows "view (apply_plan (plan_of cur des) cur) = target cur des \<and>
    valid_objects False (apply_plan (plan_of cur des) cur)"
proof -
  let ?K = "object_key ` set cur \<union> object_key ` set des"
  have "target cur des k = None \<and> view cur k = None" if "k \<notin> ?K" for k
    using that map_of_keyed_None [of des k] view_None [of cur k] by (auto simp: target_def)
  then show ?thesis
    using plan_effect [of cur des "sorted_list_of_set ?K" cur] assms
    by (auto simp: apply_plan_def plan_of_def Let_def fun_eq_iff)
qed

text \<open>A key that has reached its target needs no further operation.\<close>

lemma target_undesired:
  "map_of (keyed des) k = None \<Longrightarrow> target cur des k = None \<or> (\<exists>v. target cur des k = Some (v, False))"
  by (auto simp: target_def split: option.split bool.split)

lemma target_desired:
  "map_of (keyed des) k = Some d \<Longrightarrow> target cur des k = Some (o_Value d, True) \<or>
     (\<exists>v. target cur des k = Some (v, False) \<and> \<not> (o_AllowAdopt d \<and> v = o_Value d))"
  by (auto simp: target_def split: option.split bool.split)

lemma step_ops_settled:
  assumes settled: "view cur' k = target cur des k"
    and k: "k \<in> object_key ` set cur' \<union> object_key ` set des"
  shows "step_ops cur' des k = []"
proof (cases "map_of (keyed des) k")
  case None
  with k have "k \<in> object_key ` set cur'"
    by (auto simp: map_of_keyed_None)
  then obtain c where c: "map_of (keyed cur') k = Some c"
    using map_of_keyed_None by fastforce
  then have "\<not> o_Owned c"
    using target_undesired [OF None, of cur] settled by (auto simp: view_def)
  with None c show ?thesis
    by (simp add: plan_step_def empty_Plan_def)
next
  case (Some d)
  then obtain c where c: "map_of (keyed cur') k = Some c"
    using target_desired [OF Some, of cur] settled by (auto simp: view_def)
  then have "o_Owned c \<and> o_Value c = o_Value d \<or>
      \<not> o_Owned c \<and> \<not> (o_AllowAdopt d \<and> o_Value c = o_Value d)"
    using target_desired [OF Some, of cur] settled by (auto simp: view_def)
  with Some c show ?thesis
    by (auto simp: plan_step_def empty_Plan_def)
qed

lemma plan_settled:
  assumes "view cur' = target cur des"
  shows "p_Operations (plan_of cur' des) = []"
  using step_ops_settled [of cur' _ cur des] assms
  by (auto simp: plan_of_def Let_def)

lemma step_ops_cases:
  assumes "p \<in> set (step_ops cur des k)" and "k \<in> object_key ` set cur \<union> object_key ` set des"
  shows "step_ops cur des k = [p] \<and> op_key p = k \<and>
    (case op_Action p of
       Add \<Rightarrow> k \<notin> object_key ` set cur \<and> (\<exists>d \<in> set des. object_key d = k \<and> op_After p = o_Value d)
     | Update \<Rightarrow>
         (\<exists>c \<in> set cur. \<exists>d \<in> set des. object_key c = k \<and> object_key d = k \<and>
            op_Before p = o_Value c \<and> op_After p = o_Value d \<and>
            (o_Owned c \<or> o_AllowAdopt d \<and> o_Value c = o_Value d))
     | Delete \<Rightarrow>
         k \<notin> object_key ` set des \<and>
         (\<exists>c \<in> set cur. object_key c = k \<and> o_Owned c \<and> op_Before p = o_Value c))"
proof (cases "map_of (keyed cur) k"; cases "map_of (keyed des) k")
  fix c d
  assume "map_of (keyed cur) k = Some c" "map_of (keyed des) k = Some d"
  with assms(1) map_of_keyed_Some [OF this(1)] map_of_keyed_Some [OF this(2)] show ?thesis
    by (auto simp: plan_step_def empty_Plan_def intro!: bexI [of _ c "set cur"] bexI [of _ d "set des"]
        split: if_splits)
next
  fix d
  assume "map_of (keyed cur) k = None" "map_of (keyed des) k = Some d"
  with assms(1) map_of_keyed_Some [OF this(2)] map_of_keyed_None [of cur k] show ?thesis
    by (auto simp: plan_step_def empty_Plan_def)
next
  fix c
  assume "map_of (keyed cur) k = Some c" "map_of (keyed des) k = None"
  with assms(1) map_of_keyed_Some [OF this(1)] map_of_keyed_None [of des k] show ?thesis
    by (auto simp: plan_step_def empty_Plan_def split: if_splits)
next
  assume "map_of (keyed cur) k = None" "map_of (keyed des) k = None"
  with assms(2) show ?thesis
    by (auto simp: map_of_keyed_None)
qed

lemma ops_keys:
  "set ks \<subseteq> object_key ` set cur \<union> object_key ` set des \<Longrightarrow>
   map op_key (concat (map (step_ops cur des) ks)) = filter (\<lambda>k. step_ops cur des k \<noteq> []) ks"
proof (induction ks)
  case (Cons k ks)
  show ?case
  proof (cases "step_ops cur des k")
    case Nil
    with Cons show ?thesis by simp
  next
    case (Cons p ps)
    then have "step_ops cur des k = [p] \<and> op_key p = k"
      using step_ops_cases [of p cur des k] Cons.prems by auto
    with Cons.IH Cons.prems show ?thesis by simp
  qed
qed simp

lemma plan_ops_strictly_sorted: "sorted_wrt (<) (map op_key (p_Operations (plan_of cur des)))"
  using ops_keys [of "sorted_list_of_set (object_key ` set cur \<union> object_key ` set des)" cur des]
  by (simp add: plan_of_def Let_def sorted_wrt_filter)

lemma plan_of_op:
  assumes "p \<in> set (p_Operations (plan_of cur des))"
  shows "case op_Action p of
       Add \<Rightarrow> op_key p \<notin> object_key ` set cur \<and>
         (\<exists>d \<in> set des. object_key d = op_key p \<and> op_After p = o_Value d)
     | Update \<Rightarrow>
         (\<exists>c \<in> set cur. \<exists>d \<in> set des. object_key c = op_key p \<and> object_key d = op_key p \<and>
            op_Before p = o_Value c \<and> op_After p = o_Value d \<and>
            (o_Owned c \<or> o_AllowAdopt d \<and> o_Value c = o_Value d))
     | Delete \<Rightarrow>
         op_key p \<notin> object_key ` set des \<and>
         (\<exists>c \<in> set cur. object_key c = op_key p \<and> o_Owned c \<and> op_Before p = o_Value c)"
proof -
  obtain k where "k \<in> object_key ` set cur \<union> object_key ` set des" "p \<in> set (step_ops cur des k)"
    using assms by (auto simp: plan_of_def Let_def)
  from step_ops_cases [OF this(2,1)] show ?thesis
    by auto
qed


section \<open>Allocations\<close>

definition selector_disjoint :: "Allocation \<Rightarrow> Allocation \<Rightarrow> bool" where
  "selector_disjoint a b \<longleftrightarrow>
     al_Table a \<noteq> al_Table b \<and> al_Priority a \<noteq> al_Priority b \<and>
     al_Mark a AND (al_Mask a AND al_Mask b) \<noteq> al_Mark b AND (al_Mask a AND al_Mask b)"

definition allocation_ok :: "Allocation \<Rightarrow> bool" where
  "allocation_ok a \<longleftrightarrow>
     al_Name a \<noteq> [] \<and> al_Mark a \<noteq> 0 \<and> al_Mask a \<noteq> 0 \<and> al_Mark a AND al_Mask a = al_Mark a \<and>
     0 < al_Table a \<and> al_Table a \<notin> {253, 254, 255} \<and>
     RulePriorityMin \<le> al_Priority a \<and> al_Priority a \<le> RulePriorityMax"

lemma check_earlier_None: "check_earlier a bs = None \<longleftrightarrow> list_all (selector_disjoint a) bs"
  by (induction bs) (auto simp: selector_disjoint_def Let_def)

lemma validate_from_None:
  "validate_from i earlier rest = None \<longleftrightarrow>
     list_all allocation_ok rest \<and>
     (\<forall>j < length rest. list_all (selector_disjoint (rest ! j)) (earlier @ take j rest))"
proof (induction rest arbitrary: i earlier)
  case (Cons a rest)
  have *: "(\<forall>j < length (a # rest). list_all (selector_disjoint ((a # rest) ! j)) (earlier @ take j (a # rest)))
    \<longleftrightarrow> list_all (selector_disjoint a) earlier \<and>
        (\<forall>j < length rest. list_all (selector_disjoint (rest ! j)) ((earlier @ [a]) @ take j rest))"
    by (auto simp: All_less_Suc2 simp del: list_all_append)
  show ?case
    unfolding * using Cons.IH [of "Suc i" "earlier @ [a]"] check_earlier_None [of a earlier]
    by (auto simp: allocation_ok_def simp del: list_all_append split: option.splits)
qed simp

lemma selector_disjoint_no_common:
  "selector_disjoint a b \<Longrightarrow> x AND al_Mask a = al_Mark a \<Longrightarrow> x AND al_Mask b \<noteq> al_Mark b"
proof
  assume "selector_disjoint a b" "x AND al_Mask a = al_Mark a" "x AND al_Mask b = al_Mark b"
  moreover have "(x AND al_Mask a) AND (al_Mask a AND al_Mask b) =
      (x AND al_Mask b) AND (al_Mask a AND al_Mask b)"
    by (rule bit_word_eqI) (auto simp: bit_simps)
  ultimately show False
    by (simp only: selector_disjoint_def)
qed


lemma ValidateAllocations_None:
  assumes "ValidateAllocations as = None" and "i < j" and "j < length as"
  shows "allocation_ok (as ! i) \<and> allocation_ok (as ! j) \<and> selector_disjoint (as ! j) (as ! i)"
proof -
  have "list_all (selector_disjoint (as ! j)) (take j as)" and "list_all allocation_ok as"
    using assms by (simp_all add: ValidateAllocations_def validate_from_None)
  moreover have "as ! i \<in> set (take j as)"
    using assms by (metis in_set_conv_nth length_take min_less_iff_conj nth_take order.strict_trans)
  ultimately show ?thesis
    using assms by (auto simp: list_all_iff)
qed


section \<open>The planner's contract\<close>

definition run_plan :: "plan_error + Plan \<Rightarrow> Object list \<Rightarrow> Object list" where
  "run_plan r obs = (case r of Inl e \<Rightarrow> obs | Inr p \<Rightarrow> apply_plan p obs)"

definition idle_plan :: "plan_error + Plan \<Rightarrow> bool" where
  "idle_plan r \<longleftrightarrow> (case r of Inl e \<Rightarrow> True | Inr p \<Rightarrow> p_Operations p = [])"

lemma kernel_PlanDiff_any_order:
  assumes "\<And>ks. mset (rng_have ks) = mset ks" and "\<And>ks. mset (rng_want ks) = mset ks"
  shows "kernel_PlanDiff rng_have rng_want cur des = kernel_PlanDiff id id cur des"
proof (cases "kernel_PlanDiff id id cur des")
  case (Inl e)
  then show ?thesis
    by (auto simp: kernel_PlanDiff_def split: sum.splits)
next
  case (Inr p)
  moreover from this have "kernel_PlanDiff rng_have rng_want cur des = Inr p"
    using assms kernel_PlanDiff_Inr [of id id cur des p]
    by (subst kernel_PlanDiff_Inr) simp_all
  ultimately show ?thesis
    by simp
qed

interpretation kernel_planner: planner "kernel_PlanDiff id id" run_plan "\<lambda>cur des. True" idle_plan
proof unfold_locales
  fix cur des
  show "idle_plan (kernel_PlanDiff id id (run_plan (kernel_PlanDiff id id cur des) cur) des)"
  proof (cases "kernel_PlanDiff id id cur des")
    case (Inl e)
    then show ?thesis
      by (simp add: run_plan_def idle_plan_def)
  next
    case (Inr p)
    then have p: "valid_objects False cur" "valid_objects True des" "p = plan_of cur des"
      using kernel_PlanDiff_Inr [of id id] by auto
    with apply_plan_of [OF p(1,2)] have
      "kernel_PlanDiff id id (apply_plan p cur) des = Inr (plan_of (apply_plan p cur) des)"
      by (simp add: kernel_PlanDiff_Inr)
    with Inr p plan_settled [of "apply_plan p cur" cur des] apply_plan_of [OF p(1,2)] show ?thesis
      by (simp add: run_plan_def idle_plan_def)
  qed
qed (auto simp: run_plan_def idle_plan_def apply_plan_def split: sum.splits)


section \<open>Properties\<close>

text \<open>
  (C5) Whatever order Go visits its maps in, running the plan of \<open>PlanDiff\<close> on the current objects
  gives exactly the target state: every desired object is present with its desired value and
  owned, every owned object that is no longer desired is gone, and every foreign object is as it
  was, unless a desired object with the same value may adopt it.
\<close>

theorem kernel_plan_reaches_target:
  assumes "\<And>ks. mset (rng_have ks) = mset ks" and "\<And>ks. mset (rng_want ks) = mset ks"
    and "kernel_PlanDiff rng_have rng_want cur des = Inr p"
  shows "view (apply_plan p cur) = target cur des"
  using assms apply_plan_of [of cur des] kernel_PlanDiff_Inr [of rng_have rng_want cur des p]
  by simp

definition sample_current :: "Object list" where
  "sample_current =
     [\<lparr>o_Kind = Rule, o_ID = ''stale'', o_Value = ''m1'', o_Owned = True, o_Evidence = ''p'', o_AllowAdopt = False\<rparr>,
      \<lparr>o_Kind = Route, o_ID = ''x'', o_Value = ''old'', o_Owned = True, o_Evidence = ''p'', o_AllowAdopt = False\<rparr>,
      \<lparr>o_Kind = Route, o_ID = ''foreign'', o_Value = ''f'', o_Owned = False, o_Evidence = [], o_AllowAdopt = False\<rparr>]"

definition sample_desired :: "Object list" where
  "sample_desired =
     [\<lparr>o_Kind = Route, o_ID = ''x'', o_Value = ''new'', o_Owned = True, o_Evidence = ''p'', o_AllowAdopt = False\<rparr>,
      \<lparr>o_Kind = Link, o_ID = ''wg0'', o_Value = ''up'', o_Owned = True, o_Evidence = ''a'', o_AllowAdopt = True\<rparr>]"

lemmas kernel_plan_eval =
  sample_current_def sample_desired_def kernel_PlanDiff_def indexObjects_def plan_keys_def
  plan_step_def object_key_def empty_Plan_def Let_def Rule_def Route_def Link_def

theorem kernel_plan_reaches_target_witness:
  "\<exists>p. kernel_PlanDiff rev rev sample_current sample_desired = Inr p \<and>
     view (apply_plan p sample_current) = target sample_current sample_desired \<and>
     map op_Action (p_Operations p) = [Add, Update, Delete]"
proof -
  let ?r = "kernel_PlanDiff rev rev sample_current sample_desired"
  have r: "\<exists>p. ?r = Inr p \<and> map op_Action (p_Operations p) = [Add, Update, Delete]"
    by (simp add: kernel_plan_eval)
  then obtain p where "?r = Inr p \<and> map op_Action (p_Operations p) = [Add, Update, Delete]" ..
  with kernel_plan_reaches_target [of rev rev sample_current sample_desired p] show ?thesis
    by simp
qed

text \<open>
  (C6) Ownership safety of \<open>PlanDiff\<close>. An added object is a desired one whose key is free. An
  updated object is present and desired, and it is owned or adoptable with an unchanged value. A
  deleted object is owned and not desired. So no plan overwrites or removes a foreign object. The
  operations come in strictly increasing key order, so no object is touched twice.
\<close>

theorem kernel_plan_ownership_safe:
  assumes "\<And>ks. mset (rng_have ks) = mset ks" and "\<And>ks. mset (rng_want ks) = mset ks"
    and "kernel_PlanDiff rng_have rng_want cur des = Inr p"
  shows "sorted_wrt (<) (map op_key (p_Operations p)) \<and>
    (\<forall>q \<in> set (p_Operations p).
       case op_Action q of
         Add \<Rightarrow> op_key q \<notin> object_key ` set cur \<and>
           (\<exists>d \<in> set des. object_key d = op_key q \<and> op_After q = o_Value d)
       | Update \<Rightarrow>
           (\<exists>c \<in> set cur. \<exists>d \<in> set des. object_key c = op_key q \<and> object_key d = op_key q \<and>
              op_Before q = o_Value c \<and> op_After q = o_Value d \<and>
              (o_Owned c \<or> o_AllowAdopt d \<and> o_Value c = o_Value d))
       | Delete \<Rightarrow>
           op_key q \<notin> object_key ` set des \<and>
           (\<exists>c \<in> set cur. object_key c = op_key q \<and> o_Owned c \<and> op_Before q = o_Value c))"
  using assms kernel_PlanDiff_Inr [of rng_have rng_want cur des p] plan_of_op [of _ cur des]
    plan_ops_strictly_sorted [of cur des]
  by simp

theorem kernel_plan_ownership_safe_witness:
  "\<exists>p. kernel_PlanDiff rev rev sample_current sample_desired = Inr p \<and>
     sorted_wrt (<) (map op_key (p_Operations p)) \<and> length (p_Operations p) = 3"
proof -
  let ?r = "kernel_PlanDiff rev rev sample_current sample_desired"
  have r: "\<exists>p. ?r = Inr p \<and> length (p_Operations p) = 3"
    by (simp add: kernel_plan_eval)
  then obtain p where "?r = Inr p \<and> length (p_Operations p) = 3" ..
  with kernel_plan_ownership_safe [of rev rev sample_current sample_desired p] show ?thesis
    by simp
qed



text \<open>
  (C18) Allocations that \<open>ValidateAllocations\<close> accepts never alias: two different tunnels have
  different tables and rule priorities, and no packet mark is selected by both of their
  mark and mask pairs.
\<close>

theorem ValidateAllocations_no_alias:
  assumes "ValidateAllocations as = None" and "i < j" and "j < length as"
    and "x AND al_Mask (as ! i) = al_Mark (as ! i)"
  shows "x AND al_Mask (as ! j) \<noteq> al_Mark (as ! j) \<and>
    al_Table (as ! i) \<noteq> al_Table (as ! j) \<and> al_Priority (as ! i) \<noteq> al_Priority (as ! j) \<and>
    al_Mark (as ! i) \<noteq> 0 \<and> al_Mark (as ! j) \<noteq> 0"
  using ValidateAllocations_None [OF assms(1-3)] assms(4)
    selector_disjoint_no_common [of "as ! j" "as ! i" x]
  by (auto simp: allocation_ok_def selector_disjoint_def)

theorem ValidateAllocations_no_alias_witness:
  "let as = [\<lparr>al_Name = ''wg0'', al_Mark = 1, al_Mask = FullMarkMask, al_Table = 100, al_Priority = 31001\<rparr>,
             \<lparr>al_Name = ''wg1'', al_Mark = 2, al_Mask = FullMarkMask, al_Table = 101, al_Priority = 31002\<rparr>]
   in ValidateAllocations as = None \<and> (1 :: 32 word) AND al_Mask (as ! 1) \<noteq> al_Mark (as ! 1)"
proof -
  let ?as = "[\<lparr>al_Name = ''wg0'', al_Mark = 1, al_Mask = FullMarkMask, al_Table = 100, al_Priority = 31001\<rparr>,
             \<lparr>al_Name = ''wg1'', al_Mark = 2, al_Mask = FullMarkMask, al_Table = 101, al_Priority = 31002\<rparr>]"
  have "ValidateAllocations ?as = None"
    by (simp add: ValidateAllocations_def FullMarkMask_def RulePriorityMin_def RulePriorityMax_def)
  then show ?thesis
    using ValidateAllocations_no_alias [of ?as 0 1 1] by (simp add: FullMarkMask_def)
qed

end
