(* ===== verification/Routing.thy ===== *)
theory Routing
  imports Planner
begin

text \<open>
  The routing primitives of \<open>src/internal/routing/routing.go\<close> and its wrapper
  \<open>src/cmd/sakhtar-wg/routeplan.go\<close>: the hostname suffix matcher and the sorted set difference
  that plans route changes. A nil matcher is \<open>None\<close>. The contract of an index in which the first
  rule for a key wins is a locale; the matcher is its instance, and the proxy builds its router
  through it.
\<close>


section \<open>The suffix matcher\<close>

record 'v SuffixMatcher =
  sm_values :: "string \<rightharpoonup> 'v"

definition NewSuffixMatcher :: "'v SuffixMatcher option" where
  "NewSuffixMatcher = Some \<lparr>sm_values = Map.empty\<rparr>"

definition AddFirst ::
  "'v SuffixMatcher option \<Rightarrow> string \<Rightarrow> 'v \<Rightarrow> bool \<times> 'v SuffixMatcher option"
where
  "AddFirst m suffix value =
     (case m of
        None \<Rightarrow> (False, None)
      | Some sm \<Rightarrow>
          if sm_values sm suffix \<noteq> None then (False, Some sm)
          else (True, Some (sm\<lparr>sm_values := (sm_values sm)(suffix \<mapsto> value)\<rparr>)))"

text \<open>The loop of \<open>Lookup\<close>; the argument is \<open>host[offset:]\<close>.\<close>

function lookup_loop :: "(string \<rightharpoonup> 'v) \<Rightarrow> string \<Rightarrow> 'v option" where
  "lookup_loop vals h =
     (if h = [] then None
      else case vals h of
        Some v \<Rightarrow> Some v
      | None \<Rightarrow>
          (case index_byte h CHR ''.'' of
             None \<Rightarrow> None
           | Some dot \<Rightarrow> lookup_loop vals (drop (dot + 1) h)))"
  by pat_completeness auto
termination
  by (relation "measure (\<lambda>(vals, h). length h)") auto

declare lookup_loop.simps [simp del]

definition Lookup :: "'v SuffixMatcher option \<Rightarrow> string \<Rightarrow> 'v option" where
  "Lookup m host = (case m of None \<Rightarrow> None | Some sm \<Rightarrow> lookup_loop (sm_values sm) host)"


section \<open>Set differences\<close>

record Diff =
  df_Add :: "string list"
  df_Delete :: "string list"

definition routing_PlanDiff ::
  "(string list \<Rightarrow> string list) \<Rightarrow> (string list \<Rightarrow> string list) \<Rightarrow>
   string list \<Rightarrow> string list \<Rightarrow> Diff"
where
  "routing_PlanDiff rng_want rng_have current desired =
     (let have_s = remdups current; want_s = remdups desired
      in \<lparr>df_Add = sort (filter (\<lambda>item. item \<notin> set have_s) (rng_want want_s)),
          df_Delete = sort (filter (\<lambda>item. item \<notin> set want_s) (rng_have have_s))\<rparr>)"

record routeDiff =
  rd_Add :: "string list"
  rd_Delete :: "string list"

definition planRouteDiff ::
  "(string list \<Rightarrow> string list) \<Rightarrow> (string list \<Rightarrow> string list) \<Rightarrow>
   string list \<Rightarrow> string list \<Rightarrow> routeDiff"
where
  "planRouteDiff rng_want rng_have current desired =
     (let diff = routing_PlanDiff rng_want rng_have current desired
      in \<lparr>rd_Add = df_Add diff, rd_Delete = df_Delete diff\<rparr>)"


section \<open>First rule wins\<close>

text \<open>What a client that fills an index from a list of rules relies on.\<close>

locale first_wins_index =
  fixes empty_index :: 'm
    and add :: "'m \<Rightarrow> 'k \<Rightarrow> 'v \<Rightarrow> 'm"
    and get :: "'m \<Rightarrow> 'k \<Rightarrow> 'v option"
  assumes get_empty: "get empty_index k = None"
    and get_add: "get (add m k v) k' = (if k' = k \<and> get m k = None then Some v else get m k')"
begin

lemma get_fold:
  "get (fold (\<lambda>(k, v) m. add m k v) rules m) k =
     (case get m k of Some v \<Rightarrow> Some v | None \<Rightarrow> map_of rules k)"
  by (induction rules arbitrary: m) (auto simp: get_add split: option.splits)

lemma get_build: "get (fold (\<lambda>(k, v) m. add m k v) rules empty_index) k = map_of rules k"
  by (simp add: get_fold get_empty)

end

definition exact :: "'v SuffixMatcher option \<Rightarrow> string \<Rightarrow> 'v option" where
  "exact m k = (case m of None \<Rightarrow> None | Some sm \<Rightarrow> sm_values sm k)"

text \<open>A matcher that was allocated stays allocated, so the index is the type of its contents.\<close>

interpretation suffix_index:
  first_wins_index "\<lparr>sm_values = Map.empty\<rparr>" "\<lambda>m k v. the (snd (AddFirst (Some m) k v))"
    "\<lambda>m. exact (Some m)"
  by unfold_locales (auto simp: AddFirst_def exact_def)

lemma AddFirst_Some: "snd (AddFirst (Some sm) k v) = Some (the (snd (AddFirst (Some sm) k v)))"
  by (simp add: AddFirst_def)

lemma fold_AddFirst:
  "fold (\<lambda>(k, v) m. snd (AddFirst m k v)) rules (Some sm) =
     Some (fold (\<lambda>(k, v) m. the (snd (AddFirst (Some m) k v))) rules sm)"
proof (induction rules arbitrary: sm)
  case (Cons r rules)
  obtain k v where "r = (k, v)" by (cases r)
  with Cons.IH [of "the (snd (AddFirst (Some sm) k v))"] AddFirst_Some [of sm k v] show ?case
    by simp
qed simp

lemma built_matcher:
  "fold (\<lambda>(k, v) m. snd (AddFirst m k v)) rules NewSuffixMatcher = Some \<lparr>sm_values = map_of rules\<rparr>"
proof -
  have "sm_values (fold (\<lambda>(k, v) m. the (snd (AddFirst (Some m) k v))) rules
      \<lparr>sm_values = Map.empty\<rparr>) = map_of rules"
    using suffix_index.get_build [of rules] by (auto simp: exact_def)
  then show ?thesis
    unfolding NewSuffixMatcher_def fold_AddFirst by (auto intro!: SuffixMatcher.equality)
qed


section \<open>The most specific suffix\<close>

text \<open>\<open>s\<close> is \<open>h\<close> itself or one of its parent domains.\<close>

definition domain_suffix :: "string \<Rightarrow> string \<Rightarrow> bool" where
  "domain_suffix s h \<longleftrightarrow> s \<noteq> [] \<and> (h = s \<or> (\<exists>p. h = p @ CHR ''.'' # s))"

lemma domain_suffix_step:
  assumes "index_byte h CHR ''.'' = Some i"
  shows "domain_suffix s h \<longleftrightarrow> s = h \<or> domain_suffix s (drop (i + 1) h)"
proof -
  obtain w r where h: "h = w @ CHR ''.'' # r" "CHR ''.'' \<notin> set w" "r = drop (i + 1) h"
    using index_byte_split [OF assms] by blast
  have "(\<exists>p. w @ CHR ''.'' # r = p @ CHR ''.'' # s) \<longleftrightarrow> r = s \<or> (\<exists>p. r = p @ CHR ''.'' # s)"
    using h(2) by (auto simp: append_eq_append_conv2 append_eq_Cons_conv Cons_eq_append_conv)
  with h show ?thesis
    by (auto simp: domain_suffix_def)
qed

lemma domain_suffix_last: "CHR ''.'' \<notin> set h \<Longrightarrow> domain_suffix s h \<longleftrightarrow> s \<noteq> [] \<and> s = h"
  by (auto simp: domain_suffix_def)

lemma domain_suffix_length: "domain_suffix s h \<Longrightarrow> length s \<le> length h"
  by (auto simp: domain_suffix_def)

lemma domain_suffix_refl [simp]: "h \<noteq> [] \<Longrightarrow> domain_suffix h h"
  by (simp add: domain_suffix_def)

definition longest_match :: "(string \<rightharpoonup> 'v) \<Rightarrow> (string \<Rightarrow> bool) \<Rightarrow> 'v option \<Rightarrow> bool" where
  "longest_match vals D r \<longleftrightarrow>
     (case r of
        None \<Rightarrow> \<forall>s. D s \<longrightarrow> vals s = None
      | Some v \<Rightarrow> \<exists>s. D s \<and> vals s = Some v \<and>
          (\<forall>t. D t \<and> length s < length t \<longrightarrow> vals t = None))"

lemma longest_match_extend:
  assumes "vals h = None" and "longest_match vals D r"
  shows "longest_match vals (\<lambda>s. s = h \<or> D s) r"
proof (cases r)
  case None
  with assms show ?thesis
    by (auto simp: longest_match_def)
next
  case (Some v)
  then obtain s where "D s" "vals s = Some v"
    "\<forall>t. D t \<and> length s < length t \<longrightarrow> vals t = None"
    using assms(2) by (auto simp: longest_match_def)
  with Some assms(1) show ?thesis
    by (auto simp: longest_match_def intro!: exI [of _ s])
qed

lemma lookup_loop_correct:
  "longest_match vals (\<lambda>s. domain_suffix s h) (lookup_loop vals h)"
proof (induction vals h rule: lookup_loop.induct)
  case (1 vals h)
  show ?case
  proof (cases "h = []")
    case True
    then show ?thesis
      by (auto simp: longest_match_def lookup_loop.simps domain_suffix_def)
  next
    case nonempty: False
    show ?thesis
    proof (cases "vals h")
      case (Some v)
      with nonempty show ?thesis
        by (auto simp: longest_match_def lookup_loop.simps intro!: exI [of _ h] dest!: domain_suffix_length)
    next
      case here: None
      show ?thesis
      proof (cases "index_byte h CHR ''.''")
        case None
        then have "CHR ''.'' \<notin> set h"
          by (simp add: index_byte_None)
        with None nonempty here show ?thesis
          by (auto simp: longest_match_def lookup_loop.simps domain_suffix_last)
      next
        case (Some i)
        then have "lookup_loop vals h = lookup_loop vals (drop (i + 1) h)"
          using nonempty here by (simp add: lookup_loop.simps [of vals h])
        with longest_match_extend [OF here 1 [OF nonempty here Some]] show ?thesis
          by (simp add: domain_suffix_step [OF Some])
      qed
    qed
  qed
qed


section \<open>The set planner\<close>

definition apply_diff :: "Diff \<Rightarrow> string list \<Rightarrow> string list" where
  "apply_diff d current = filter (\<lambda>item. item \<notin> set (df_Delete d)) current @ df_Add d"

definition idle_diff :: "Diff \<Rightarrow> bool" where
  "idle_diff d \<longleftrightarrow> df_Add d = [] \<and> df_Delete d = []"

lemma sorted_difference:
  assumes "mset (rng (remdups xs)) = mset (remdups xs)"
  shows "sort (filter (\<lambda>x. x \<notin> set ys) (rng (remdups xs))) = sorted_list_of_set (set xs - set ys)"
proof -
  have "distinct (rng (remdups xs))" and "set (rng (remdups xs)) = set xs"
    using assms by (metis distinct_remdups mset_eq_imp_distinct_iff,
        metis set_mset_mset set_remdups)
  then show ?thesis
    by (simp add: sort_distinct_set) (metis set_diff_eq)
qed

lemma routing_PlanDiff_eq:
  assumes "\<And>ks. mset (rng_want ks) = mset ks" and "\<And>ks. mset (rng_have ks) = mset ks"
  shows "routing_PlanDiff rng_want rng_have current desired =
    \<lparr>df_Add = sorted_list_of_set (set desired - set current),
     df_Delete = sorted_list_of_set (set current - set desired)\<rparr>"
  using assms by (simp add: routing_PlanDiff_def sorted_difference)

interpretation set_planner:
  planner "routing_PlanDiff id id" apply_diff "\<lambda>current desired. True" idle_diff
proof unfold_locales
  fix current desired :: "string list"
  have "set current - (set current - set desired) \<union> (set desired - set current) = set desired"
    by blast
  then show "idle_diff (routing_PlanDiff id id
      (apply_diff (routing_PlanDiff id id current desired) current) desired)"
    by (auto simp: routing_PlanDiff_eq apply_diff_def idle_diff_def)
qed (auto simp: apply_diff_def idle_diff_def)


section \<open>Properties\<close>

text \<open>
  (C19) A matcher filled with \<open>AddFirst\<close> from a list of rules looks a host up by its most specific
  configured domain, and among rules for that domain the first one wins. \<open>Lookup\<close> finds nothing
  only when neither the host nor any of its parent domains has a rule.
\<close>

theorem suffix_lookup_most_specific:
  "case Lookup (fold (\<lambda>(k, v) m. snd (AddFirst m k v)) rules NewSuffixMatcher) host of
     None \<Rightarrow> \<forall>s. domain_suffix s host \<longrightarrow> s \<notin> fst ` set rules
   | Some v \<Rightarrow> \<exists>s. domain_suffix s host \<and> map_of rules s = Some v \<and>
       (\<forall>t. domain_suffix t host \<and> length s < length t \<longrightarrow> t \<notin> fst ` set rules)"
  using lookup_loop_correct [of "map_of rules" host]
  by (cases "lookup_loop (map_of rules) host")
    (simp_all add: built_matcher Lookup_def longest_match_def map_of_eq_None_iff)

theorem suffix_lookup_most_specific_witness:
  "let rules = [(''example.com'', 1), (''b.example.com'', 2), (''example.com'', 3 :: nat)];
       m = fold (\<lambda>(k, v) m. snd (AddFirst m k v)) rules NewSuffixMatcher
   in Lookup m ''x.example.com'' = Some 1 \<and> Lookup m ''myexample.com'' = None \<and>
      Lookup m ''a.b.example.com'' = Some 2 \<and>
      (\<exists>s. domain_suffix s ''a.b.example.com'' \<and> map_of rules s = Some 2)"
proof -
  let ?rules = "[(''example.com'', 1), (''b.example.com'', 2), (''example.com'', 3 :: nat)]"
  let ?m = "fold (\<lambda>(k, v) m. snd (AddFirst m k v)) ?rules NewSuffixMatcher"
  have "Lookup ?m ''x.example.com'' = Some 1" "Lookup ?m ''myexample.com'' = None"
    and found: "Lookup ?m ''a.b.example.com'' = Some 2"
    by (simp_all add: NewSuffixMatcher_def AddFirst_def Lookup_def lookup_loop.simps)
  moreover have "\<exists>s. domain_suffix s ''a.b.example.com'' \<and> map_of ?rules s = Some 2"
    using suffix_lookup_most_specific [where rules = ?rules and host = "''a.b.example.com''"] unfolding found
    by (simp only: option.case) blast
  ultimately show ?thesis
    by (simp only: Let_def simp_thms)
qed

text \<open>
  \<open>PlanDiff\<close> on sets: whatever order Go visits its maps in, the additions are the desired
  items that are missing and the deletions the present items that are not desired, each sorted
  and without repetition. Applying both gives exactly the desired set, after which nothing is
  left to do.
\<close>

lemma routing_PlanDiff_correct:
  assumes "\<And>ks. mset (rng_want ks) = mset ks" and "\<And>ks. mset (rng_have ks) = mset ks"
  shows "let d = planRouteDiff rng_want rng_have current desired;
             after = apply_diff \<lparr>df_Add = rd_Add d, df_Delete = rd_Delete d\<rparr> current
    in set (rd_Add d) = set desired - set current \<and> sorted_wrt (<) (rd_Add d) \<and>
       set (rd_Delete d) = set current - set desired \<and> sorted_wrt (<) (rd_Delete d) \<and>
       set after = set desired \<and> idle_diff (routing_PlanDiff rng_want rng_have after desired)"
  using set_planner.run_settles [of current desired]
  by (auto simp: routing_PlanDiff_eq [OF assms] routing_PlanDiff_eq planRouteDiff_def apply_diff_def)

lemma routing_PlanDiff_correct_witness:
  "let d = planRouteDiff rev rev [''10.0.0.0/8'', ''10.1.0.0/16''] [''10.1.0.0/16'', ''1.0.0.0/8'', ''1.0.0.0/8'']
   in rd_Add d = [''1.0.0.0/8''] \<and> rd_Delete d = [''10.0.0.0/8''] \<and>
      set (rd_Add d) = set [''10.1.0.0/16'', ''1.0.0.0/8'', ''1.0.0.0/8''] - set [''10.0.0.0/8'', ''10.1.0.0/16'']"
  using routing_PlanDiff_correct [of rev rev "[''10.0.0.0/8'', ''10.1.0.0/16'']" "[''10.1.0.0/16'', ''1.0.0.0/8'', ''1.0.0.0/8'']"]
  by (simp add: planRouteDiff_def routing_PlanDiff_def)

end
