(* ===== verification/Netip.thy ===== *)
theory Netip
  imports Prelude
begin

unbundle bit_operations_syntax

text \<open>
  The part of Go's \<open>net/netip\<close> and \<open>net\<close> packages that the daemon computes with: addresses,
  their classes, prefixes, and the text forms it reads and writes. The first half is the model
  of those library functions, the second half the facts about them that the components share:
  what a prefix contains, when two prefixes overlap, and that printing and parsing an IPv4
  address or prefix are inverse.
\<close>

section \<open>Addresses\<close>

type_synonym u32 = "32 word"
type_synonym u128 = "128 word"

text \<open>
  The zero \<open>netip.Addr\<close> is \<open>NoAddr\<close>. An IPv6 address carries its zone; the empty zone is no
  zone. An IPv4-mapped address is an IPv6 address until \<open>Unmap\<close> turns it into an IPv4 one.
\<close>

datatype addr = NoAddr | V4 u32 | V6 u128 string

definition IsValid :: "addr \<Rightarrow> bool" where
  [netip_simps]: "IsValid a \<longleftrightarrow> a \<noteq> NoAddr"

fun Zone :: "addr \<Rightarrow> string" where
  "Zone (V6 a z) = z"
| "Zone _ = []"

fun Is4 :: "addr \<Rightarrow> bool" where
  "Is4 (V4 a) \<longleftrightarrow> True"
| "Is4 _ \<longleftrightarrow> False"

fun BitLen :: "addr \<Rightarrow> nat" where
  "BitLen NoAddr = 0"
| "BitLen (V4 a) = 32"
| "BitLen (V6 a z) = 128"

definition mapped :: "u128 \<Rightarrow> bool" where
  [netip_simps]: "mapped a \<longleftrightarrow> drop_bit 32 a = 0xFFFF"

fun Is4In6 :: "addr \<Rightarrow> bool" where
  "Is4In6 (V6 a z) \<longleftrightarrow> mapped a"
| "Is4In6 _ \<longleftrightarrow> False"

fun Unmap :: "addr \<Rightarrow> addr" where
  "Unmap (V6 a z) = (if mapped a then V4 (ucast a) else V6 a z)"
| "Unmap a = a"

definition octet :: "u32 \<Rightarrow> nat \<Rightarrow> nat" where
  [netip_simps]: "octet a i = unat a div 2 ^ (24 - 8 * i) mod 256"

definition group16 :: "u128 \<Rightarrow> nat \<Rightarrow> nat" where
  [netip_simps]: "group16 a i = unat a div 2 ^ (112 - 16 * i) mod 65536"

text \<open>The address classes. Each looks through an IPv4-mapped address first.\<close>

fun class_of :: "(u32 \<Rightarrow> bool) \<Rightarrow> (u128 \<Rightarrow> bool) \<Rightarrow> addr \<Rightarrow> bool" where
  "class_of p4 p6 NoAddr \<longleftrightarrow> False"
| "class_of p4 p6 (V4 a) \<longleftrightarrow> p4 a"
| "class_of p4 p6 (V6 a z) \<longleftrightarrow> (if mapped a then p4 (ucast a) else p6 a)"

definition IsUnspecified :: "addr \<Rightarrow> bool" where
  [netip_simps]: "IsUnspecified a \<longleftrightarrow> a = V4 0 \<or> a = V6 0 []"

definition IsLoopback :: "addr \<Rightarrow> bool" where
  [netip_simps]: "IsLoopback = class_of (\<lambda>a. octet a 0 = 127) (\<lambda>a. a = 1)"

definition IsMulticast :: "addr \<Rightarrow> bool" where
  [netip_simps]:
  "IsMulticast = class_of (\<lambda>a. octet a 0 div 16 = 14) (\<lambda>a. group16 a 0 div 256 = 255)"

definition IsLinkLocalUnicast :: "addr \<Rightarrow> bool" where
  [netip_simps]:
  "IsLinkLocalUnicast =
     class_of (\<lambda>a. octet a 0 = 169 \<and> octet a 1 = 254) (\<lambda>a. group16 a 0 div 64 = 0x3FA)"

definition IsLinkLocalMulticast :: "addr \<Rightarrow> bool" where
  [netip_simps]:
  "IsLinkLocalMulticast =
     class_of (\<lambda>a. octet a 0 = 224 \<and> octet a 1 = 0 \<and> octet a 2 = 0)
       (\<lambda>a. group16 a 0 div 256 = 255 \<and> group16 a 0 mod 16 = 2)"

definition IsPrivate :: "addr \<Rightarrow> bool" where
  [netip_simps]:
  "IsPrivate =
     class_of (\<lambda>a. octet a 0 = 10 \<or> (octet a 0 = 172 \<and> octet a 1 div 16 = 1) \<or>
                 (octet a 0 = 192 \<and> octet a 1 = 168))
       (\<lambda>a. group16 a 0 div 512 = 0x7E)"


section \<open>Prefixes\<close>

datatype prefix = Pfx (pfx_addr: addr) (Bits: nat)

text \<open>\<open>keep_bits n w\<close> clears all but the top \<open>n\<close> bits.\<close>

definition keep_bits :: "nat \<Rightarrow> 'a::len word \<Rightarrow> 'a word" where
  [netip_simps]: "keep_bits n w = w AND NOT (mask (LENGTH('a) - n))"

fun mask_addr :: "nat \<Rightarrow> addr \<Rightarrow> addr" where
  "mask_addr n NoAddr = NoAddr"
| "mask_addr n (V4 a) = V4 (keep_bits n a)"
| "mask_addr n (V6 a z) = V6 (keep_bits n a) []"

fun Masked :: "prefix \<Rightarrow> prefix" where
  "Masked (Pfx a n) = Pfx (mask_addr n a) n"

fun Contains :: "prefix \<Rightarrow> addr \<Rightarrow> bool" where
  "Contains (Pfx (V4 p) n) (V4 a) \<longleftrightarrow> drop_bit (32 - n) (a XOR p) = 0"
| "Contains (Pfx (V6 p z) n) (V6 a z') \<longleftrightarrow> z' = [] \<and> drop_bit (128 - n) (a XOR p) = 0"
| "Contains _ _ \<longleftrightarrow> False"

fun Overlaps :: "prefix \<Rightarrow> prefix \<Rightarrow> bool" where
  "Overlaps (Pfx (V4 p) n) (Pfx (V4 q) m) \<longleftrightarrow> keep_bits (min n m) p = keep_bits (min n m) q"
| "Overlaps (Pfx (V6 p z) n) (Pfx (V6 q z') m) \<longleftrightarrow>
     keep_bits (min n m) p = keep_bits (min n m) q"
| "Overlaps _ _ \<longleftrightarrow> False"


section \<open>Reading addresses and prefixes\<close>

definition parse_octet :: "string \<Rightarrow> nat option" where
  [netip_simps]:
  "parse_octet s =
     (if s = [] \<or> \<not> list_all is_digit s \<or> (1 < length s \<and> hd s = CHR ''0'') \<or>
         255 < nat_of_digits 0 s
      then None else Some (nat_of_digits 0 s))"

definition v4_of :: "nat \<Rightarrow> nat \<Rightarrow> nat \<Rightarrow> nat \<Rightarrow> u32" where
  [netip_simps]: "v4_of a b c d = word_of_nat (((a * 256 + b) * 256 + c) * 256 + d)"

definition parse_v4 :: "string \<Rightarrow> u32 option" where
  [netip_simps]:
  "parse_v4 s =
     (case map parse_octet (split_byte CHR ''.'' s) of
        [Some a, Some b, Some c, Some d] \<Rightarrow> Some (v4_of a b c d)
      | _ \<Rightarrow> None)"

definition is_hex :: "char \<Rightarrow> bool" where
  [netip_simps]:
  "is_hex c \<longleftrightarrow> is_digit c \<or> (let n = (of_char c :: nat) in 65 \<le> n \<and> n \<le> 70 \<or> 97 \<le> n \<and> n \<le> 102)"

definition hex_val :: "char \<Rightarrow> nat" where
  [netip_simps]:
  "hex_val c =
     (let n = of_char c in if n \<le> 57 then n - 48 else if n \<le> 70 then n - 55 else n - 87)"

definition nat_of_hex :: "string \<Rightarrow> nat" where
  [netip_simps]: "nat_of_hex s = foldl (\<lambda>acc c. acc * 16 + hex_val c) 0 s"

definition v6_of_groups :: "nat list \<Rightarrow> u128" where
  [netip_simps]: "v6_of_groups gs = word_of_nat (foldl (\<lambda>acc g. acc * 65536 + g) 0 gs)"

lemma length_dropWhile_Cons: "dropWhile P s = c # r \<Longrightarrow> length r < length s"
  by (metis Suc_le_lessD length_Cons length_dropWhile_le)

text \<open>
  The loop of \<open>parseIPv6\<close>: one group of hexadecimal digits per round, with the groups read so
  far and the position of the double colon, if one was seen.
\<close>

function parse_v6_groups :: "string \<Rightarrow> nat list \<Rightarrow> nat option \<Rightarrow> (nat list \<times> nat option) option"
where
  "parse_v6_groups s gs e =
     (if 8 \<le> length gs then (if s = [] then Some (gs, e) else None)
      else
        let ds = takeWhile is_hex s; rest = dropWhile is_hex s; gs' = gs @ [nat_of_hex ds]
        in if ds = [] \<or> 4 < length ds then None
           else case rest of
             [] \<Rightarrow> Some (gs', e)
           | c # r \<Rightarrow>
               if c = CHR ''.'' then
                 (if (e = None \<and> length gs \<noteq> 6) \<or> 6 < length gs then None
                  else case parse_v4 s of
                    None \<Rightarrow> None
                  | Some a \<Rightarrow> Some (gs @ [unat a div 65536, unat a mod 65536], e))
               else if c \<noteq> CHR '':'' \<or> r = [] then None
               else if hd r = CHR '':'' then
                 (if e \<noteq> None then None
                  else if tl r = [] then Some (gs', Some (length gs'))
                  else parse_v6_groups (tl r) gs' (Some (length gs')))
               else parse_v6_groups r gs' e)"
  by pat_completeness auto

termination
  by (relation "measure (\<lambda>(s, gs, e). length s)")
     (auto dest!: sym [of "_ # _"] length_dropWhile_Cons)

declare parse_v6_groups.simps [simp del]

definition parse_v6 :: "string \<Rightarrow> addr option" where
  [netip_simps]:
  "parse_v6 s0 =
     (let s = takeWhile (\<lambda>c. c \<noteq> CHR ''%'') s0;
          zone = tl (dropWhile (\<lambda>c. c \<noteq> CHR ''%'') s0);
          lead = has_prefix ''::'' s;
          e0 = (if lead then Some 0 else None);
          s1 = (if lead then drop 2 s else s)
      in if CHR ''%'' \<in> set s0 \<and> zone = [] then None
         else if lead \<and> s1 = [] then Some (V6 0 zone)
         else case parse_v6_groups s1 [] e0 of
           None \<Rightarrow> None
         | Some (gs, e) \<Rightarrow>
             if length gs < 8 then
               (case e of
                  None \<Rightarrow> None
                | Some p \<Rightarrow>
                    Some (V6 (v6_of_groups
                      (take p gs @ replicate (8 - length gs) 0 @ drop p gs)) zone))
             else if e \<noteq> None then None
             else Some (V6 (v6_of_groups gs) zone))"

definition ParseAddr :: "string \<Rightarrow> addr option" where
  [netip_simps]:
  "ParseAddr s =
     (case find (\<lambda>c. c \<in> {CHR ''.'', CHR '':'', CHR ''%''}) s of
        None \<Rightarrow> None
      | Some c \<Rightarrow>
          if c = CHR ''.'' then map_option V4 (parse_v4 s)
          else if c = CHR '':'' then parse_v6 s
          else None)"

text \<open>\<open>netip.ParsePrefix\<close>: no zone, and a prefix length without sign or leading zero.\<close>

definition ParsePrefix :: "string \<Rightarrow> prefix option" where
  [netip_simps]:
  "ParsePrefix s =
     (case last_index_byte s CHR ''/'' of
        None \<Rightarrow> None
      | Some i \<Rightarrow>
          (case ParseAddr (take i s) of
             None \<Rightarrow> None
           | Some ip \<Rightarrow>
               (let bs = drop (Suc i) s
                in if Zone ip \<noteq> [] then None
                   else if 1 < length bs \<and> (\<not> is_digit (hd bs) \<or> hd bs = CHR ''0'') then None
                   else case atoi bs of
                     None \<Rightarrow> None
                   | Some n \<Rightarrow>
                       if n < 0 \<or> int (BitLen ip) < n then None
                       else Some (Pfx ip (nat n)))))"

text \<open>
  \<open>net.ParseCIDR\<close> cuts at the first slash and reads the length with \<open>dtoi\<close>, which accepts
  leading zeros and gives up at \<open>0xFFFFFF\<close>. The result here is the address as parsed and the
  length; \<open>cidr_network\<close> is the masked \<open>IPNet\<close>.
\<close>

definition ParseCIDR :: "string \<Rightarrow> prefix option" where
  [netip_simps]:
  "ParseCIDR s =
     (case index_byte s CHR ''/'' of
        None \<Rightarrow> None
      | Some i \<Rightarrow>
          (case ParseAddr (take i s) of
             None \<Rightarrow> None
           | Some ip \<Rightarrow>
               (let ms = drop (Suc i) s; n = nat_of_digits 0 ms
                in if Zone ip \<noteq> [] \<or> ms = [] \<or> \<not> list_all is_digit ms \<or> 0xFFFFFF \<le> n \<or>
                      BitLen ip < n
                   then None else Some (Pfx ip n))))"

definition cidr_network :: "prefix \<Rightarrow> prefix" where
  [netip_simps]: "cidr_network p = Masked p"

text \<open>\<open>net.ParseIP\<close>, and \<open>IP.To4\<close> on a parsed address: mapped addresses count as IPv4.\<close>

definition ParseIP :: "string \<Rightarrow> addr option" where
  [netip_simps]:
  "ParseIP s =
     (case ParseAddr s of
        None \<Rightarrow> None
      | Some ip \<Rightarrow> if Zone ip \<noteq> [] then None else Some ip)"

definition To4 :: "addr \<Rightarrow> u32 option" where
  [netip_simps]: "To4 a = (case Unmap a of V4 w \<Rightarrow> Some w | _ \<Rightarrow> None)"


section \<open>Writing addresses and prefixes\<close>

definition v4_string :: "u32 \<Rightarrow> string" where
  [netip_simps]: "v4_string a = join ''.'' (map (\<lambda>i. itoa (octet a i)) [0, 1, 2, 3])"

fun hex_string :: "nat \<Rightarrow> string" where
  "hex_string n =
     (if n < 16 then [''0123456789abcdef'' ! n]
      else hex_string (n div 16) @ [''0123456789abcdef'' ! (n mod 16)])"

declare hex_string.simps [simp del]

text \<open>The first longest run of at least two zero groups, as (start, length).\<close>

fun best_zero_run :: "nat \<Rightarrow> nat list \<Rightarrow> nat \<times> nat \<Rightarrow> nat \<times> nat" where
  "best_zero_run i [] best = best"
| "best_zero_run i (g # gs) best =
     (let l = length (takeWhile (\<lambda>x. x = 0) (g # gs))
      in best_zero_run (Suc i) gs (if 2 \<le> l \<and> snd best < l then (i, l) else best))"

definition v6_groups :: "u128 \<Rightarrow> nat list" where
  [netip_simps]: "v6_groups a = map (group16 a) [0, 1, 2, 3, 4, 5, 6, 7]"

definition v6_string :: "u128 \<Rightarrow> string" where
  [netip_simps]:
  "v6_string a =
     (let gs = v6_groups a; (z, l) = best_zero_run 0 gs (0, 0);
          part = (\<lambda>xs. join '':'' (map hex_string xs))
      in if l = 0 then part gs
         else part (take z gs) @ ''::'' @ part (drop (z + l) gs))"

fun addr_string :: "addr \<Rightarrow> string" where
  "addr_string NoAddr = ''invalid IP''"
| "addr_string (V4 a) = v4_string a"
| "addr_string (V6 a z) =
     (if mapped a then ''::ffff:'' @ v4_string (ucast a) else v6_string a) @
     (if z = [] then [] else ''%'' @ z)"

fun prefix_string :: "prefix \<Rightarrow> string" where
  "prefix_string (Pfx a n) = addr_string a @ ''/'' @ itoa n"

text \<open>
  \<open>IPNet.String\<close> of a parsed CIDR: a network whose masked address is IPv4-mapped prints as an
  IPv4 prefix, with the last 32 bits of the mask.
\<close>

definition ipnet_string :: "prefix \<Rightarrow> string" where
  [netip_simps]:
  "ipnet_string p =
     (case Masked p of Pfx a n \<Rightarrow>
        (case a of
           V6 w z \<Rightarrow> if mapped w then v4_string (ucast w) @ ''/'' @ itoa (n - 96)
                    else prefix_string (Pfx a n)
         | _ \<Rightarrow> prefix_string (Pfx a n)))"


section \<open>Facts about prefixes and their text\<close>

lemma replicate_numeral_eval [netip_simps]:
  "replicate (numeral k) x = x # replicate (pred_numeral k) x"
  by (simp add: numeral_eq_Suc)

lemma unat_u32_less: "unat (w :: u32) < 2 ^ 32"
  using unsigned_less [of w] by simp

lemma Bits_Masked [simp]: "Bits (Masked p) = Bits p"
  by (cases p) simp

lemma xor_drop_bit_eq_0: "drop_bit n (a XOR b) = 0 \<longleftrightarrow> drop_bit n a = drop_bit n (b :: 'a::len word)"
  by (auto simp: bit_eq_iff bit_simps)

lemma unat_drop_bit_div: "unat (drop_bit n (a :: 'a::len word)) = unat a div 2 ^ n"
  by (simp add: unat_drop_bit_eq flip: drop_bit_eq_div)

lemma drop_bit_eq_div_iff:
  "drop_bit n a = drop_bit n b \<longleftrightarrow> unat a div 2 ^ n = unat (b :: 'a::len word) div 2 ^ n"
  by (metis unat_drop_bit_div unsigned_word_eqI)

lemma Contains_V4_iff:
  "Contains (Pfx (V4 p) n) (V4 a) \<longleftrightarrow> unat a div 2 ^ (32 - n) = unat p div 2 ^ (32 - n)"
  by (simp add: xor_drop_bit_eq_0 drop_bit_eq_div_iff del: drop_bit_xor)

lemma drop_bit_keep_bits:
  "drop_bit (LENGTH('a) - n) (keep_bits n a) = drop_bit (LENGTH('a) - n) (a :: 'a::len word)"
  by (rule bit_word_eqI) (auto simp: keep_bits_def bit_simps dest: bit_imp_le_length)

lemma keep_bits_eq_iff:
  "keep_bits n a = keep_bits n b \<longleftrightarrow>
     drop_bit (LENGTH('a) - n) a = drop_bit (LENGTH('a) - n) (b :: 'a::len word)"
proof
  assume "keep_bits n a = keep_bits n b"
  then show "drop_bit (LENGTH('a) - n) a = drop_bit (LENGTH('a) - n) b"
    by (metis drop_bit_keep_bits)
next
  assume eq: "drop_bit (LENGTH('a) - n) a = drop_bit (LENGTH('a) - n) b"
  have same: "bit a i = bit b i" if "LENGTH('a) - n \<le> i" for i
  proof -
    have "bit (drop_bit (LENGTH('a) - n) a) (i - (LENGTH('a) - n)) =
          bit (drop_bit (LENGTH('a) - n) b) (i - (LENGTH('a) - n))"
      using eq by simp
    with that show ?thesis
      by (simp add: bit_drop_bit_eq)
  qed
  show "keep_bits n a = keep_bits n b"
    by (rule bit_word_eqI) (auto simp: keep_bits_def bit_simps not_less dest: same)
qed

lemma unat_keep_bits:
  fixes a :: "'a::len word"
  shows "unat (keep_bits n a) = unat a div 2 ^ (LENGTH('a) - n) * 2 ^ (LENGTH('a) - n)"
proof -
  let ?k = "LENGTH('a) - n"
  have "unat a div 2 ^ ?k * 2 ^ ?k < 2 ^ LENGTH('a)"
    using unsigned_less [of a] div_times_less_eq_dividend [of "unat a" "2 ^ ?k"]
    by (rule le_less_trans [rotated])
  moreover have "keep_bits n a = push_bit ?k (drop_bit ?k a)"
    by (rule bit_word_eqI) (auto simp: keep_bits_def bit_simps)
  then have "unat (keep_bits n a) = take_bit LENGTH('a) (push_bit ?k (drop_bit ?k (unat a)))"
    by (simp only: unsigned_push_bit_eq unat_drop_bit_eq)
  ultimately show ?thesis
    by (simp add: push_bit_eq_mult drop_bit_eq_div take_bit_eq_mod)
qed

lemma Overlaps_V4_iff:
  "Overlaps (Pfx (V4 p) n) (Pfx (V4 q) m) \<longleftrightarrow>
     unat p div 2 ^ (32 - min n m) = unat q div 2 ^ (32 - min n m)"
  by (simp add: keep_bits_eq_iff drop_bit_eq_div_iff)

lemma parse_octet_itoa: "n < 256 \<Longrightarrow> parse_octet (itoa n) = Some n"
  using itoa_correct [of n] itoa_no_leading_zero [of n] itoa_length_1 [of n]
  by (cases "n = 0") (auto simp: parse_octet_def)

lemma v4_string_unfold:
  "v4_string a = itoa (octet a 0) @ CHR ''.'' # itoa (octet a 1) @ CHR ''.'' #
     itoa (octet a 2) @ CHR ''.'' # itoa (octet a 3)"
  by (simp add: v4_string_def)

lemma base256_digits:
  fixes x :: nat
  assumes "x < 2 ^ 32"
  shows "((x div 2 ^ 24 mod 256 * 256 + x div 2 ^ 16 mod 256) * 256 + x div 2 ^ 8 mod 256) * 256 +
    x mod 256 = x"
proof -
  have step: "x div 2 ^ (8 + k) * 256 + x div 2 ^ k mod 256 = x div 2 ^ k" for k
    using div_mod_decomp [of "x div 2 ^ k" 256]
    by (simp add: power_add div_mult2_eq mult.commute)
  have "x div 2 ^ 24 mod 256 = x div 2 ^ 24"
    using assms by (simp add: div_less_iff_less_mult)
  then show ?thesis
    using step [of 16] step [of 8] step [of 0] by simp
qed

lemma v4_of_octets: "v4_of (octet a 0) (octet a 1) (octet a 2) (octet a 3) = a"
proof -
  have "unat a < 2 ^ 32"
    using unsigned_less [of a] by simp
  moreover have "octet a 0 = unat a div 2 ^ 24 mod 256" "octet a 1 = unat a div 2 ^ 16 mod 256"
    "octet a 2 = unat a div 2 ^ 8 mod 256" "octet a 3 = unat a mod 256"
    by (simp_all add: octet_def)
  ultimately show ?thesis
    by (simp only: v4_of_def base256_digits) simp
qed

lemma octet_less: "octet a i < 256"
  by (simp add: octet_def)

lemma parse_v4_string: "parse_v4 (v4_string a) = Some a"
proof -
  have dot: "\<not> is_digit CHR ''.''" by (simp add: is_digit_def)
  show ?thesis
    by (simp add: parse_v4_def v4_string_unfold split_byte_append split_byte_no_sep
        itoa_no_punct [OF dot] parse_octet_itoa octet_less v4_of_octets [simplified])
qed

lemma ParseAddr_v4_string: "ParseAddr (v4_string a) = Some (V4 a)"
proof -
  have "list_all (\<lambda>x. x \<notin> {CHR ''.'', CHR '':'', CHR ''%''}) (itoa n)" for n
    using itoa_correct [of n] by (auto simp: list_all_iff is_digit_def)
  then have "find (\<lambda>c. c \<in> {CHR ''.'', CHR '':'', CHR ''%''}) (v4_string a) = Some CHR ''.''"
    unfolding v4_string_unfold by (subst find_append_skip) simp_all
  then show ?thesis
    by (simp add: ParseAddr_def parse_v4_string)
qed

lemma ParsePrefix_string: "n \<le> 32 \<Longrightarrow> ParsePrefix (prefix_string (Pfx (V4 a) n)) = Some (Pfx (V4 a) n)"
proof -
  assume n: "n \<le> 32"
  have slash: "CHR ''/'' \<notin> set (itoa n)"
    by (rule itoa_no_punct) (simp add: is_digit_def)
  have zero: "\<not> (Suc 0 < length (itoa n) \<and> hd (itoa n) = CHR ''0'')"
    using itoa_no_leading_zero [of n] itoa_length_1 [of n] by (cases "n = 0") auto
  show ?thesis
    using n zero
    by (simp add: ParsePrefix_def last_index_byte_append [OF slash] ParseAddr_v4_string
        itoa_hd atoi_itoa maxInt64_def Let_def)
qed

lemma v4_string_inject: "v4_string a = v4_string b \<longleftrightarrow> a = b"
  by (metis parse_v4_string option.inject)

lemma drop_bit_keep_bits_32 [simp]:
  "drop_bit (32 - n) (keep_bits n (a :: u32)) = drop_bit (32 - n) a"
  using drop_bit_keep_bits [of n a] by simp

lemma drop_bit_keep_bits_128 [simp]:
  "drop_bit (128 - n) (keep_bits n (a :: u128)) = drop_bit (128 - n) a"
  using drop_bit_keep_bits [of n a] by simp

lemma Contains_Masked: "Contains (Masked p) a = Contains p a"
proof (cases p)
  case (Pfx b n)
  then show ?thesis
    by (cases b; cases a) simp_all
qed

lemma keep_bits_idem: "keep_bits n (keep_bits n w) = keep_bits n w"
  by (simp add: keep_bits_def and.assoc)

lemma Masked_idem: "Masked (Masked p) = Masked p"
proof (cases p)
  case (Pfx b n)
  then show ?thesis
    by (cases b) (simp_all add: keep_bits_idem)
qed

lemma Overlaps_commute: "Overlaps p q = Overlaps q p"
proof (cases p; cases q)
  fix a n b m
  assume "p = Pfx a n" "q = Pfx b m"
  then show ?thesis
    by (cases a; cases b) (auto simp: min.commute)
qed

lemma drop_bit_coarser:
  "drop_bit k a = drop_bit k b \<Longrightarrow> k \<le> l \<Longrightarrow> drop_bit l a = drop_bit l (b :: 'a::len word)"
  by (metis drop_bit_drop_bit le_add_diff_inverse2)

lemma drop_bit_common:
  fixes x y :: "'a::len word"
  shows "drop_bit (L - min n m) x = drop_bit (L - min n m) y \<longleftrightarrow>
    (\<exists>w. drop_bit (L - n) w = drop_bit (L - n) x \<and> drop_bit (L - m) w = drop_bit (L - m) y)"
proof
  assume "drop_bit (L - min n m) x = drop_bit (L - min n m) y"
  then show "\<exists>w. drop_bit (L - n) w = drop_bit (L - n) x \<and> drop_bit (L - m) w = drop_bit (L - m) y"
    by (cases "n \<le> m") (auto simp: min_def)
next
  assume "\<exists>w. drop_bit (L - n) w = drop_bit (L - n) x \<and> drop_bit (L - m) w = drop_bit (L - m) y"
  then obtain w where "drop_bit (L - n) w = drop_bit (L - n) x"
    "drop_bit (L - m) w = drop_bit (L - m) y" by blast
  moreover have "L - n \<le> L - min n m" "L - m \<le> L - min n m" by auto
  ultimately show "drop_bit (L - min n m) x = drop_bit (L - min n m) y"
    by (metis drop_bit_coarser)
qed

lemma Overlaps_V4_common:
  "Overlaps (Pfx (V4 x) n) (Pfx (V4 y) m) \<longleftrightarrow>
     (\<exists>a. Contains (Pfx (V4 x) n) a \<and> Contains (Pfx (V4 y) m) a)"
proof -
  have "Contains (Pfx (V4 x) n) a \<and> Contains (Pfx (V4 y) m) a \<longleftrightarrow>
      (\<exists>w. a = V4 w \<and> drop_bit (32 - n) w = drop_bit (32 - n) x \<and>
           drop_bit (32 - m) w = drop_bit (32 - m) y)" for a
    by (cases a) (simp_all only: Contains.simps xor_drop_bit_eq_0 addr.inject addr.distinct simp_thms)
  then show ?thesis
    by (simp add: keep_bits_eq_iff drop_bit_common)
qed

lemma Overlaps_V6_common:
  "Overlaps (Pfx (V6 x z) n) (Pfx (V6 y z') m) \<longleftrightarrow>
     (\<exists>a. Contains (Pfx (V6 x z) n) a \<and> Contains (Pfx (V6 y z') m) a)"
proof -
  have "Contains (Pfx (V6 x z) n) a \<and> Contains (Pfx (V6 y z') m) a \<longleftrightarrow>
      (\<exists>w. a = V6 w [] \<and> drop_bit (128 - n) w = drop_bit (128 - n) x \<and>
           drop_bit (128 - m) w = drop_bit (128 - m) y)" for a
    by (cases a) (auto simp only: Contains.simps xor_drop_bit_eq_0 addr.inject addr.distinct simp_thms)
  then show ?thesis
    by (simp add: keep_bits_eq_iff drop_bit_common)
qed

lemma Overlaps_iff_common: "Overlaps p q \<longleftrightarrow> (\<exists>a. Contains p a \<and> Contains q a)"
proof (cases p; cases q)
  fix x n y m
  assume "p = Pfx x n" "q = Pfx y m"
  then show ?thesis
    by (cases x; cases y)
      (simp_all only: Overlaps_V4_common Overlaps_V6_common, auto elim: Contains.elims)
qed

lemma ParsePrefix_bits: "ParsePrefix raw = Some p \<Longrightarrow> Bits p \<le> BitLen (pfx_addr p)"
  by (auto simp: ParsePrefix_def Let_def split: option.splits if_splits)

lemmas netip_eval =
  netip_simps go_string_simps parse_v6_groups.simps itoa.simps hex_string.simps atoi_def
  maxInt64_def minInt64_def trim_left_of.simps trim_space_def

end
