(* ===== verification/Dyadic_Blocks.thy ===== *)
theory Dyadic_Blocks
  imports Prelude
begin

text \<open>
  Aligned blocks of natural numbers, the sets an IP prefix denotes, and why the greedy cover of an
  interval by them is the smallest one. Two aligned blocks are nested or disjoint; a block inside a
  set is maximal when its parent is not inside; a family of disjoint maximal blocks is no larger
  than any other cover; and cutting the largest block that fits off the left end of an interval
  only ever produces maximal blocks.
\<close>

section \<open>Aligned blocks\<close>

definition block :: "nat \<Rightarrow> nat \<Rightarrow> nat set" where
  "block a s = {a ..< a + 2 ^ s}"

definition aligned :: "nat \<Rightarrow> nat \<Rightarrow> bool" where
  "aligned a s \<longleftrightarrow> 2 ^ s dvd a"

lemma aligned_block_iff: "aligned a s \<Longrightarrow> x \<in> block a s \<longleftrightarrow> x div 2 ^ s = a div 2 ^ s"
proof -
  assume "aligned a s"
  then obtain q where a: "a = 2 ^ s * q"
    by (auto simp: aligned_def)
  have "x \<in> block a s \<longleftrightarrow> q * 2 ^ s \<le> x \<and> x < Suc q * 2 ^ s"
    by (auto simp: block_def a algebra_simps)
  also have "\<dots> \<longleftrightarrow> x div 2 ^ s = q"
    using div_nat_eqI [of "2 ^ s" q x] div_times_less_eq_dividend [of x "2 ^ s"]
      dividend_less_div_times [of "2 ^ s" x] by (auto simp: mult.commute)
  finally show ?thesis
    by (simp add: a)
qed

lemma block_self: "a \<in> block a s"
  by (simp add: block_def)

lemma blocks_nest:
  assumes "aligned a s" "aligned b k" "s \<le> k" "x \<in> block a s" "x \<in> block b k"
  shows "block a s \<subseteq> block b k"
proof
  fix y
  assume "y \<in> block a s"
  then have "y div 2 ^ s = x div 2 ^ s"
    using assms aligned_block_iff by metis
  then have "y div 2 ^ k = x div 2 ^ k"
    using \<open>s \<le> k\<close> by (metis div_exp_eq le_add_diff_inverse)
  then show "y \<in> block b k"
    using assms aligned_block_iff by metis
qed

definition parent :: "nat \<Rightarrow> nat \<Rightarrow> nat" where
  "parent a s = a div 2 ^ Suc s * 2 ^ Suc s"

lemma parent_aligned: "aligned (parent a s) (Suc s)"
  by (simp add: aligned_def parent_def)

lemma parent_contains: "a \<in> block (parent a s) (Suc s)"
  unfolding aligned_block_iff [OF parent_aligned] by (simp add: parent_def del: power_Suc)

text \<open>An aligned block inside \<open>U\<close> whose parent is not inside \<open>U\<close>.\<close>

definition maximal_block :: "nat set \<Rightarrow> nat \<Rightarrow> nat \<Rightarrow> bool" where
  "maximal_block U a s \<longleftrightarrow> aligned a s \<and> block a s \<subseteq> U \<and> \<not> block (parent a s) (Suc s) \<subseteq> U"

lemma maximal_block_absorbs:
  assumes "maximal_block U a s" "aligned b k" "block b k \<subseteq> U" "a \<in> block b k"
  shows "block b k \<subseteq> block a s"
proof -
  have "k \<le> s"
  proof (rule ccontr)
    assume "\<not> k \<le> s"
    then have "block (parent a s) (Suc s) \<subseteq> block b k"
      using blocks_nest [OF parent_aligned assms(2), of s a a] parent_contains assms(4) by simp
    with assms(1,3) show False
      by (auto simp: maximal_block_def)
  qed
  then show ?thesis
    using blocks_nest [OF assms(2), of a s a] assms(1,4) block_self
    by (auto simp: maximal_block_def)
qed

text \<open>
  A family of disjoint maximal blocks is as small as any cover by aligned blocks can be.
\<close>

lemma maximal_blocks_minimal:
  assumes out: "\<And>a s. (a, s) \<in> set out \<Longrightarrow> maximal_block U a s"
    and disj: "sorted_wrt (\<lambda>(a, s) (b, t). a + 2 ^ s \<le> b) out"
    and other: "\<And>b k. (b, k) \<in> set other \<Longrightarrow> aligned b k"
    and cover: "(\<Union>(b, k) \<in> set other. block b k) = U"
  shows "length out \<le> length other"
proof -
  have dist: "distinct out"
    using disj by (induction out) fastforce+
  have sep: "block a s \<inter> block b t = {}" if "(a, s) \<in> set out" "(b, t) \<in> set out" "(a, s) \<noteq> (b, t)" for a s b t
    using disj that by (induction out) (auto simp: block_def)
  have "\<And>q. q \<in> set out \<Longrightarrow> \<exists>p. p \<in> set other \<and> fst q \<in> block (fst p) (snd p)"
  proof -
    fix q
    assume that: "q \<in> set out"
    from that out [of "fst q" "snd q"] have "fst q \<in> U"
      using block_self by (auto simp: maximal_block_def)
    with cover show "\<exists>p. p \<in> set other \<and> fst q \<in> block (fst p) (snd p)"
      by auto
  qed
  then have "\<forall>q \<in> set out. \<exists>p. p \<in> set other \<and> fst q \<in> block (fst p) (snd p)" ..
  from bchoice [OF this] obtain f
    where f: "\<And>q. q \<in> set out \<Longrightarrow> f q \<in> set other \<and> fst q \<in> block (fst (f q)) (snd (f q))"
    by blast
  have inside: "block (fst (f q)) (snd (f q)) \<subseteq> block (fst q) (snd q)" if "q \<in> set out" for q
  proof (rule maximal_block_absorbs)
    show "maximal_block U (fst q) (snd q)"
      using out that by simp
    show "aligned (fst (f q)) (snd (f q))"
      using other f [OF that] by simp
    show "block (fst (f q)) (snd (f q)) \<subseteq> U"
      unfolding cover [symmetric] using f [OF that] by (auto intro!: bexI [of _ "f q"])
    show "fst q \<in> block (fst (f q)) (snd (f q))"
      using f [OF that] by simp
  qed
  have "inj_on f (set out)"
  proof
    fix q r
    assume "q \<in> set out" "r \<in> set out" "f q = f r"
    then have "fst (f q) \<in> block (fst q) (snd q) \<inter> block (fst r) (snd r)"
      using inside block_self by (metis IntI subsetD)
    then show "q = r"
      using sep [of "fst q" "snd q" "fst r" "snd r"] \<open>q \<in> set out\<close> \<open>r \<in> set out\<close> by auto
  qed
  then have "card (set out) \<le> card (set other)"
    using f by (intro card_inj_on_le [of f]) auto
  with dist show ?thesis
    using card_length [of other] by (simp add: distinct_card)
qed

section \<open>The greedy cover\<close>

text \<open>\<open>greedy low high s\<close>: the largest aligned block at \<open>low\<close> that does not pass \<open>high\<close>.\<close>

definition fits :: "nat \<Rightarrow> nat \<Rightarrow> nat \<Rightarrow> bool" where
  "fits low high s \<longleftrightarrow> aligned low s \<and> low + 2 ^ s \<le> high + 1"

definition greedy :: "nat \<Rightarrow> nat \<Rightarrow> nat \<Rightarrow> bool" where
  "greedy low high s \<longleftrightarrow> fits low high s \<and> \<not> fits low high (Suc s)"

text \<open>\<open>fresh\<close>: no block that ends after \<open>low\<close> and whose left half ends at \<open>low\<close> lies inside.\<close>

definition fresh :: "nat \<Rightarrow> nat \<Rightarrow> nat \<Rightarrow> bool" where
  "fresh L low high \<longleftrightarrow>
     L \<le> low \<and> (\<forall>s. fits low high s \<and> \<not> aligned low (Suc s) \<longrightarrow> low < L + 2 ^ s)"

lemma fits_antimono: "fits low high t \<Longrightarrow> s \<le> t \<Longrightarrow> fits low high s"
  unfolding fits_def aligned_def
  by (meson add_left_mono le_imp_power_dvd dvd_trans le_trans one_le_numeral power_increasing)

lemma aligned_Suc_cases: "aligned a s \<Longrightarrow> aligned (a + 2 ^ s) (Suc s) \<longleftrightarrow> \<not> aligned a (Suc s)"
proof -
  assume "aligned a s"
  then obtain q where "a = 2 ^ s * q"
    by (auto simp: aligned_def)
  moreover have "a + 2 ^ s = 2 ^ s * Suc q"
    using calculation by simp
  ultimately show ?thesis
    by (simp add: aligned_def mult.commute [of _ 2] del: mult_Suc_right)
qed

lemma parent_offset:
  assumes "aligned a s" "\<not> aligned a (Suc s)"
  shows "a = parent a s + 2 ^ s"
proof -
  obtain q where a: "a = 2 ^ s * q"
    using assms(1) by (auto simp: aligned_def)
  with assms(2) have "odd q"
    by (auto simp: aligned_def mult.commute [of _ 2])
  then obtain r where r: "q = 2 * r + 1"
    by (elim oddE)
  have "a div 2 ^ Suc s = q div 2"
    by (simp add: a div_mult2_eq mult.commute [of 2])
  then show ?thesis
    by (simp add: parent_def a r algebra_simps)
qed

lemma greedy_maximal:
  assumes "fresh L low high" "greedy low high s"
  shows "maximal_block {L .. high} low s"
proof -
  have s: "aligned low s" "low + 2 ^ s \<le> high + 1" "L \<le> low"
    using assms by (auto simp: greedy_def fits_def fresh_def)
  have "\<not> block (parent low s) (Suc s) \<subseteq> {L .. high}"
  proof (cases "aligned low (Suc s)")
    case True
    then have "parent low s = low"
      by (simp add: parent_def aligned_def)
    moreover have "high + 1 < low + 2 ^ Suc s"
      using True assms(2) by (auto simp: greedy_def fits_def)
    ultimately have "high + 1 \<in> block (parent low s) (Suc s)"
      using s by (auto simp: block_def)
    then show ?thesis
      by auto
  next
    case False
    then have "low < L + 2 ^ s"
      using assms by (auto simp: greedy_def fresh_def)
    moreover have "low = parent low s + 2 ^ s"
      by (rule parent_offset [OF s(1) False])
    ultimately show ?thesis
      by (auto simp: block_def subset_iff intro!: exI [of _ "parent low s"])
  qed
  with s show ?thesis
    by (auto simp: maximal_block_def block_def)
qed

lemma fresh_start: "fresh low low high"
  by (auto simp: fresh_def)

lemma fresh_next:
  assumes "fresh L low high" "greedy low high s"
  shows "fresh L (low + 2 ^ s) high"
  unfolding fresh_def
proof (intro conjI allI impI)
  show "L \<le> low + 2 ^ s"
    using assms by (auto simp: fresh_def)
  fix t
  assume t: "fits (low + 2 ^ s) high t \<and> \<not> aligned (low + 2 ^ s) (Suc t)"
  have low: "aligned low s" "low + 2 ^ s \<le> high + 1"
    using assms(2) by (auto simp: greedy_def fits_def)
  show "low + 2 ^ s < L + 2 ^ t"
  proof (cases "aligned low (Suc s)")
    case True
    then have "\<not> aligned (low + 2 ^ s) (Suc s)"
      using aligned_Suc_cases [OF low(1)] by simp
    then have "t \<le> s"
      using t by (metis fits_antimono fits_def not_less_eq_eq)
    moreover have "s \<le> t"
      using t \<open>aligned low s\<close> by (metis aligned_def dvd_add dvd_refl le_imp_power_dvd dvd_trans not_less_eq_eq)
    ultimately have "fits low high (Suc s)"
      using True t by (auto simp: fits_def)
    with assms(2) show ?thesis
      by (simp add: greedy_def)
  next
    case False
    then have "low < L + 2 ^ s"
      using assms by (auto simp: fresh_def greedy_def)
    moreover have "Suc s \<le> t"
      using aligned_Suc_cases [OF low(1)] False t by (metis aligned_def le_imp_power_dvd dvd_trans not_less_eq_eq)
    then have "(2 :: nat) ^ Suc s \<le> 2 ^ t"
      by (intro power_increasing) simp_all
    ultimately show ?thesis
      by simp
  qed
qed

end
