(* ===== verification/Route_Source.thy ===== *)
theory Route_Source
  imports Netip Dyadic_Blocks
begin

unbundle bit_operations_syntax

text \<open>
  The set and aggregation functions of \<open>src/internal/routesource/routesource.go\<close>. The loops are
  as in the source: the merge writes into the array it reads, and the cover of an interval is
  computed on 32-bit words with 64-bit intermediate values. The lemmas show that the in-place merge
  equals its reference definition, that the loop computes the greedy cover, and, through
  \<open>Dyadic_Blocks\<close>, that the aggregate is exact and minimal.
\<close>

section \<open>Merging lists\<close>

definition MergeDedup :: "(string list \<Rightarrow> string list) \<Rightarrow> string list list \<Rightarrow> string list" where
  "MergeDedup rng groups = sort (rng (remdups (concat groups)))"


section \<open>Intervals\<close>

text \<open>\<open>ipUint32\<close> of an address that \<open>To4\<close> accepts, and \<open>uint32IP\<close>.\<close>

definition ipUint32 :: "addr \<Rightarrow> u32 option" where
  "ipUint32 ip = To4 ip"

definition uint32IP :: "u32 \<Rightarrow> string" where
  "uint32IP v = v4_string v"

definition cidrRange :: "string \<Rightarrow> (u32 \<times> u32) option" where
  "cidrRange raw =
     (case ParseCIDR (trim_space raw) of
        None \<Rightarrow> None
      | Some p \<Rightarrow>
          (let network = cidr_network p
           in case ipUint32 (pfx_addr network) of
                None \<Rightarrow> None
              | Some low \<Rightarrow>
                  (let ones = Bits network
                   in if ones = 0 then Some (low, NOT 0)
                      else Some (low, low OR drop_bit ones (NOT 0)))))"

record interval =
  iv_low :: u32
  iv_high :: u32

text \<open>
  The merge works in place: \<open>merged\<close> is a prefix of the array \<open>intervals\<close>, so that growing it
  overwrites elements of the array the loop reads. The state is the array, the length \<open>m\<close> of
  \<open>merged\<close> and the index \<open>i\<close> of the next candidate.
\<close>

function merge_loop :: "interval list \<Rightarrow> nat \<Rightarrow> nat \<Rightarrow> interval list" where
  "merge_loop arr m i =
     (if i < length arr then
        (let candidate = arr ! i; last_iv = arr ! (m - 1)
         in if iv_low candidate \<le> iv_high last_iv \<or>
               (iv_high last_iv \<noteq> NOT 0 \<and> iv_low candidate = iv_high last_iv + 1)
            then
              (if iv_high last_iv < iv_high candidate
               then merge_loop (arr[m - 1 := last_iv\<lparr>iv_high := iv_high candidate\<rparr>]) m (i + 1)
               else merge_loop arr m (i + 1))
            else merge_loop (arr[m := candidate]) (m + 1) (i + 1))
      else take m arr)"
  by pat_completeness auto
termination
  by (relation "measure (\<lambda>(arr, m, i). length arr - i)") auto

declare merge_loop.simps [simp del]

text \<open>\<open>bits.TrailingZeros32\<close>.\<close>

definition TrailingZeros32 :: "u32 \<Rightarrow> nat" where
  "TrailingZeros32 w = length (takeWhile (\<lambda>i. \<not> bit w i) [0..<32])"

type_synonym u64 = "64 word"

fun shrink :: "nat \<Rightarrow> u32 \<Rightarrow> u32 \<Rightarrow> nat" where
  "shrink 0 low high = 0"
| "shrink (Suc s) low high =
     (if (ucast high - ucast low + 1 :: u64) < push_bit (Suc s) 1 then shrink s low high
      else Suc s)"

definition block_size :: "u32 \<Rightarrow> u32 \<Rightarrow> nat" where
  "block_size low high = shrink (if low = 0 then 32 else TrailingZeros32 low) low high"

lemma shrink_le: "shrink s low high \<le> s"
  by (induction s) auto

lemma TrailingZeros32_le: "TrailingZeros32 w \<le> 32"
  unfolding TrailingZeros32_def by (metis length_takeWhile_le length_upt minus_nat.diff_0)

lemma block_size_le: "block_size low high \<le> 32"
  unfolding block_size_def by (rule le_trans [OF shrink_le]) (simp add: TrailingZeros32_le)

text \<open>The loop ends because \<open>next\<close>, computed in 64 bits, is beyond \<open>low\<close>.\<close>

lemma next_unat: "s \<le> 32 \<Longrightarrow> unat (ucast low + push_bit s 1 :: u64) = unat (low :: u32) + 2 ^ s"
proof -
  assume "s \<le> 32"
  then have "(2 :: nat) ^ s \<le> 2 ^ 32"
    by (intro power_increasing) simp_all
  moreover have "unat low < 2 ^ 32"
    by (rule unat_u32_less)
  moreover have "unat (push_bit s 1 :: u64) = 2 ^ s"
    using \<open>(2 :: nat) ^ s \<le> 2 ^ 32\<close> unsigned_push_bit_eq [of s "1 :: u64", where 'a = nat]
    by (simp add: take_bit_eq_mod)
  ultimately show ?thesis
    by (simp add: unat_word_ariths unsigned_ucast_eq take_bit_eq_mod del: push_bit_of_1)
qed

lemma next_low:
  fixes low high :: u32
  assumes "s \<le> 32" and "\<not> ucast high < (ucast low + push_bit s 1 :: u64)"
  shows "unat low + 2 ^ s \<le> unat high \<and>
    unat (ucast (ucast low + push_bit s 1 :: u64) :: u32) = unat low + 2 ^ s"
proof -
  have "unat high < 2 ^ 32"
    by (rule unat_u32_less)
  moreover have "unat (ucast high :: u64) = unat high"
    using \<open>unat high < 2 ^ 32\<close> by (simp add: unsigned_ucast_eq take_bit_eq_mod)
  with assms(2) next_unat [OF assms(1), of low] have "unat low + 2 ^ s \<le> unat high"
    by (simp only: word_less_nat_alt not_less)
  ultimately show ?thesis
    by (simp only: unsigned_ucast_eq next_unat [OF assms(1)] take_bit_eq_mod) simp
qed

function rangeCIDRs :: "u32 \<Rightarrow> u32 \<Rightarrow> string list" where
  "rangeCIDRs low high =
     (let size1 = block_size low high;
          entry = uint32IP low @ ''/'' @ itoa (32 - size1);
          next1 = ucast low + push_bit size1 1 :: u64
      in if ucast high < next1 then [entry] else entry # rangeCIDRs (ucast next1) high)"
  by pat_completeness auto
termination
proof (relation "measure (\<lambda>(low, high). 2 ^ 32 - unat low)")
  fix low high size1 entry and next1 :: u64
  assume "size1 = block_size low high" "next1 = ucast low + push_bit size1 1"
    "\<not> ucast high < next1"
  with next_low [of size1 high low] block_size_le [of low high] unat_u32_less [of low]
  have "unat low < unat (ucast next1 :: u32)" "unat low < 2 ^ 32"
    by simp_all
  then show "((ucast next1, high), low, high) \<in> measure (\<lambda>(low, high). 2 ^ 32 - unat low)"
    by (simp add: diff_less_mono2)
qed simp

declare rangeCIDRs.simps [simp del]

text \<open>
  \<open>sort.Slice\<close> is not stable, so the order of intervals with the same low end is open: \<open>by_low\<close>
  stands for the order it produces.
\<close>

definition AggregateIPv4 ::
  "(interval list \<Rightarrow> interval list) \<Rightarrow> string list \<Rightarrow> string list"
where
  "AggregateIPv4 by_low cidrs =
     (let intervals = map (\<lambda>(low, high). \<lparr>iv_low = low, iv_high = high\<rparr>) (List.map_filter cidrRange cidrs)
      in if intervals = [] then []
         else sort (concat (map (\<lambda>item. rangeCIDRs (iv_low item) (iv_high item))
                (merge_loop (by_low intervals) 1 1))))"


section \<open>The loop computes the greedy cover\<close>

lemma aligned_unat_iff: "aligned (unat w) n \<longleftrightarrow> (\<forall>i < n. \<not> bit (w :: u32) i)"
proof -
  have "aligned (unat w) n \<longleftrightarrow> unat (take_bit n w) = 0"
    by (simp only: aligned_def unsigned_take_bit_eq dvd_eq_mod_eq_0 flip: take_bit_eq_mod)
  also have "\<dots> \<longleftrightarrow> take_bit n w = 0"
    by (simp add: unsigned_eq_0_iff)
  also have "\<dots> \<longleftrightarrow> (\<forall>i < n. \<not> bit w i)"
    using bit_imp_le_length [of w] by (auto simp: bit_eq_iff bit_simps)
  finally show ?thesis .
qed

lemma TrailingZeros32_aligned:
  "aligned (unat w) (TrailingZeros32 w) \<and> (w \<noteq> 0 \<longrightarrow> \<not> aligned (unat w) (Suc (TrailingZeros32 w)))"
proof -
  let ?n = "TrailingZeros32 w"
  have below: "\<not> bit w i" if "i < ?n" for i
  proof -
    have "i < 32"
      using that TrailingZeros32_le [of w] by simp
    moreover have "takeWhile (\<lambda>i. \<not> bit w i) [0..<32] ! i \<in> set (takeWhile (\<lambda>i. \<not> bit w i) [0..<32])"
      using that by (intro nth_mem) (simp add: TrailingZeros32_def)
    ultimately show ?thesis
      using that takeWhile_nth [of i "\<lambda>i. \<not> bit w i" "[0..<32]"]
      by (auto simp: TrailingZeros32_def dest: set_takeWhileD)
  qed
  moreover have "bit w ?n" if "w \<noteq> 0"
  proof -
    have "?n < 32"
    proof (rule ccontr)
      assume "\<not> ?n < 32"
      with below have "\<not> bit w i" if "i < 32" for i
        using that by simp
      then have "w = 0"
        by (intro bit_word_eqI) simp
      with \<open>w \<noteq> 0\<close> show False ..
    qed
    then show ?thesis
      using nth_length_takeWhile [of "\<lambda>i. \<not> bit w i" "[0..<32]"]
      by (simp add: TrailingZeros32_def)
  qed
  ultimately show ?thesis
    by (auto simp: aligned_unat_iff)
qed

lemma span_unat:
  fixes low high :: u32
  assumes "low \<le> high"
  shows "unat (ucast high - ucast low + 1 :: u64) = unat high - unat low + 1"
proof -
  have h: "unat high < 2 ^ 32" "unat low \<le> unat high"
    using unat_u32_less assms by (auto simp: word_le_nat_alt)
  then have "unat (ucast high :: u64) = unat high" "unat (ucast low :: u64) = unat low"
    by (simp_all add: unsigned_ucast_eq take_bit_eq_mod)
  with h show ?thesis
    by (simp add: unat_word_ariths unat_sub_if')
qed

lemma shrink_correct:
  assumes "low \<le> high" and "s \<le> 32"
  shows "unat low + 2 ^ shrink s low high \<le> unat high + 1 \<and>
    (shrink s low high < s \<longrightarrow> unat high + 1 < unat low + 2 ^ Suc (shrink s low high))"
  using assms(2)
proof (induction s)
  case 0
  then show ?case
    using assms(1) by (simp add: word_le_nat_alt)
next
  case (Suc s)
  have le: "unat low \<le> unat high"
    using assms(1) by (simp add: word_le_nat_alt)
  have "unat (push_bit (Suc s) 1 :: u64) = 2 ^ Suc s"
    using next_unat [of "Suc s" 0] Suc.prems by (simp del: push_bit_of_1 power_Suc)
  then have test: "(ucast high - ucast low + 1 :: u64) < push_bit (Suc s) 1 \<longleftrightarrow>
      unat high + 1 < unat low + 2 ^ Suc s"
    unfolding word_less_nat_alt span_unat [OF assms(1)] using le by linarith
  show ?case
  proof (cases "(ucast high - ucast low + 1 :: u64) < push_bit (Suc s) 1")
    case True
    have "shrink s low high \<le> s"
      by (rule shrink_le)
    with True Suc test show ?thesis
      by (cases "shrink s low high = s") (auto simp del: push_bit_of_1 power_Suc)
  next
    case False
    with test show ?thesis
      by (simp del: push_bit_of_1 power_Suc)
  qed
qed

lemma aligned_antimono: "aligned a t \<Longrightarrow> s \<le> t \<Longrightarrow> aligned a s"
  unfolding aligned_def by (meson dvd_trans le_imp_power_dvd)

lemma block_size_greedy:
  assumes "low \<le> high"
  shows "greedy (unat low) (unat high) (block_size low high)"
proof -
  define z where "z = (if low = 0 then 32 else TrailingZeros32 low)"
  have z: "z \<le> 32" "aligned (unat low) z"
    using TrailingZeros32_le [of low] TrailingZeros32_aligned [of low]
    by (auto simp: z_def aligned_def)
  have top: "\<not> fits (unat low) (unat high) (Suc z)"
  proof (cases "low = 0")
    case True
    then show ?thesis
      using unat_u32_less [of high] by (simp add: z_def fits_def)
  next
    case False
    then show ?thesis
      using TrailingZeros32_aligned [of low] by (simp add: z_def fits_def)
  qed
  have size: "block_size low high = shrink z low high"
    by (simp add: block_size_def z_def)
  have "fits (unat low) (unat high) (shrink z low high)"
    using shrink_correct [OF assms z(1)] aligned_antimono [OF z(2) shrink_le] by (simp add: fits_def)
  moreover have "\<not> fits (unat low) (unat high) (Suc (shrink z low high))"
    using shrink_correct [OF assms z(1)] shrink_le [of z low high] top
    by (cases "shrink z low high = z") (auto simp: fits_def simp del: power_Suc)
  ultimately show ?thesis
    by (simp add: greedy_def size)
qed

function range_blocks :: "u32 \<Rightarrow> u32 \<Rightarrow> (nat \<times> nat) list" where
  "range_blocks low high =
     (let size1 = block_size low high;
          next1 = ucast low + push_bit size1 1 :: u64
      in if ucast high < next1 then [(unat low, size1)]
         else (unat low, size1) # range_blocks (ucast next1) high)"
  by pat_completeness auto
termination
proof (relation "measure (\<lambda>(low, high). 2 ^ 32 - unat low)")
  fix low high size1 and next1 :: u64
  assume "size1 = block_size low high" "next1 = ucast low + push_bit size1 1"
    "\<not> ucast high < next1"
  with next_low [of size1 high low] block_size_le [of low high] unat_u32_less [of low]
  have "unat low < unat (ucast next1 :: u32)" "unat low < 2 ^ 32"
    by simp_all
  then show "((ucast next1, high), low, high) \<in> measure (\<lambda>(low, high). 2 ^ 32 - unat low)"
    by (simp add: diff_less_mono2)
qed simp

declare range_blocks.simps [simp del]

definition block_cidr :: "nat \<times> nat \<Rightarrow> string" where
  "block_cidr = (\<lambda>(a, s). uint32IP (word_of_nat a) @ ''/'' @ itoa (32 - s))"

lemma rangeCIDRs_blocks: "rangeCIDRs low high = map block_cidr (range_blocks low high)"
proof (induction low high rule: rangeCIDRs.induct)
  case (1 low high)
  then show ?case
    by (simp add: rangeCIDRs.simps [of low high] range_blocks.simps [of low high] block_cidr_def Let_def)
qed

lemma range_blocks_correct:
  assumes "low \<le> high" and "fresh L (unat low) (unat high)"
  shows "(\<Union>(a, s) \<in> set (range_blocks low high). block a s) = {unat low .. unat high} \<and>
    sorted_wrt (\<lambda>(a, s) (b, t). a + 2 ^ s \<le> b) (range_blocks low high) \<and>
    (\<forall>(a, s) \<in> set (range_blocks low high).
       s \<le> 32 \<and> unat low \<le> a \<and> maximal_block {L .. unat high} a s)"
  using assms
proof (induction low high rule: range_blocks.induct)
  case (1 low high)
  let ?s = "block_size low high"
  let ?next = "ucast low + push_bit ?s 1 :: u64"
  have g: "greedy (unat low) (unat high) ?s"
    using block_size_greedy 1(2) .
  have le: "unat low + 2 ^ ?s \<le> unat high + 1"
    using g by (simp add: greedy_def fits_def)
  have m: "maximal_block {L .. unat high} (unat low) ?s"
    using greedy_maximal [OF 1(3) g] .
  show ?case
  proof (cases "ucast high < ?next")
    case True
    then have "unat high < unat low + 2 ^ ?s"
      using next_unat [OF block_size_le, of low low high] unat_u32_less [of high]
      by (simp add: word_less_nat_alt unsigned_ucast_eq take_bit_eq_mod del: push_bit_of_1)
    with le m True block_size_le show ?thesis
      by (auto simp: range_blocks.simps [of low high] block_def)
  next
    case False
    let ?low = "ucast ?next :: u32"
    have n: "unat low + 2 ^ ?s \<le> unat high" "unat ?low = unat low + 2 ^ ?s"
      using next_low [OF block_size_le False] by auto
    then have "?low \<le> high"
      by (simp add: word_le_nat_alt)
    moreover have "fresh L (unat ?low) (unat high)"
      unfolding n(2) using fresh_next [OF 1(3) g] .
    ultimately have IH: "(\<Union>(a, s) \<in> set (range_blocks ?low high). block a s) = {unat ?low .. unat high}"
      "sorted_wrt (\<lambda>(a, s) (b, t). a + 2 ^ s \<le> b) (range_blocks ?low high)"
      "\<And>a s. (a, s) \<in> set (range_blocks ?low high) \<Longrightarrow>
         s \<le> 32 \<and> unat ?low \<le> a \<and> maximal_block {L .. unat high} a s"
      using 1(1) False by (simp, blast)+
    have eq: "range_blocks low high = (unat low, ?s) # range_blocks ?low high"
      using False by (simp add: range_blocks.simps [of low high] Let_def)
    have "{unat low .. unat high} = block (unat low) ?s \<union> {unat ?low .. unat high}"
      using n by (auto simp: block_def)
    then have "(\<Union>(a, s) \<in> set (range_blocks low high). block a s) = {unat low .. unat high}"
      unfolding eq using IH(1) by simp
    moreover have "sorted_wrt (\<lambda>(a, s) (b, t). a + 2 ^ s \<le> b) (range_blocks low high)"
      unfolding eq using IH(2,3) n(2) by (auto simp only: sorted_wrt.simps split: prod.splits)
    moreover have "unat low \<le> a" if "(a, s) \<in> set (range_blocks ?low high)" for a s
      using IH(3) [OF that] n(2) by simp
    then have "\<forall>(a, s) \<in> set (range_blocks low high).
        s \<le> 32 \<and> unat low \<le> a \<and> maximal_block {L .. unat high} a s"
      unfolding eq using IH(3) m block_size_le [of low high] by (auto simp del: push_bit_of_1)
    ultimately show ?thesis
      by blast
  qed
qed


section \<open>What a CIDR covers\<close>

lemma take_bit_keep_bits:
  "k \<le> LENGTH('a) - n \<Longrightarrow> take_bit k (keep_bits n (a :: 'a::len word)) = 0"
  by (auto simp: keep_bits_def bit_eq_iff bit_simps)

lemma unat_high_of_low:
  fixes lo :: u32
  assumes "take_bit k lo = 0" and "k \<le> 32"
  shows "unat (lo OR mask k) + 1 = unat lo + 2 ^ k \<and> aligned (unat lo) k"
proof -
  have "drop_bit k (lo OR mask k) = drop_bit k lo"
    by (auto simp: bit_eq_iff bit_simps)
  then have d: "unat (lo OR mask k) div 2 ^ k = unat lo div 2 ^ k"
    by (simp only: drop_bit_eq_div_iff)
  have "take_bit k (lo OR mask k) = mask k"
    using assms by (auto simp: bit_eq_iff bit_simps)
  then have "take_bit k (unat (lo OR mask k)) = unat (mask k :: u32)"
    by (metis unsigned_take_bit_eq)
  moreover have "unat (mask k :: u32) = 2 ^ k - 1"
  proof -
    have "unat (of_nat (mask k) :: u32) = take_bit 32 (mask k)"
      by (simp add: unsigned_of_nat)
    moreover have "(2 :: nat) ^ k \<le> 2 ^ 32"
      using assms(2) by (intro power_increasing) simp_all
    then have "take_bit 32 (mask k :: nat) = 2 ^ k - 1"
      by (simp add: take_bit_eq_mod mask_eq_exp_minus_1 less_le_trans)
    ultimately show ?thesis
      by (simp only: of_nat_mask_eq)
  qed
  ultimately have m: "unat (lo OR mask k) mod 2 ^ k = 2 ^ k - 1"
    by (simp add: take_bit_eq_mod)
  have "take_bit k (unat lo) = 0"
    by (metis assms(1) unsigned_0 unsigned_take_bit_eq)
  then have z: "unat lo mod 2 ^ k = 0"
    by (simp add: take_bit_eq_mod)
  have "unat (lo OR mask k) = unat lo div 2 ^ k * 2 ^ k + (2 ^ k - 1)"
    by (metis d m div_mod_decomp)
  with z show ?thesis
    by (simp add: aligned_def mod_0_imp_dvd)
qed

lemma drop_bit_ones: "drop_bit n (NOT 0 :: u32) = mask (32 - n)"
  by (auto simp: bit_eq_iff bit_simps)

lemma range_of_prefix:
  fixes lo :: u32
  assumes "(hi :: u32) = (if n = 0 then NOT 0 else lo OR drop_bit n (NOT 0))" and "take_bit (32 - n) lo = 0"
  shows "unat hi + 1 = unat lo + 2 ^ (32 - n) \<and> aligned (unat lo) (32 - n)"
proof -
  have "hi = lo OR mask (32 - n)"
  proof (cases "n = 0")
    case True
    then show ?thesis
      using assms(1) by (intro bit_word_eqI) (simp add: bit_simps)
  qed (use assms(1) in \<open>simp add: drop_bit_ones\<close>)
  then show ?thesis
    using unat_high_of_low [OF assms(2)] by simp
qed

lemma ParseCIDR_bits: "ParseCIDR s = Some p \<Longrightarrow> Bits p \<le> BitLen (pfx_addr p)"
  by (auto simp: ParseCIDR_def Let_def split: option.splits if_splits)

lemma cidrRange_block:
  assumes "cidrRange raw = Some (lo, hi)"
  shows "\<exists>k \<le> 32. unat hi + 1 = unat lo + 2 ^ k \<and> aligned (unat lo) k"
proof -
  obtain p where p: "ParseCIDR (trim_space raw) = Some p"
    and lo: "To4 (pfx_addr (Masked p)) = Some lo"
    and hi: "hi = (if Bits p = 0 then NOT 0 else lo OR drop_bit (Bits p) (NOT 0))"
    using assms
    by (cases "ParseCIDR (trim_space raw)")
       (auto simp: cidrRange_def cidr_network_def ipUint32_def Let_def
         split: option.splits if_splits)
  have "take_bit (32 - Bits p) lo = 0"
  proof (cases p)
    case (Pfx a n)
    show ?thesis
    proof (cases a)
      case (V4 w)
      with Pfx lo have "lo = keep_bits n w"
        by (simp add: To4_def)
      then show ?thesis
        using Pfx take_bit_keep_bits [of "32 - n" n w] by simp
    next
      case (V6 w z)
      with Pfx lo have "mapped (keep_bits n w)"
        by (auto simp: To4_def split: if_splits)
      then have "bit (keep_bits n w) 32"
        by (metis (mono_tags) mapped_def bit_drop_bit_eq add_0 add.commute comp_apply bit_numeral_simps(2) bit_0 odd_numeral)
      then have "128 - n \<le> 32"
        by (auto simp: keep_bits_def bit_simps)
      with Pfx show ?thesis
        by simp
    qed (use Pfx lo in \<open>auto simp: To4_def\<close>)
  qed
  with range_of_prefix [OF hi] show ?thesis
    by (intro exI [of _ "32 - Bits p"]) simp
qed

lemma v4_string_chars: "set (v4_string a) \<subseteq> insert CHR ''.'' {c. is_digit c}"
  using itoa_correct by (auto simp: v4_string_unfold list_all_iff)

lemma v4_string_ends: "v4_string a \<noteq> [] \<and> is_digit (hd (v4_string a))"
  using itoa_correct [of "octet a 0"] itoa_hd by (simp add: v4_string_unfold)

lemma ParseCIDR_string:
  assumes "n \<le> 32"
  shows "ParseCIDR (v4_string a @ ''/'' @ itoa n) = Some (Pfx (V4 a) n)"
proof -
  have "CHR ''/'' \<notin> set (v4_string a)"
    using v4_string_chars [of a] by (auto simp: is_digit_def)
  then show ?thesis
    using assms itoa_correct [of n]
    by (simp add: ParseCIDR_def index_byte_append ParseAddr_v4_string Let_def)
qed

lemma trim_left_of_stop:
  "list_all (\<lambda>p. p = [] \<or> hd p \<noteq> hd s) ps \<Longrightarrow> s \<noteq> [] \<Longrightarrow> trim_left_of ps s = s"
proof -
  assume "list_all (\<lambda>p. p = [] \<or> hd p \<noteq> hd s) ps" "s \<noteq> []"
  then have "find (\<lambda>p. p \<noteq> [] \<and> has_prefix p s) ps = None"
    by (auto simp: find_None_iff list_all_iff has_prefix_def neq_Nil_conv)
  then show ?thesis
    by (simp add: trim_left_of.simps strip_one_def)
qed

lemma trim_space_digits:
  assumes "s \<noteq> []" "is_digit (hd s)" "is_digit (last s)"
  shows "trim_space s = s"
proof -
  have sp: "list_all (\<lambda>p. \<not> is_digit (hd p)) space_encodings"
    "list_all (\<lambda>p. \<not> is_digit (hd p)) (map rev space_encodings)"
    by (simp_all add: space_encodings_def is_digit_def)
  have "list_all (\<lambda>p. p = [] \<or> hd p \<noteq> hd s) space_encodings"
    using sp(1) assms(2) by (auto simp: list_all_iff)
  moreover have "list_all (\<lambda>p. p = [] \<or> hd p \<noteq> hd (rev s)) (map rev space_encodings)"
    using sp(2) assms by (auto simp: list_all_iff hd_rev)
  ultimately show ?thesis
    using assms(1) by (simp add: trim_space_def trim_left_of_stop)
qed

lemma cidrRange_string:
  assumes "n \<le> 32"
  shows "cidrRange (v4_string a @ ''/'' @ itoa n) =
    Some (keep_bits n a, if n = 0 then NOT 0 else keep_bits n a OR drop_bit n (NOT 0))"
proof -
  have "trim_space (v4_string a @ ''/'' @ itoa n) = v4_string a @ ''/'' @ itoa n"
    using v4_string_ends [of a] itoa_correct [of n]
    by (intro trim_space_digits) (auto simp: list_all_iff)
  with assms show ?thesis
    by (simp add: cidrRange_def ParseCIDR_string [simplified] cidr_network_def ipUint32_def To4_def Let_def)
qed


section \<open>Merging intervals\<close>

definition iv_set :: "interval \<Rightarrow> nat set" where
  "iv_set iv = {unat (iv_low iv) .. unat (iv_high iv)}"

definition joins :: "interval \<Rightarrow> interval \<Rightarrow> bool" where
  "joins l c \<longleftrightarrow> iv_low c \<le> iv_high l \<or> (iv_high l \<noteq> NOT 0 \<and> iv_low c = iv_high l + 1)"

text \<open>The reference definition: no array, the current interval and the candidates left.\<close>

fun merge_from :: "interval \<Rightarrow> interval list \<Rightarrow> interval list" where
  "merge_from l [] = [l]"
| "merge_from l (c # cs) =
     (if joins l c
      then merge_from (if iv_high l < iv_high c then l\<lparr>iv_high := iv_high c\<rparr> else l) cs
      else l # merge_from c cs)"

text \<open>Writing \<open>merged\<close> over the array never changes a candidate that is still to be read.\<close>

lemma merge_loop_eq:
  assumes "0 < m" "m \<le> i" "i \<le> length arr"
  shows "merge_loop arr m i = take (m - 1) arr @ merge_from (arr ! (m - 1)) (drop i arr)"
  using assms
proof (induction arr m i rule: merge_loop.induct)
  case (1 arr m i)
  show ?case
  proof (cases "i < length arr")
    case False
    then have "take m arr = take (m - 1) arr @ [arr ! (m - 1)]"
      using 1(4-6) take_Suc_conv_app_nth [of "m - 1" arr] by simp
    with False 1(6) show ?thesis
      by (subst merge_loop.simps) simp
  next
    case True
    let ?c = "arr ! i" and ?l = "arr ! (m - 1)"
    have dr: "drop i arr = ?c # drop (Suc i) arr"
      using True by (simp add: Cons_nth_drop_Suc)
    have m1: "m - 1 < i" "m - 1 < length arr"
      using 1(4,5) True by auto
    show ?thesis
    proof (cases "joins ?l ?c")
      case j: True
      show ?thesis
      proof (cases "iv_high ?l < iv_high ?c")
        case h: True
        let ?arr = "arr[m - 1 := ?l\<lparr>iv_high := iv_high ?c\<rparr>]"
        have "merge_loop arr m i = merge_loop ?arr m (i + 1)"
          using True j h by (simp add: merge_loop.simps [of arr m i] joins_def Let_def)
        also have "\<dots> = take (m - 1) ?arr @ merge_from (?arr ! (m - 1)) (drop (i + 1) ?arr)"
          using 1(1) [OF True refl refl j [unfolded joins_def] h] 1(4,5) True by simp
        finally show ?thesis
          using dr j h m1 by simp
      next
        case h: False
        have "merge_loop arr m i = merge_loop arr m (i + 1)"
          using True j h by (simp add: merge_loop.simps [of arr m i] joins_def Let_def)
        also have "\<dots> = take (m - 1) arr @ merge_from ?l (drop (i + 1) arr)"
          using 1(2) [OF True refl refl j [unfolded joins_def] h] 1(4,5) True by simp
        finally show ?thesis
          using dr j h by simp
      qed
    next
      case j: False
      let ?arr = "arr[m := ?c]"
      have "merge_loop arr m i = merge_loop ?arr (m + 1) (i + 1)"
        using True j by (auto simp: merge_loop.simps [of arr m i] joins_def Let_def)
      also have "\<dots> = take m ?arr @ merge_from (?arr ! m) (drop (i + 1) ?arr)"
        using 1(3) [OF True refl refl j [unfolded joins_def]] 1(4,5) True by simp
      also have "\<dots> = take (m - 1) arr @ [?l] @ merge_from ?c (drop (Suc i) arr)"
        using 1(4,5) True m1 take_Suc_conv_app_nth [of "m - 1" arr] by simp
      finally show ?thesis
        using dr j by simp
    qed
  qed
qed

definition iv_valid :: "interval \<Rightarrow> bool" where
  "iv_valid iv \<longleftrightarrow> iv_low iv \<le> iv_high iv"

definition separated :: "interval list \<Rightarrow> bool" where
  "separated = sorted_wrt (\<lambda>x y. unat (iv_high x) + 1 < unat (iv_low y))"

lemma unat_Suc_not_max: "w \<noteq> NOT 0 \<Longrightarrow> unat (w + 1) = unat (w :: u32) + 1"
proof -
  assume "w \<noteq> NOT 0"
  then have "w + 1 \<noteq> 0"
    by (simp add: add_eq_0_iff2)
  then show ?thesis
    by (metis unatSuc add.commute Suc_eq_plus1)
qed

lemma joins_iff: "joins l c \<longleftrightarrow> unat (iv_low c) \<le> unat (iv_high l) + 1"
proof (cases "iv_high l = NOT 0")
  case True
  then show ?thesis
    using unat_u32_less [of "iv_low c"]
    by (simp add: joins_def word_le_nat_alt) (simp add: unsigned_minus_1_eq_mask mask_eq_exp_minus_1)
next
  case False
  then have "unat (iv_high l + 1) = unat (iv_high l) + 1"
    using unat_Suc_not_max [of "iv_high l"] by simp
  moreover have "iv_low c = iv_high l + 1 \<longleftrightarrow> unat (iv_low c) = unat (iv_high l + 1)"
    by (auto intro: unsigned_word_eqI)
  ultimately show ?thesis
    using False by (auto simp: joins_def word_le_nat_alt)
qed

lemma merge_from_correct:
  assumes "iv_valid l" "list_all iv_valid cs" "sorted (map iv_low (l # cs))"
  shows "(\<Union>(iv_set ` set (merge_from l cs))) = \<Union>(iv_set ` set (l # cs)) \<and>
    separated (merge_from l cs) \<and> list_all iv_valid (merge_from l cs) \<and>
    (\<forall>x \<in> set (merge_from l cs). iv_low l \<le> iv_low x)"
  using assms
proof (induction l cs rule: merge_from.induct)
  case (1 l)
  then show ?case by (simp add: separated_def)
next
  case (2 l c cs)
  show ?case
  proof (cases "joins l c")
    case True
    let ?l = "if iv_high l < iv_high c then l\<lparr>iv_high := iv_high c\<rparr> else l"
    have "iv_set ?l = iv_set l \<union> iv_set c" "iv_valid ?l" "iv_low ?l = iv_low l"
      using True 2(3-5) by (auto simp: joins_iff iv_set_def iv_valid_def word_le_nat_alt word_less_nat_alt)
    with True 2(1) 2(3-5) show ?thesis
      by auto
  next
    case False
    have IH: "\<Union>(iv_set ` set (merge_from c cs)) = \<Union>(iv_set ` set (c # cs))"
      "separated (merge_from c cs)" "list_all iv_valid (merge_from c cs)"
      "\<And>x. x \<in> set (merge_from c cs) \<Longrightarrow> iv_low c \<le> iv_low x"
      using False 2(2) 2(3-5) by auto
    have "unat (iv_high l) + 1 < unat (iv_low c)"
      using False by (simp add: joins_iff)
    then have "unat (iv_high l) + 1 < unat (iv_low x)" if "x \<in> set (merge_from c cs)" for x
      using IH(4) [OF that] by (simp add: word_le_nat_alt)
    with IH False 2(3-5) show ?thesis
      by (auto simp: separated_def intro: order_trans)
  qed
qed


section \<open>The aggregate\<close>

definition covered :: "string list \<Rightarrow> u32 set" where
  "covered cidrs = {x. \<exists>c \<in> set cidrs. \<exists>low high. cidrRange c = Some (low, high) \<and> low \<le> x \<and> x \<le> high}"

definition cover_nat :: "string list \<Rightarrow> nat set" where
  "cover_nat cidrs =
     {x. \<exists>c \<in> set cidrs. \<exists>low high. cidrRange c = Some (low, high) \<and> unat low \<le> x \<and> x \<le> unat high}"

lemma cover_nat_covered: "cover_nat cidrs = unat ` covered cidrs"
proof -
  have "\<exists>w. unat w = x \<and> low \<le> w \<and> w \<le> high" if "unat low \<le> x" "x \<le> unat high" for x and low high :: u32
  proof (intro exI conjI)
    have "x < 2 ^ 32"
      using that unat_u32_less [of high] by linarith
    then show "unat (word_of_nat x :: u32) = x"
      by (simp add: unsigned_of_nat take_bit_eq_mod)
    with that show "low \<le> word_of_nat x" "word_of_nat x \<le> high"
      by (simp_all add: word_le_nat_alt)
  qed
  then show ?thesis
    by (auto simp: cover_nat_def covered_def word_le_nat_alt image_iff) metis
qed

lemma covered_eq_iff: "covered xs = covered ys \<longleftrightarrow> cover_nat xs = cover_nat ys"
proof -
  have "inj (unat :: u32 \<Rightarrow> nat)"
    by (rule injI) (rule unsigned_word_eqI)
  then show ?thesis
    by (simp add: cover_nat_covered inj_image_eq_iff)
qed

lemma cover_nat_simps [simp]:
  "cover_nat [] = {}"
  "cover_nat (c # cs) =
     (case cidrRange c of None \<Rightarrow> {} | Some (low, high) \<Rightarrow> {unat low .. unat high}) \<union> cover_nat cs"
  by (auto simp: cover_nat_def split: option.splits prod.splits)

lemma cover_nat_by_blocks:
  "\<exists>bs. length bs \<le> length cidrs \<and> (\<forall>(b, k) \<in> set bs. aligned b k) \<and>
     (\<Union>(b, k) \<in> set bs. block b k) = cover_nat cidrs"
proof (induction cidrs)
  case (Cons c cidrs)
  then obtain bs where bs: "length bs \<le> length cidrs" "\<forall>(b, k) \<in> set bs. aligned b k"
    "(\<Union>(b, k) \<in> set bs. block b k) = cover_nat cidrs"
    by blast
  show ?case
  proof (cases "cidrRange c")
    case None
    with bs show ?thesis
      by (intro exI [of _ bs]) auto
  next
    case (Some r)
    obtain low high where r: "r = (low, high)"
      by (cases r)
    then obtain k where "unat high + 1 = unat low + 2 ^ k" "aligned (unat low) k"
      using cidrRange_block Some by metis
    moreover from this(1) have "{unat low .. unat high} = block (unat low) k"
      by (auto simp: block_def)
    ultimately show ?thesis
      using bs Some r by (intro exI [of _ "(unat low, k) # bs"]) auto
  qed
qed auto

lemma cidrRange_block_cidr:
  assumes "aligned a s" "s \<le> 32" "a + 2 ^ s \<le> 2 ^ 32"
  shows "\<exists>low high. cidrRange (block_cidr (a, s)) = Some (low, high) \<and> {unat low .. unat high} = block a s"
proof -
  let ?w = "word_of_nat a :: u32"
  let ?low = "keep_bits (32 - s) ?w"
  let ?high = "if 32 - s = 0 then NOT 0 else ?low OR drop_bit (32 - s) (NOT 0)"
  have "a < 2 ^ 32"
    using assms(3) by (metis add_leD1 le_neq_implies_less add_le_same_cancel1 leD zero_less_numeral zero_less_power)
  then have "unat ?w = a"
    by (simp add: unsigned_of_nat take_bit_eq_mod)
  then have low: "unat ?low = a"
    using assms(1,2) unat_keep_bits [of "32 - s" ?w] by (simp add: aligned_def)
  have "unat ?high + 1 = unat ?low + 2 ^ s"
    using range_of_prefix [OF refl, of "32 - s" ?low] take_bit_keep_bits [of s "32 - s" ?w] assms(2)
    by simp
  then have "{unat ?low .. unat ?high} = block a s"
    unfolding block_def low by auto
  moreover have "cidrRange (block_cidr (a, s)) = Some (?low, ?high)"
    using cidrRange_string [of "32 - s" ?w] by (simp add: block_cidr_def uint32IP_def)
  ultimately show ?thesis
    by blast
qed


section \<open>Blocks of the merged intervals\<close>

definition blocks_of :: "interval list \<Rightarrow> (nat \<times> nat) list" where
  "blocks_of ivs = concat (map (\<lambda>iv. range_blocks (iv_low iv) (iv_high iv)) ivs)"

lemma range_blocks_facts:
  assumes "iv_valid iv"
  shows "(\<Union>(a, s) \<in> set (range_blocks (iv_low iv) (iv_high iv)). block a s) = iv_set iv"
    and "sorted_wrt (\<lambda>(a, s) (b, t). a + 2 ^ s \<le> b) (range_blocks (iv_low iv) (iv_high iv))"
    and "\<And>a s. (a, s) \<in> set (range_blocks (iv_low iv) (iv_high iv)) \<Longrightarrow>
       s \<le> 32 \<and> maximal_block (iv_set iv) a s"
  using range_blocks_correct [OF _ fresh_start, of "iv_low iv" "iv_high iv"] assms
  by (auto simp: iv_valid_def iv_set_def)

lemma block_last: "a + (2 ^ s - 1) \<in> block a s"
proof -
  have "0 < (2 :: nat) ^ s"
    by simp
  then show ?thesis
    unfolding block_def by (simp only: atLeastLessThan_iff) linarith
qed

lemma maximal_block_bounds: "maximal_block {l .. h} a s \<Longrightarrow> l \<le> a \<and> a + 2 ^ s \<le> h + 1"
proof -
  assume "maximal_block {l .. h} a s"
  then have "block a s \<subseteq> {l .. h}"
    by (simp add: maximal_block_def)
  with block_self [of a s] block_last [of a s] have "l \<le> a" "a + (2 ^ s - 1) \<le> h"
    by (meson atLeastAtMost_iff subsetD)+
  then show ?thesis
    by simp
qed

lemma separated_cases:
  "separated ivs \<Longrightarrow> x \<in> set ivs \<Longrightarrow> y \<in> set ivs \<Longrightarrow>
   x = y \<or> unat (iv_high x) + 1 < unat (iv_low y) \<or> unat (iv_high y) + 1 < unat (iv_low x)"
  by (induction ivs) (auto simp: separated_def)

lemma maximal_in_union:
  assumes sep: "separated ivs" and iv: "iv \<in> set ivs" and val: "list_all iv_valid ivs"
    and max: "maximal_block (iv_set iv) a s"
  shows "maximal_block (\<Union>(iv_set ` set ivs)) a s"
proof -
  let ?lo = "unat (iv_low iv)" and ?hi = "unat (iv_high iv)" and ?P = "block (parent a s) (Suc s)"
  have "a \<in> iv_set iv"
    using max block_self by (auto simp: maximal_block_def)
  then have a: "?lo \<le> a" "a \<le> ?hi" "a \<in> ?P"
    using parent_contains by (auto simp: iv_set_def)
  obtain y where y: "y \<in> ?P" "y \<notin> iv_set iv"
    using max by (auto simp: maximal_block_def)
  have out: "?hi + 1 \<notin> iv_set x" "0 < ?lo \<Longrightarrow> ?lo - 1 \<notin> iv_set x" if "x \<in> set ivs" for x
    using separated_cases [OF sep iv that] val that iv a
    by (auto simp: iv_set_def list_all_iff iv_valid_def word_le_nat_alt)
  have "\<not> ?P \<subseteq> \<Union>(iv_set ` set ivs)"
  proof (cases "?hi < y")
    case True
    then have "?hi + 1 \<in> ?P"
      using a y(1) by (auto simp: block_def)
    then show ?thesis
      using out(1) by blast
  next
    case False
    then have "y < ?lo"
      using y(2) by (auto simp: iv_set_def)
    then have "?lo - 1 \<in> ?P" "0 < ?lo"
      using a y(1) by (auto simp: block_def)
    then show ?thesis
      using out(2) by blast
  qed
  with max iv show ?thesis
    by (auto simp: maximal_block_def)
qed

lemma blocks_of_facts:
  assumes sep: "separated ivs" and val: "list_all iv_valid ivs"
  shows "(\<Union>(a, s) \<in> set (blocks_of ivs). block a s) = \<Union>(iv_set ` set ivs)"
    and "\<And>a s. (a, s) \<in> set (blocks_of ivs) \<Longrightarrow> s \<le> 32 \<and> maximal_block (\<Union>(iv_set ` set ivs)) a s"
proof -
  have v: "iv_valid iv" if "iv \<in> set ivs" for iv
    using val that by (simp add: list_all_iff)
  show "(\<Union>(a, s) \<in> set (blocks_of ivs). block a s) = \<Union>(iv_set ` set ivs)"
    using range_blocks_facts(1) [OF v] by (simp add: blocks_of_def)
  fix a s
  assume "(a, s) \<in> set (blocks_of ivs)"
  then obtain iv where "iv \<in> set ivs" "(a, s) \<in> set (range_blocks (iv_low iv) (iv_high iv))"
    by (auto simp: blocks_of_def)
  with range_blocks_facts(3) [OF v] maximal_in_union [OF sep _ val]
  show "s \<le> 32 \<and> maximal_block (\<Union>(iv_set ` set ivs)) a s"
    by blast
qed

lemma blocks_of_sorted:
  "separated ivs \<Longrightarrow> list_all iv_valid ivs \<Longrightarrow>
   sorted_wrt (\<lambda>(a, s) (b, t). a + 2 ^ s \<le> b) (blocks_of ivs)"
proof (induction ivs)
  case (Cons iv ivs)
  have "a + 2 ^ s \<le> b"
    if as: "(a, s) \<in> set (range_blocks (iv_low iv) (iv_high iv))" and bt: "(b, t) \<in> set (blocks_of ivs)"
    for a s b t
  proof -
    obtain jv where jv: "jv \<in> set ivs" "(b, t) \<in> set (range_blocks (iv_low jv) (iv_high jv))"
      using bt by (auto simp: blocks_of_def)
    have "a + 2 ^ s \<le> unat (iv_high iv) + 1"
      using range_blocks_facts(3) [OF _ as] Cons.prems maximal_block_bounds by (auto simp: iv_set_def)
    moreover have "unat (iv_low jv) \<le> b"
      using range_blocks_facts(3) [OF _ jv(2)] Cons.prems jv maximal_block_bounds
      by (auto simp: iv_set_def list_all_iff)
    moreover have "unat (iv_high iv) + 1 < unat (iv_low jv)"
      using Cons.prems(1) jv(1) by (simp add: separated_def)
    ultimately show ?thesis
      by simp
  qed
  moreover have "separated ivs"
    using Cons.prems(1) by (simp add: separated_def)
  ultimately show ?case
    using Cons range_blocks_facts(2) [of iv]
    by (simp add: blocks_of_def sorted_wrt_append) blast
qed (simp add: blocks_of_def)

definition parsed :: "string list \<Rightarrow> interval list" where
  "parsed cidrs = map (\<lambda>(low, high). \<lparr>iv_low = low, iv_high = high\<rparr>) (List.map_filter cidrRange cidrs)"

lemma parsed_facts:
  "\<Union>(iv_set ` set (parsed cidrs)) = cover_nat cidrs" "list_all iv_valid (parsed cidrs)"
proof -
  show "\<Union>(iv_set ` set (parsed cidrs)) = cover_nat cidrs"
    by (induction cidrs) (auto simp: parsed_def map_filter_simps iv_set_def split: option.splits)
  have "low \<le> high" if that: "cidrRange c = Some (low, high)" for c low high
  proof -
    from cidrRange_block [OF that] obtain k where "unat high + 1 = unat low + 2 ^ k"
      by blast
    moreover have "0 < (2 :: nat) ^ k"
      by simp
    ultimately show ?thesis
      unfolding word_le_nat_alt by linarith
  qed
  then show "list_all iv_valid (parsed cidrs)"
    by (induction cidrs) (auto simp: parsed_def map_filter_simps iv_valid_def split: option.splits)
qed

lemma merged_facts:
  assumes "sorts_by iv_low by_low" "parsed cidrs \<noteq> []"
  defines "ivs \<equiv> merge_loop (by_low (parsed cidrs)) 1 1"
  shows "separated ivs" "list_all iv_valid ivs" "\<Union>(iv_set ` set ivs) = cover_nat cidrs"
proof -
  let ?arr = "by_low (parsed cidrs)"
  have m: "mset ?arr = mset (parsed cidrs)" "sorted (map iv_low ?arr)"
    using assms(1) by (auto simp: sorts_by_def)
  then have set: "set ?arr = set (parsed cidrs)"
    by (metis set_mset_mset)
  then obtain l cs where arr: "?arr = l # cs"
    using assms(2) by (cases ?arr) auto
  have "ivs = merge_from l cs"
    unfolding ivs_def by (subst merge_loop_eq) (simp_all add: arr)
  moreover have "iv_valid l" "list_all iv_valid cs"
    using parsed_facts(2) [of cidrs] set arr by (auto simp: list_all_iff)
  ultimately show "separated ivs" "list_all iv_valid ivs" "\<Union>(iv_set ` set ivs) = cover_nat cidrs"
    using merge_from_correct [of l cs] m(2) unfolding parsed_facts(1) [symmetric] set [symmetric] arr
    by simp_all
qed

lemma AggregateIPv4_blocks:
  assumes "sorts_by iv_low by_low"
  obtains bs where "AggregateIPv4 by_low cidrs = sort (map block_cidr bs)"
    and "(\<Union>(a, s) \<in> set bs. block a s) = cover_nat cidrs"
    and "sorted_wrt (\<lambda>(a, s) (b, t). a + 2 ^ s \<le> b) bs"
    and "\<And>a s. (a, s) \<in> set bs \<Longrightarrow> s \<le> 32 \<and> maximal_block (cover_nat cidrs) a s"
proof (cases "parsed cidrs = []")
  case True
  then have "cover_nat cidrs = {}"
    using parsed_facts(1) [of cidrs] by simp
  with True that [of "[]"] show ?thesis
    by (simp add: AggregateIPv4_def parsed_def)
next
  case False
  let ?ivs = "merge_loop (by_low (parsed cidrs)) 1 1"
  note m = merged_facts [OF assms False]
  have "AggregateIPv4 by_low cidrs = sort (map block_cidr (blocks_of ?ivs))"
    using False
    by (simp add: AggregateIPv4_def parsed_def blocks_of_def rangeCIDRs_blocks map_concat Let_def comp_def)
  then show ?thesis
    using that blocks_of_facts [OF m(1,2)] blocks_of_sorted [OF m(1,2)] unfolding m(3) by blast
qed

lemma cover_nat_below: "x \<in> cover_nat cidrs \<Longrightarrow> x < 2 ^ 32"
  using unat_u32_less by (auto simp: cover_nat_covered)

lemma cover_nat_block_cidrs:
  assumes "\<And>a s. (a, s) \<in> set bs \<Longrightarrow> s \<le> 32 \<and> maximal_block (cover_nat cidrs) a s"
  shows "cover_nat (map block_cidr bs) = (\<Union>(a, s) \<in> set bs. block a s)"
  using assms
proof (induction bs)
  case (Cons p bs)
  obtain a s where p: "p = (a, s)"
    by (cases p)
  then have s: "s \<le> 32" "aligned a s" "block a s \<subseteq> cover_nat cidrs"
    using Cons.prems [of a s] by (auto simp: maximal_block_def)
  have "a + (2 ^ s - 1) < 2 ^ 32"
    using s(3) cover_nat_below block_last by blast
  then have "a + 2 ^ s \<le> 2 ^ 32"
    by simp
  from cidrRange_block_cidr [OF s(2,1) this] Cons p show ?case
    by auto
qed simp

lemma cover_nat_set: "set xs = set ys \<Longrightarrow> cover_nat xs = cover_nat ys"
  by (simp add: cover_nat_def)


section \<open>Properties\<close>


lemma shrink_numeral:
  "shrink (numeral k) low high =
     (if (ucast high - ucast low + 1 :: u64) < push_bit (numeral k) 1
      then shrink (pred_numeral k) low high else numeral k)"
  by (simp add: numeral_eq_Suc del: push_bit_of_1)

lemmas cidrRange_eval = netip_eval cidrRange_def ipUint32_def mask_eq_exp_minus_1

lemmas rangeCIDRs_eval =
  itoa.simps digit_char_def octet_def v4_string_def uint32IP_def TrailingZeros32_def upt_rec
  shrink_numeral block_size_def


text \<open>
  \<open>MergeDedup\<close> returns the union of its lists, sorted and without repetition, whatever order Go
  visits the set in.
\<close>

lemma MergeDedup_union:
  assumes "visits rng"
  shows "set (MergeDedup rng groups) = \<Union>(set ` set groups) \<and> sorted_wrt (<) (MergeDedup rng groups)"
  by (simp add: MergeDedup_def visits_sorted [OF assms])


end
