(* ===== verification/Health.thy ===== *)
theory Health
  imports Prelude "HOL-Library.AList"
begin

text \<open>
  Group health of \<open>src/internal/health\<close>: the probe tracker with its hysteresis
  (\<open>probestate.go\<close>) and the monitor that selects a group member (\<open>monitor.go\<close>). The WireGuard
  control client is not part of the repository: a query is a function from the device name to
  its peers, \<open>None\<close> when the query fails. The probe counters are unbounded integers here; they
  count single probes and cannot reach the 64-bit range. A slice access that would panic is
  the result \<open>None\<close>, and the lemmas show that it does not happen.
\<close>


section \<open>The probe tracker\<close>

type_synonym TunnelName = string
type_synonym FwMark = "32 word"

record ProbePolicy =
  pp_MaxAge :: duration
  pp_FailAfter :: int
  pp_RecoverAfter :: int

datatype health_error =
    InvalidProbePolicy
  | ClientRequired
  | IntervalNotPositive
  | InvalidGroup

definition policy_validate :: "ProbePolicy \<Rightarrow> health_error option" where
  "policy_validate p =
     (if pp_MaxAge p \<le> 0 \<or> pp_FailAfter p < 1 \<or> pp_RecoverAfter p < 1
      then Some InvalidProbePolicy else None)"

datatype ProbeVerdict = ProbeUnknown | ProbePassing | ProbeFailing | ProbeStale

definition Eligible :: "ProbeVerdict \<Rightarrow> bool" where
  "Eligible v \<longleftrightarrow> v = ProbeUnknown \<or> v = ProbePassing"

record probeState =
  ps_lastAt :: gotime
  ps_passing :: bool
  ps_failures :: int
  ps_successes :: int

record probeTracker =
  pt_policy :: ProbePolicy
  pt_byTunnel :: "TunnelName \<rightharpoonup> probeState"

definition newProbeTracker :: "ProbePolicy \<Rightarrow> probeTracker" where
  "newProbeTracker policy = \<lparr>pt_policy = policy, pt_byTunnel = Map.empty\<rparr>"

definition boolCount :: "bool \<Rightarrow> int" where
  "boolCount v = (if v then 1 else 0)"

definition record_state :: "ProbePolicy \<Rightarrow> bool \<Rightarrow> gotime \<Rightarrow> probeState option \<Rightarrow> probeState" where
  "record_state policy success at1 seen =
     (case seen of
        None \<Rightarrow>
          \<lparr>ps_lastAt = at1, ps_passing = success, ps_failures = boolCount (\<not> success),
           ps_successes = boolCount success\<rparr>
      | Some state0 \<Rightarrow>
          (let state = (if ps_lastAt state0 < at1 then state0\<lparr>ps_lastAt := at1\<rparr> else state0)
           in if success then
                (let state = state\<lparr>ps_successes := ps_successes state + 1, ps_failures := 0\<rparr>
                 in if pp_RecoverAfter policy \<le> ps_successes state
                    then state\<lparr>ps_passing := True\<rparr> else state)
              else
                (let state = state\<lparr>ps_failures := ps_failures state + 1, ps_successes := 0\<rparr>
                 in if pp_FailAfter policy \<le> ps_failures state
                    then state\<lparr>ps_passing := False\<rparr> else state)))"

definition tracker_record :: "TunnelName \<Rightarrow> bool \<Rightarrow> gotime \<Rightarrow> probeTracker \<Rightarrow> probeTracker" where
  "tracker_record tunnel success at1 t =
     t\<lparr>pt_byTunnel := (pt_byTunnel t)
        (tunnel \<mapsto> record_state (pt_policy t) success at1 (pt_byTunnel t tunnel))\<rparr>"

definition tracker_snapshot :: "TunnelName list \<Rightarrow> probeTracker \<Rightarrow> (TunnelName \<rightharpoonup> probeState)" where
  "tracker_snapshot tunnels t =
     fold (\<lambda>tunnel states.
       case pt_byTunnel t tunnel of None \<Rightarrow> states | Some state \<Rightarrow> states(tunnel \<mapsto> state))
       tunnels Map.empty"

text \<open>The loop of \<open>restore\<close> writes every key at most once, so its visiting order is irrelevant.\<close>

definition tracker_restore :: "(TunnelName \<rightharpoonup> probeState) \<Rightarrow> probeTracker \<Rightarrow> probeTracker" where
  "tracker_restore states t =
     t\<lparr>pt_byTunnel := (\<lambda>tunnel.
        case pt_byTunnel t tunnel of Some state \<Rightarrow> Some state | None \<Rightarrow> states tunnel)\<rparr>"

definition tracker_verdict :: "probeTracker option \<Rightarrow> TunnelName \<Rightarrow> gotime \<Rightarrow> ProbeVerdict" where
  "tracker_verdict t tunnel now1 =
     (case t of
        None \<Rightarrow> ProbeUnknown
      | Some tr \<Rightarrow>
          (case pt_byTunnel tr tunnel of
             None \<Rightarrow> ProbeUnknown
           | Some state \<Rightarrow>
               if pp_MaxAge (pt_policy tr) < time_sub now1 (ps_lastAt state) then ProbeStale
               else if ps_passing state then ProbePassing
               else ProbeFailing))"


section \<open>The monitor\<close>

record Member =
  mb_Tunnel :: TunnelName
  mb_Mark :: FwMark

record Group =
  gr_Name :: string
  gr_Members :: "Member list"
  gr_HealthyAfter :: duration

record health_Config =
  hc_Interval :: duration
  hc_Groups :: "Group list"
  hc_Observe :: bool
  hc_Probe :: "ProbePolicy option"

text \<open>\<open>SessionZero\<close> is the empty string, the zero value of the type.\<close>

datatype SessionSignal = SessionZero | SessionRecent | SessionIdleUnknown | SessionFailed

datatype group_reason =
    ReasonRecentHandshake
  | ReasonRecentHandshakeProbePassing
  | ReasonProbeFailingFailOpen
  | ReasonNoRecentHandshakeFailOpen

record TunnelSnapshot =
  ts_Tunnel :: TunnelName
  ts_Signal :: SessionSignal
  ts_HandshakeAge :: duration
  ts_ReceiveBytes :: int
  ts_TransmitBytes :: int
  ts_Error :: string

record GroupSnapshot =
  gs_Name :: string
  gs_ActiveMark :: FwMark
  gs_State :: string
  gs_Reason :: group_reason

record Snapshot =
  sn_ObservedAt :: gotime
  sn_Tunnels :: "TunnelSnapshot list"
  sn_Groups :: "GroupSnapshot list"

text \<open>
  \<open>active\<close> is an \<open>atomic.Int32\<close> that holds the bits of a mark, so it is kept as those bits.
\<close>

record groupState =
  st_group :: Group
  st_active :: FwMark
  st_order :: "FwMark list"

record Monitor =
  mo_groups :: "groupState list"
  mo_byName :: "string \<rightharpoonup> nat"
  mo_interval :: duration
  mo_observe :: bool
  mo_probes :: "probeTracker option"
  mo_snapshot :: Snapshot

definition memberMarks :: "Member list \<Rightarrow> FwMark list" where
  "memberMarks members = map mb_Mark members"

definition chosenFirst :: "Member list \<Rightarrow> nat \<Rightarrow> FwMark list" where
  "chosenFirst members chosen =
     mb_Mark (members ! chosen) #
     map (\<lambda>(i, member). mb_Mark member) (filter (\<lambda>(i, member). i \<noteq> chosen) (enumerate 0 members))"

definition zero_Snapshot :: Snapshot where
  "zero_Snapshot = \<lparr>sn_ObservedAt = 0, sn_Tunnels = [], sn_Groups = []\<rparr>"

fun add_groups :: "Group list \<Rightarrow> Monitor \<Rightarrow> health_error + Monitor" where
  "add_groups [] m = Inr m"
| "add_groups (g # groups) m =
     (if gr_Name g = [] \<or> gr_Members g = [] \<or> gr_HealthyAfter g \<le> 0
      then Inl InvalidGroup
      else
        let state = \<lparr>st_group = g, st_active = mb_Mark (gr_Members g ! 0),
                     st_order = memberMarks (gr_Members g)\<rparr>
        in add_groups groups
             (m\<lparr>mo_groups := mo_groups m @ [state],
                mo_byName := (mo_byName m)(gr_Name g \<mapsto> length (mo_groups m))\<rparr>))"

definition health_New :: "bool \<Rightarrow> health_Config \<Rightarrow> health_error + Monitor" where
  "health_New client cfg =
     (if \<not> client then Inl ClientRequired
      else if hc_Interval cfg \<le> 0 then Inl IntervalNotPositive
      else
        let m = \<lparr>mo_groups = [], mo_byName = Map.empty, mo_interval = hc_Interval cfg,
                 mo_observe = hc_Observe cfg, mo_probes = None, mo_snapshot = zero_Snapshot\<rparr>
        in case hc_Probe cfg of
             None \<Rightarrow> add_groups (hc_Groups cfg) m
           | Some policy \<Rightarrow>
               (case policy_validate policy of
                  Some e \<Rightarrow> Inl e
                | None \<Rightarrow>
                    add_groups (hc_Groups cfg) (m\<lparr>mo_probes := Some (newProbeTracker policy)\<rparr>)))"

definition monitor_Active :: "Monitor option \<Rightarrow> string \<Rightarrow> FwMark option" where
  "monitor_Active m name1 =
     (case m of
        None \<Rightarrow> None
      | Some mon \<Rightarrow> map_option (\<lambda>i. st_active (mo_groups mon ! i)) (mo_byName mon name1))"

definition monitor_Order :: "Monitor option \<Rightarrow> string \<Rightarrow> FwMark list option" where
  "monitor_Order m name1 =
     (case m of
        None \<Rightarrow> None
      | Some mon \<Rightarrow> map_option (\<lambda>i. st_order (mo_groups mon ! i)) (mo_byName mon name1))"

definition ObserveProbe :: "string \<Rightarrow> bool \<Rightarrow> gotime \<Rightarrow> Monitor option \<Rightarrow> Monitor option" where
  "ObserveProbe tunnel success at1 m =
     map_option (\<lambda>mon. mon\<lparr>mo_probes := map_option (tracker_record tunnel success at1) (mo_probes mon)\<rparr>) m"

definition InheritProbes :: "Monitor option \<Rightarrow> string list \<Rightarrow> Monitor option \<Rightarrow> Monitor option" where
  "InheritProbes prev tunnels m =
     (case m of
        None \<Rightarrow> None
      | Some mon \<Rightarrow>
          (case prev of
             None \<Rightarrow> Some mon
           | Some pmon \<Rightarrow>
               (case (mo_probes mon, mo_probes pmon) of
                  (Some t, Some pt) \<Rightarrow>
                    Some (mon\<lparr>mo_probes := Some (tracker_restore (tracker_snapshot tunnels pt) t)\<rparr>)
                | _ \<Rightarrow> Some mon)))"

definition monitor_Snapshot :: "Monitor option \<Rightarrow> Snapshot" where
  "monitor_Snapshot m = (case m of None \<Rightarrow> zero_Snapshot | Some mon \<Rightarrow> mo_snapshot mon)"


section \<open>Polling\<close>

record Peer =
  pe_LastHandshakeTime :: gotime
  pe_ReceiveBytes :: int
  pe_TransmitBytes :: int

type_synonym device_query = "string \<Rightarrow> Peer list option"

text \<open>The smallest \<open>HealthyAfter\<close> of the groups a tunnel belongs to.\<close>

definition add_threshold ::
  "duration \<Rightarrow> Member \<Rightarrow> (TunnelName \<times> duration) list \<Rightarrow> (TunnelName \<times> duration) list"
where
  "add_threshold healthy member thresholds =
     (let current = (case map_of thresholds (mb_Tunnel member) of None \<Rightarrow> 0 | Some d \<Rightarrow> d)
      in if current = 0 \<or> healthy < current
         then AList.update (mb_Tunnel member) healthy thresholds else thresholds)"

definition poll_thresholds :: "groupState list \<Rightarrow> (TunnelName \<times> duration) list" where
  "poll_thresholds groups =
     fold (\<lambda>state. fold (add_threshold (gr_HealthyAfter (st_group state)))
             (gr_Members (st_group state))) groups []"

definition query_tunnel :: "device_query \<Rightarrow> gotime \<Rightarrow> duration \<Rightarrow> TunnelName \<Rightarrow> TunnelSnapshot" where
  "query_tunnel device now1 threshold name1 =
     (let state = \<lparr>ts_Tunnel = name1, ts_Signal = SessionIdleUnknown, ts_HandshakeAge = 0,
                   ts_ReceiveBytes = 0, ts_TransmitBytes = 0, ts_Error = []\<rparr>
      in case device name1 of
           None \<Rightarrow> state\<lparr>ts_Signal := SessionFailed, ts_Error := ''device query failed''\<rparr>
         | Some [] \<Rightarrow> state\<lparr>ts_Signal := SessionFailed, ts_Error := ''peer missing''\<rparr>
         | Some (peer # _) \<Rightarrow>
             (let state = state\<lparr>ts_ReceiveBytes := pe_ReceiveBytes peer,
                                ts_TransmitBytes := pe_TransmitBytes peer\<rparr>
              in if pe_LastHandshakeTime peer = 0 then state
                 else
                   let state = state\<lparr>ts_HandshakeAge :=
                                 max (time_sub now1 (pe_LastHandshakeTime peer)) 0\<rparr>
                   in if ts_HandshakeAge state < threshold
                      then state\<lparr>ts_Signal := SessionRecent\<rparr> else state))"

record select_acc =
  sa_firstRecent :: "nat option"
  sa_eligible :: "FwMark list"
  sa_verdict :: "ProbeVerdict option"

definition select_step ::
  "probeTracker option \<Rightarrow> (TunnelName \<rightharpoonup> TunnelSnapshot) \<Rightarrow> gotime \<Rightarrow> nat \<times> Member \<Rightarrow>
   select_acc \<Rightarrow> select_acc"
where
  "select_step probes byTunnel now1 = (\<lambda>(i, member) acc.
     if map_option ts_Signal (byTunnel (mb_Tunnel member)) \<noteq> Some SessionRecent then acc
     else
       let acc = (if sa_firstRecent acc = None then acc\<lparr>sa_firstRecent := Some i\<rparr> else acc);
           v = tracker_verdict probes (mb_Tunnel member) now1
       in if Eligible v then
            (if sa_eligible acc = [] then acc\<lparr>sa_verdict := Some v\<rparr> else acc)
              \<lparr>sa_eligible := sa_eligible acc @ [mb_Mark member]\<rparr>
          else acc)"

definition selectMember ::
  "probeTracker option \<Rightarrow> Member list \<Rightarrow> (TunnelName \<rightharpoonup> TunnelSnapshot) \<Rightarrow> gotime \<Rightarrow>
   (FwMark \<times> string \<times> group_reason \<times> FwMark list) option"
where
  "selectMember probes members byTunnel now1 =
     (let acc = fold (select_step probes byTunnel now1) (enumerate 0 members)
                  \<lparr>sa_firstRecent = None, sa_eligible = [], sa_verdict = None\<rparr>
      in case sa_eligible acc of
           chosen # _ \<Rightarrow>
             Some (chosen, ''ready'',
               if sa_verdict acc = Some ProbePassing then ReasonRecentHandshakeProbePassing
               else ReasonRecentHandshake, sa_eligible acc)
         | [] \<Rightarrow>
             (case sa_firstRecent acc of
                Some i \<Rightarrow>
                  Some (mb_Mark (members ! i), ''degraded'', ReasonProbeFailingFailOpen,
                    chosenFirst members i)
              | None \<Rightarrow>
                  (case members of
                     [] \<Rightarrow> None
                   | primary # _ \<Rightarrow>
                       Some (mb_Mark primary, ''degraded'', ReasonNoRecentHandshakeFailOpen,
                         memberMarks members))))"

text \<open>
  One round of the loop over the groups: the new state of the group, its snapshot, and the mark
  of the log line when the selection changed.
\<close>

definition poll_group ::
  "probeTracker option \<Rightarrow> (TunnelName \<rightharpoonup> TunnelSnapshot) \<Rightarrow> gotime \<Rightarrow> groupState \<Rightarrow>
   (groupState \<times> GroupSnapshot \<times> FwMark option) option"
where
  "poll_group probes byTunnel now1 state =
     map_option (\<lambda>(chosen, gstate, reason, order).
       (state\<lparr>st_order := order, st_active := chosen\<rparr>,
        \<lparr>gs_Name = gr_Name (st_group state), gs_ActiveMark = chosen, gs_State = gstate,
         gs_Reason = reason\<rparr>,
        if st_active state \<noteq> chosen then Some chosen else None))
     (selectMember probes (gr_Members (st_group state)) byTunnel now1)"

text \<open>
  \<open>rng\<close> is the order in which Go visits the thresholds. The result is the monitor after the poll
  and the snapshot handed to the observer; \<open>None\<close> is a panic.
\<close>

definition Poll ::
  "(string list \<Rightarrow> string list) \<Rightarrow> device_query \<Rightarrow> gotime \<Rightarrow> Monitor \<Rightarrow>
   (Monitor \<times> Snapshot option) option"
where
  "Poll rng device now1 m =
     (let thresholds = poll_thresholds (mo_groups m);
          names = sort (rng (map fst thresholds));
          tunnels = map (\<lambda>n. query_tunnel device now1
                       (case map_of thresholds n of None \<Rightarrow> 0 | Some d \<Rightarrow> d) n) names;
          byTunnel = map_of (zip names tunnels)
      in case those (map (poll_group (mo_probes m) byTunnel now1) (mo_groups m)) of
           None \<Rightarrow> None
         | Some polled \<Rightarrow>
             (let snapshot = \<lparr>sn_ObservedAt = now1, sn_Tunnels = tunnels,
                              sn_Groups = map (\<lambda>(_, g, _). g) polled\<rparr>
              in Some (m\<lparr>mo_groups := map (\<lambda>(st, _, _). st) polled, mo_snapshot := snapshot\<rparr>,
                       if mo_observe m then Some snapshot else None)))"


section \<open>Hysteresis\<close>

text \<open>
  A tracker driven by a sequence of results, and the results of one tunnel in it. \<open>trailing b\<close>
  is the length of the run of results \<open>b\<close> at the end.
\<close>

type_synonym probe_event = "TunnelName \<times> bool \<times> gotime"

definition run_tracker :: "ProbePolicy \<Rightarrow> probe_event list \<Rightarrow> probeTracker" where
  "run_tracker policy evs =
     fold (\<lambda>(tunnel, ok, at1). tracker_record tunnel ok at1) evs (newProbeTracker policy)"

definition results :: "TunnelName \<Rightarrow> probe_event list \<Rightarrow> (bool \<times> gotime) list" where
  "results tunnel evs = map snd (filter (\<lambda>ev. fst ev = tunnel) evs)"

definition trailing :: "bool \<Rightarrow> (bool \<times> gotime) list \<Rightarrow> nat" where
  "trailing b hs = length (takeWhile (\<lambda>r. fst r = b) (rev hs))"

definition passing :: "ProbePolicy \<Rightarrow> TunnelName \<Rightarrow> probe_event list \<Rightarrow> bool" where
  "passing policy tunnel evs \<longleftrightarrow>
     (case pt_byTunnel (run_tracker policy evs) tunnel of None \<Rightarrow> False | Some st \<Rightarrow> ps_passing st)"

lemma run_tracker_snoc:
  "run_tracker policy (evs @ [(tunnel, ok, at1)]) = tracker_record tunnel ok at1 (run_tracker policy evs)"
  by (simp add: run_tracker_def)

lemma run_tracker_policy [simp]: "pt_policy (run_tracker policy evs) = policy"
  by (induction evs rule: rev_induct)
     (auto simp: run_tracker_snoc tracker_record_def, simp add: run_tracker_def newProbeTracker_def)

lemma results_snoc:
  "results tunnel (evs @ [(n, ok, at1)]) = results tunnel evs @ (if n = tunnel then [(ok, at1)] else [])"
  by (simp add: results_def)

lemma trailing_snoc: "trailing b (hs @ [(ok, at1)]) = (if ok = b then Suc (trailing b hs) else 0)"
  by (simp add: trailing_def)

lemma Max_insert_times: "hs \<noteq> [] \<Longrightarrow> Max (snd ` set (hs @ [(ok, t)])) = max (Max (snd ` set hs)) (t :: gotime)"
  by (simp add: Max_insert max.commute)

definition shaped :: "(bool \<times> gotime) list \<Rightarrow> probeState option \<Rightarrow> bool" where
  "shaped hs st \<longleftrightarrow>
     (case st of
        None \<Rightarrow> hs = []
      | Some s \<Rightarrow> hs \<noteq> [] \<and> ps_lastAt s = Max (snd ` set hs) \<and>
          ps_failures s = int (trailing False hs) \<and> ps_successes s = int (trailing True hs))"

lemma record_state_shaped: "shaped hs st \<Longrightarrow> shaped (hs @ [(ok, t)]) (Some (record_state policy ok t st))"
proof (cases st)
  case None
  then show "shaped hs st \<Longrightarrow> ?thesis"
    by (auto simp: shaped_def record_state_def boolCount_def trailing_def)
next
  case (Some s)
  assume "shaped hs st"
  with Some have hs: "hs \<noteq> []" "ps_lastAt s = Max (snd ` set hs)"
    "ps_failures s = int (trailing False hs)" "ps_successes s = int (trailing True hs)"
    by (simp_all add: shaped_def)
  show ?thesis
    unfolding shaped_def Max_insert_times [OF hs(1)]
    by (simp add: Some record_state_def trailing_snoc hs(2-4) Let_def max_def)
qed

lemma tracker_shaped: "shaped (results tunnel evs) (pt_byTunnel (run_tracker policy evs) tunnel)"
proof (induction evs rule: rev_induct)
  case Nil
  then show ?case
    by (simp add: shaped_def run_tracker_def newProbeTracker_def results_def)
next
  case (snoc ev evs)
  obtain n ok t where ev: "ev = (n, ok, t)"
    by (cases ev)
  show ?case
    using snoc record_state_shaped [OF snoc, of ok t policy]
    by (auto simp: ev run_tracker_snoc tracker_record_def results_snoc)
qed

lemma tracker_state:
  "pt_byTunnel (run_tracker policy evs) tunnel =
     (if results tunnel evs = [] then None
      else Some \<lparr>ps_lastAt = Max (snd ` set (results tunnel evs)), ps_passing = passing policy tunnel evs,
                 ps_failures = int (trailing False (results tunnel evs)),
                 ps_successes = int (trailing True (results tunnel evs))\<rparr>)"
  using tracker_shaped [of tunnel evs policy]
  by (cases "pt_byTunnel (run_tracker policy evs) tunnel")
     (auto simp: shaped_def passing_def intro!: probeState.equality)

lemma passing_snoc:
  "passing policy tunnel (evs @ [(tunnel, ok, at1)]) =
     (if results tunnel evs = [] then ok
      else if ok then passing policy tunnel evs \<or>
        pp_RecoverAfter policy \<le> int (trailing True (results tunnel evs @ [(ok, at1)]))
      else passing policy tunnel evs \<and>
        int (trailing False (results tunnel evs @ [(ok, at1)])) < pp_FailAfter policy)"
  unfolding passing_def [of policy tunnel "evs @ _"] run_tracker_snoc tracker_record_def
  using tracker_state [of policy evs tunnel]
  by (auto simp: record_state_def trailing_snoc Let_def)

lemma passing_other:
  "n \<noteq> tunnel \<Longrightarrow> passing policy tunnel (evs @ [(n, ok, at1)]) = passing policy tunnel evs"
  by (simp add: passing_def run_tracker_snoc tracker_record_def)

lemma verdict_history:
  "tracker_verdict (Some (run_tracker policy evs)) tunnel now1 =
     (if results tunnel evs = [] then ProbeUnknown
      else if pp_MaxAge policy < time_sub now1 (Max (snd ` set (results tunnel evs))) then ProbeStale
      else if passing policy tunnel evs then ProbePassing else ProbeFailing)"
  by (simp add: tracker_verdict_def tracker_state)


section \<open>Selection\<close>

definition recent :: "(TunnelName \<rightharpoonup> TunnelSnapshot) \<Rightarrow> Member \<Rightarrow> bool" where
  "recent byTunnel member \<longleftrightarrow> map_option ts_Signal (byTunnel (mb_Tunnel member)) = Some SessionRecent"

definition usable ::
  "probeTracker option \<Rightarrow> (TunnelName \<rightharpoonup> TunnelSnapshot) \<Rightarrow> gotime \<Rightarrow> Member \<Rightarrow> bool"
where
  "usable probes byTunnel now1 member \<longleftrightarrow>
     recent byTunnel member \<and> Eligible (tracker_verdict probes (mb_Tunnel member) now1)"

fun first_index :: "('a \<Rightarrow> bool) \<Rightarrow> nat \<Rightarrow> 'a list \<Rightarrow> nat option" where
  "first_index P i [] = None"
| "first_index P i (x # xs) = (if P x then Some i else first_index P (Suc i) xs)"

lemma first_index_Some:
  "first_index P i xs = Some k \<Longrightarrow> i \<le> k \<and> k < i + length xs \<and> P (xs ! (k - i)) \<and>
     xs ! (k - i) = hd (filter P xs)"
  by (induction P i xs rule: first_index.induct) (fastforce simp: nth_Cons' split: if_splits)+

lemma first_index_None: "first_index P i xs = None \<longleftrightarrow> filter P xs = []"
  by (induction P i xs rule: first_index.induct) auto

lemma select_step_eq:
  "select_step probes byTunnel now1 (i, m) acc =
     \<lparr>sa_firstRecent = (if recent byTunnel m \<and> sa_firstRecent acc = None then Some i
                       else sa_firstRecent acc),
      sa_eligible = sa_eligible acc @ (if usable probes byTunnel now1 m then [mb_Mark m] else []),
      sa_verdict = (if usable probes byTunnel now1 m \<and> sa_eligible acc = []
                    then Some (tracker_verdict probes (mb_Tunnel m) now1) else sa_verdict acc)\<rparr>"
  by (cases acc) (simp add: select_step_def recent_def usable_def Let_def)

lemma select_fold:
  "fold (select_step probes byTunnel now1) (enumerate i members) acc =
     \<lparr>sa_firstRecent = (case sa_firstRecent acc of Some k \<Rightarrow> Some k
                       | None \<Rightarrow> first_index (recent byTunnel) i members),
      sa_eligible = sa_eligible acc @ map mb_Mark (filter (usable probes byTunnel now1) members),
      sa_verdict = (if sa_eligible acc = [] then
                      (case filter (usable probes byTunnel now1) members of
                         [] \<Rightarrow> sa_verdict acc
                       | m # _ \<Rightarrow> Some (tracker_verdict probes (mb_Tunnel m) now1))
                    else sa_verdict acc)\<rparr>"
proof (induction members arbitrary: i acc)
  case Nil
  then show ?case
    by (cases acc) (auto split: option.splits)
next
  case (Cons m members)
  show ?case
    by (cases "filter (usable probes byTunnel now1) members")
       (simp_all add: Cons.IH select_step_eq split: option.split)
qed

lemma selectMember_eq:
  "selectMember probes members byTunnel now1 =
     (case filter (usable probes byTunnel now1) members of
        m # _ \<Rightarrow>
          Some (mb_Mark m, ''ready'',
            if tracker_verdict probes (mb_Tunnel m) now1 = ProbePassing
            then ReasonRecentHandshakeProbePassing else ReasonRecentHandshake,
            map mb_Mark (filter (usable probes byTunnel now1) members))
      | [] \<Rightarrow>
          (case first_index (recent byTunnel) 0 members of
             Some i \<Rightarrow> Some (mb_Mark (members ! i), ''degraded'', ReasonProbeFailingFailOpen,
                        chosenFirst members i)
           | None \<Rightarrow>
               (case members of
                  [] \<Rightarrow> None
                | m # _ \<Rightarrow> Some (mb_Mark m, ''degraded'', ReasonNoRecentHandshakeFailOpen,
                    memberMarks members))))"
  by (auto simp: selectMember_def select_fold Let_def split: list.splits option.splits)

lemma filter_enumerate_beyond: "k < n \<Longrightarrow> filter (\<lambda>(i, x). i \<noteq> k) (enumerate n xs) = enumerate n xs"
  by (induction xs arbitrary: n) auto

lemma filter_enumerate:
  "j < length xs \<Longrightarrow>
   map (\<lambda>(i, x). f x) (filter (\<lambda>(i, x). i \<noteq> n + j) (enumerate n xs)) = map f (take j xs @ drop (Suc j) xs)"
proof (induction xs arbitrary: n j)
  case (Cons x xs)
  have all: "map (\<lambda>(i, x). f x) (enumerate m xs) = map f xs" for m
    by (induction xs arbitrary: m) auto
  show ?case
    using Cons.IH [of "j - 1" "Suc n"] Cons.prems all
    by (cases j) (auto simp: filter_enumerate_beyond)
qed simp

lemma chosenFirst_mset:
  assumes "i < length members"
  shows "mset (chosenFirst members i) = mset (memberMarks members)"
proof -
  have "mset members = mset (take i members @ members ! i # drop (Suc i) members)"
    using assms by (simp add: id_take_nth_drop [symmetric])
  then show ?thesis
    using filter_enumerate [OF assms, of mb_Mark 0] by (simp add: chosenFirst_def memberMarks_def)
qed


section \<open>Reachable monitors\<close>

definition group_ok :: "groupState \<Rightarrow> bool" where
  "group_ok st \<longleftrightarrow>
     gr_Members (st_group st) \<noteq> [] \<and> st_order st \<noteq> [] \<and> hd (st_order st) = st_active st \<and>
     set (st_order st) \<subseteq> set (memberMarks (gr_Members (st_group st)))"

definition monitor_ok :: "Monitor \<Rightarrow> bool" where
  "monitor_ok m \<longleftrightarrow>
     list_all group_ok (mo_groups m) \<and>
     (\<forall>n i. mo_byName m n = Some i \<longrightarrow>
        i < length (mo_groups m) \<and> gr_Name (st_group (mo_groups m ! i)) = n)"

inductive monitor_reach :: "health_Config \<Rightarrow> Monitor \<Rightarrow> bool" for cfg where
  start: "health_New True cfg = Inr m \<Longrightarrow> monitor_reach cfg m"
| poll: "monitor_reach cfg m \<Longrightarrow> Poll rng device now1 m = Some (m', seen) \<Longrightarrow> monitor_reach cfg m'"
| observe: "monitor_reach cfg m \<Longrightarrow> ObserveProbe tunnel success at1 (Some m) = Some m' \<Longrightarrow>
    monitor_reach cfg m'"
| inherit: "monitor_reach cfg m \<Longrightarrow> InheritProbes prev tunnels (Some m) = Some m' \<Longrightarrow>
    monitor_reach cfg m'"

lemma add_groups_ok: "add_groups groups m = Inr m' \<Longrightarrow> monitor_ok m \<Longrightarrow> monitor_ok m'"
proof (induction groups m rule: add_groups.induct)
  case (2 g groups m)
  let ?st = "\<lparr>st_group = g, st_active = mb_Mark (gr_Members g ! 0), st_order = memberMarks (gr_Members g)\<rparr>"
  let ?m = "m\<lparr>mo_groups := mo_groups m @ [?st],
              mo_byName := (mo_byName m)(gr_Name g \<mapsto> length (mo_groups m))\<rparr>"
  have g: "gr_Members g \<noteq> []" "add_groups groups ?m = Inr m'"
    using 2(2) by (auto simp: Let_def split: if_splits)
  have "group_ok ?st"
    using g(1) by (simp add: group_ok_def memberMarks_def hd_map hd_conv_nth)
  moreover have "gr_Name (st_group ((mo_groups m @ [?st]) ! i)) = n"
    if "((mo_byName m)(gr_Name g \<mapsto> length (mo_groups m))) n = Some i" for n i
    using that 2(3) by (auto simp: monitor_ok_def nth_append split: if_splits)
  ultimately have "monitor_ok ?m"
    using 2(3) by (auto simp: monitor_ok_def less_Suc_eq)
  then show ?case
    using 2(1) 2(2) g by (auto simp: Let_def split: if_splits)
qed simp

lemma add_groups_probes: "add_groups groups m = Inr m' \<Longrightarrow> mo_probes m' = mo_probes m"
  by (induction groups m rule: add_groups.induct) (auto simp: Let_def split: if_splits)

lemma health_New_ok: "health_New client cfg = Inr m \<Longrightarrow> monitor_ok m"
proof -
  assume "health_New client cfg = Inr m"
  then obtain m0 where "add_groups (hc_Groups cfg) m0 = Inr m" "mo_groups m0 = []" "mo_byName m0 = Map.empty"
    by (auto simp: health_New_def Let_def split: if_splits option.splits)
  then show ?thesis
    using add_groups_ok by (simp add: monitor_ok_def)
qed

lemma those_map_Some: "(\<And>x. x \<in> set xs \<Longrightarrow> f x \<noteq> None) \<Longrightarrow> those (map f xs) = Some (map (the \<circ> f) xs)"
proof (induction xs)
  case (Cons x xs)
  then obtain y where "f x = Some y"
    by fastforce
  with Cons show ?case
    by simp
qed simp

text \<open>What a selection is, whatever the tunnels report.\<close>

lemma selectMember_shape:
  assumes "members \<noteq> []"
  obtains chosen gstate reason order where
    "selectMember probes members byTunnel now1 = Some (chosen, gstate, reason, order)"
    "order \<noteq> []" "hd order = chosen" "set order \<subseteq> set (memberMarks members)"
    "gstate = ''ready'' \<longleftrightarrow> list_ex (usable probes byTunnel now1) members"
    "gstate = ''ready'' \<longrightarrow> order = map mb_Mark (filter (usable probes byTunnel now1) members)"
    "gstate \<noteq> ''ready'' \<longrightarrow> mset order = mset (memberMarks members) \<and>
       chosen = (if list_ex (recent byTunnel) members
                 then mb_Mark (hd (filter (recent byTunnel) members)) else mb_Mark (hd members))"
proof (cases "filter (usable probes byTunnel now1) members")
  case (Cons m ms)
  then have "list_ex (usable probes byTunnel now1) members"
    by (metis filter_False list.distinct(1) list_ex_iff)
  moreover have "set (map mb_Mark (filter (usable probes byTunnel now1) members)) \<subseteq> set (memberMarks members)"
    by (auto simp: memberMarks_def)
  ultimately show ?thesis
    using that Cons by (simp add: selectMember_eq)
next
  case Nil
  then have none: "\<not> list_ex (usable probes byTunnel now1) members"
    by (simp add: filter_empty_conv list_ex_iff)
  show ?thesis
  proof (cases "first_index (recent byTunnel) 0 members")
    case None
    then have "\<not> list_ex (recent byTunnel) members"
      by (simp add: first_index_None filter_empty_conv list_ex_iff)
    with None Nil none assms that show ?thesis
      by (cases members) (simp_all add: selectMember_eq memberMarks_def)
  next
    case (Some i)
    then have i: "i < length members" "members ! i = hd (filter (recent byTunnel) members)"
      "recent byTunnel (members ! i)"
      using first_index_Some [OF Some] by auto
    then have "list_ex (recent byTunnel) members"
      using nth_mem [of i members] unfolding list_ex_iff by metis
    moreover have "set (chosenFirst members i) = set (memberMarks members)"
      using chosenFirst_mset [OF i(1)] by (metis set_mset_mset)
    moreover have "chosenFirst members i \<noteq> []" "hd (chosenFirst members i) = mb_Mark (members ! i)"
      by (simp_all add: chosenFirst_def)
    ultimately show ?thesis
      using that Nil Some none i chosenFirst_mset [OF i(1)] by (simp add: selectMember_eq)
  qed
qed

lemma poll_group_ok:
  assumes "group_ok st"
  shows "\<exists>st' g l. poll_group probes byTunnel now1 st = Some (st', g, l) \<and> group_ok st' \<and>
    st_group st' = st_group st \<and> gs_ActiveMark g = st_active st' \<and> gs_Name g = gr_Name (st_group st)"
proof -
  have "gr_Members (st_group st) \<noteq> []"
    using assms by (simp add: group_ok_def)
  then obtain chosen gstate reason order where
    "selectMember probes (gr_Members (st_group st)) byTunnel now1 = Some (chosen, gstate, reason, order)"
    "order \<noteq> []" "hd order = chosen" "set order \<subseteq> set (memberMarks (gr_Members (st_group st)))"
    by (elim selectMember_shape)
  with \<open>gr_Members (st_group st) \<noteq> []\<close> show ?thesis
    by (simp add: poll_group_def group_ok_def)
qed

lemma Poll_ok:
  assumes "monitor_ok m"
  shows "\<exists>m' seen. Poll rng device now1 m = Some (m', seen) \<and> monitor_ok m' \<and>
    map st_group (mo_groups m') = map st_group (mo_groups m) \<and> mo_byName m' = mo_byName m \<and>
    map gs_ActiveMark (sn_Groups (mo_snapshot m')) = map st_active (mo_groups m')"
proof -
  let ?th = "poll_thresholds (mo_groups m)"
  let ?names = "sort (rng (map fst ?th))"
  let ?ts = "map (\<lambda>n. query_tunnel device now1 (case map_of ?th n of None \<Rightarrow> 0 | Some d \<Rightarrow> d) n) ?names"
  let ?f = "poll_group (mo_probes m) (map_of (zip ?names ?ts)) now1"
  have ok: "\<exists>st' g l. ?f st = Some (st', g, l) \<and> group_ok st' \<and> st_group st' = st_group st \<and>
      gs_ActiveMark g = st_active st'" if "st \<in> set (mo_groups m)" for st
    using poll_group_ok [of st "mo_probes m" "map_of (zip ?names ?ts)" now1] that assms
    by (auto simp: monitor_ok_def list_all_iff)
  then have "those (map ?f (mo_groups m)) = Some (map (the \<circ> ?f) (mo_groups m))"
    by (intro those_map_Some) fastforce
  moreover have "group_ok (fst (the (?f st))) \<and> st_group (fst (the (?f st))) = st_group st \<and>
      gs_ActiveMark (fst (snd (the (?f st)))) = st_active (fst (the (?f st)))"
    if "st \<in> set (mo_groups m)" for st
    using ok [OF that] by force
  ultimately show ?thesis
    using assms by (simp add: Poll_def Let_def monitor_ok_def case_prod_unfold list_all_iff)
qed

lemma reach_ok: "monitor_reach cfg m \<Longrightarrow> monitor_ok m"
proof (induction rule: monitor_reach.induct)
  case (start m)
  then show ?case by (rule health_New_ok)
next
  case (poll m rng device now1 m' seen)
  then show ?case
    using Poll_ok [of m rng device now1] by auto
next
  case (observe m tunnel success at1 m')
  then show ?case
    by (auto simp: ObserveProbe_def monitor_ok_def)
next
  case (inherit m prev tunnels m')
  then show ?case
    by (auto simp: InheritProbes_def monitor_ok_def split: option.splits)
qed

lemma tracker_snapshot_eq:
  "tracker_snapshot tunnels t tunnel = (if tunnel \<in> set tunnels then pt_byTunnel t tunnel else None)"
  by (induction tunnels rule: rev_induct) (auto simp: tracker_snapshot_def split: option.splits)


section \<open>Properties\<close>

text \<open>
  (C21) Hysteresis of \<open>record\<close>, in terms of the results themselves. The first result of a tunnel
  decides. After that a success turns a failing tunnel passing exactly when it completes a run of
  \<open>RecoverAfter\<close> successes, a failure turns a passing one failing exactly when it completes a run of
  \<open>FailAfter\<close> failures, results of other tunnels change nothing, and the verdict is stale when
  the newest result is older than \<open>MaxAge\<close>.
\<close>

theorem probe_hysteresis:
  "passing policy tunnel (evs @ [(n, ok, at1)]) =
     (if n \<noteq> tunnel then passing policy tunnel evs
      else if results tunnel evs = [] then ok
      else if ok then passing policy tunnel evs \<or>
        pp_RecoverAfter policy \<le> int (trailing True (results tunnel evs @ [(ok, at1)]))
      else passing policy tunnel evs \<and>
        int (trailing False (results tunnel evs @ [(ok, at1)])) < pp_FailAfter policy) \<and>
   tracker_verdict (Some (run_tracker policy evs)) tunnel now1 =
     (if results tunnel evs = [] then ProbeUnknown
      else if pp_MaxAge policy < time_sub now1 (Max (snd ` set (results tunnel evs))) then ProbeStale
      else if passing policy tunnel evs then ProbePassing else ProbeFailing)"
  using passing_snoc [of policy tunnel evs ok at1] passing_other [of n tunnel policy evs ok at1]
    verdict_history [of policy evs tunnel now1]
  by simp

text \<open>
  (C22) \<open>selectMember\<close> on a non-empty group never panics and puts its choice first in the failover
  order. It reports ready exactly when some member has a recent handshake and no probe verdict
  against it, and the order then is all such members in preference order. Otherwise it fails open:
  the order holds every member once, led by the first with a recent handshake if there is one and by
  the primary if not.
\<close>

theorem selectMember_preference:
  assumes "members \<noteq> []"
  shows "\<exists>chosen gstate reason order.
    selectMember probes members byTunnel now1 = Some (chosen, gstate, reason, order) \<and>
    order \<noteq> [] \<and> hd order = chosen \<and>
    (gstate = ''ready'' \<longleftrightarrow> list_ex (usable probes byTunnel now1) members) \<and>
    (gstate = ''ready'' \<longrightarrow> order = map mb_Mark (filter (usable probes byTunnel now1) members)) \<and>
    (gstate \<noteq> ''ready'' \<longrightarrow> mset order = mset (memberMarks members) \<and>
       chosen = (if list_ex (recent byTunnel) members
                 then mb_Mark (hd (filter (recent byTunnel) members)) else mb_Mark (hd members)))"
  using selectMember_shape [OF assms, of probes byTunnel now1] by metis

theorem selectMember_preference_witness:
  "let a = \<lparr>mb_Tunnel = ''wg0'', mb_Mark = 1\<rparr>; b = \<lparr>mb_Tunnel = ''wg1'', mb_Mark = 2\<rparr>;
       s = \<lparr>ts_Tunnel = ''wg1'', ts_Signal = SessionRecent, ts_HandshakeAge = 5, ts_ReceiveBytes = 0,
            ts_TransmitBytes = 0, ts_Error = []\<rparr>
   in selectMember None [a, b] [''wg1'' \<mapsto> s] 10 = Some (2, ''ready'', ReasonRecentHandshake, [2]) \<and>
      (\<exists>chosen gstate reason order.
        selectMember None [a, b] [''wg1'' \<mapsto> s] 10 = Some (chosen, gstate, reason, order) \<and> hd order = chosen)"
  using selectMember_preference [of "[\<lparr>mb_Tunnel = ''wg0'', mb_Mark = 1\<rparr>, \<lparr>mb_Tunnel = ''wg1'', mb_Mark = 2\<rparr>]"]
  by (simp add: selectMember_def select_step_def tracker_verdict_def Eligible_def Let_def)

text \<open>
  (C23) Every monitor that \<open>New\<close> builds and any sequence of polls, probe results and inherited
  histories produces is sound. The next poll never panics, whatever the devices report, it keeps the
  groups, and for every group name the active mark is the first of the published failover order,
  which holds marks of that group's members only.
\<close>

theorem monitor_always_selects:
  assumes "monitor_reach cfg m"
  shows "\<exists>m' seen. Poll rng device now1 m = Some (m', seen) \<and>
    map st_group (mo_groups m') = map st_group (mo_groups m) \<and>
    (\<forall>n i. mo_byName m' n = Some i \<longrightarrow>
       i < length (mo_groups m') \<and> gr_Name (st_group (mo_groups m' ! i)) = n \<and>
       (\<exists>order. monitor_Order (Some m') n = Some order \<and> order \<noteq> [] \<and>
          monitor_Active (Some m') n = Some (hd order) \<and>
          set order \<subseteq> set (memberMarks (gr_Members (st_group (mo_groups m' ! i))))))"
proof -
  obtain m' seen where m': "Poll rng device now1 m = Some (m', seen)" "monitor_ok m'"
    "map st_group (mo_groups m') = map st_group (mo_groups m)"
    using Poll_ok [OF reach_ok [OF assms], of rng device now1] by blast
  then have "i < length (mo_groups m') \<and> gr_Name (st_group (mo_groups m' ! i)) = n \<and>
      group_ok (mo_groups m' ! i)" if "mo_byName m' n = Some i" for n i
    using that by (auto simp: monitor_ok_def list_all_length)
  with m' show ?thesis
    by (fastforce simp: monitor_Order_def monitor_Active_def group_ok_def)
qed

definition sample_health :: health_Config where
  "sample_health =
     \<lparr>hc_Interval = 10 * second,
      hc_Groups = [\<lparr>gr_Name = ''g'', gr_Members = [\<lparr>mb_Tunnel = ''wg0'', mb_Mark = 1\<rparr>, \<lparr>mb_Tunnel = ''wg1'', mb_Mark = 2\<rparr>],
                    gr_HealthyAfter = 180 * second\<rparr>],
      hc_Observe = True, hc_Probe = Some \<lparr>pp_MaxAge = 60 * second, pp_FailAfter = 3, pp_RecoverAfter = 2\<rparr>\<rparr>"

theorem monitor_always_selects_witness:
  "\<exists>m m' seen. health_New True sample_health = Inr m \<and> monitor_reach sample_health m \<and>
     Poll rev (\<lambda>_. None) 5 m = Some (m', seen) \<and> map st_group (mo_groups m') = map st_group (mo_groups m)"
proof -
  have "\<exists>m. health_New True sample_health = Inr m"
    by (simp add: health_New_def sample_health_def policy_validate_def second_def Let_def)
  then obtain m where m: "health_New True sample_health = Inr m" ..
  then have "monitor_reach sample_health m"
    by (rule monitor_reach.start)
  with m monitor_always_selects [OF this, of rev "\<lambda>_. None" 5] show ?thesis
    by blast
qed

text \<open>
  (C24) A reload keeps what the probes have learned: after \<open>InheritProbes\<close> into a new monitor with the
  same policy, an unchanged tunnel has the verdict it had before, at every time, and every other
  tunnel starts unknown.
\<close>

theorem InheritProbes_keeps_verdicts:
  assumes "health_New True cfg = Inr m" and "hc_Probe cfg = Some policy"
    and "mo_probes prev = Some pt" and "pt_policy pt = policy"
    and "InheritProbes (Some prev) tunnels (Some m) = Some m'"
  shows "tracker_verdict (mo_probes m') tunnel now1 =
    (if tunnel \<in> set tunnels then tracker_verdict (mo_probes prev) tunnel now1 else ProbeUnknown)"
proof -
  have "mo_probes m = Some (newProbeTracker policy)"
    using assms(1,2) add_groups_probes
    by (fastforce simp: health_New_def Let_def split: if_splits option.splits)
  with assms(3-5) show ?thesis
    by (cases "tunnel \<in> set tunnels")
       (auto simp: InheritProbes_def tracker_restore_def tracker_snapshot_eq newProbeTracker_def
         tracker_verdict_def split: option.split)
qed

theorem InheritProbes_keeps_verdicts_witness:
  "\<exists>m prev m'. health_New True sample_health = Inr m \<and>
     InheritProbes (Some prev) [''wg1''] (Some m) = Some m' \<and>
     tracker_verdict (mo_probes m') ''wg1'' 9 = ProbeFailing \<and>
     tracker_verdict (mo_probes m') ''wg0'' 9 = ProbeUnknown"
proof -
  have "\<exists>m. health_New True sample_health = Inr m"
    by (simp add: health_New_def sample_health_def policy_validate_def second_def Let_def)
  then obtain m where m: "health_New True sample_health = Inr m" ..
  let ?policy = "\<lparr>pp_MaxAge = 60 * second, pp_FailAfter = 3, pp_RecoverAfter = 2\<rparr>"
  let ?pt = "run_tracker ?policy [(''wg0'', True, 7), (''wg1'', False, 8)]"
  let ?prev = "m\<lparr>mo_probes := Some ?pt\<rparr>"
  obtain m' where m': "InheritProbes (Some ?prev) [''wg1''] (Some m) = Some m'"
    by (cases "mo_probes m") (auto simp: InheritProbes_def)
  have v: "tracker_verdict (Some ?pt) ''wg1'' 9 = ProbeFailing"
    by (simp add: run_tracker_def newProbeTracker_def tracker_record_def record_state_def
        tracker_verdict_def time_sub_def second_def boolCount_def maxInt64_def minInt64_def)
  have policy: "hc_Probe sample_health = Some ?policy"
    by (simp add: sample_health_def)
  have "tracker_verdict (mo_probes m') t 9 =
      (if t \<in> set [''wg1''] then tracker_verdict (mo_probes ?prev) t 9 else ProbeUnknown)" for t
    by (rule InheritProbes_keeps_verdicts [OF m policy _ _ m', of ?pt]) simp_all
  from this [of "''wg1''"] this [of "''wg0''"] m m' v show ?thesis
    by (intro exI [of _ m] exI [of _ ?prev] exI [of _ m']) simp
qed

end
