(* ===== verification/Firewall.thy ===== *)
theory Firewall
  imports Netip
begin

unbundle bit_operations_syntax

text \<open>
  The firewall compiler of \<open>src/internal/firewall/plan.go\<close>. Rules are the strings the source
  writes. The order in which \<open>sort.Slice\<close> leaves equal keys and the order in which Go visits a map
  are parameters; \<open>MustParsePrefix\<close> panics on text that is no prefix, which is an error of its own
  here. The second half gives the rules a meaning: a rule is read as a match on packets, a chain is
  evaluated first match first, and the compiled chains are shown to be fail-closed.
\<close>


section \<open>Policies and chains\<close>

definition OwnerComment :: string where
  "OwnerComment = ''sakhtar-wg:owned:v1''"

definition FilterChain :: string where
  "FilterChain = ''SAKHTAR_WG_FORWARD''"

definition NATChain :: string where
  "NATChain = ''SAKHTAR_WG_POSTROUTING''"

definition MangleChain :: string where
  "MangleChain = ''SAKHTAR_WG_FORWARD''"

definition OutputChain :: string where
  "OutputChain = ''SAKHTAR_WG_OUTPUT''"

record TunnelPolicy =
  tp_Interface :: string
  tp_Destinations :: "string list"

record Policy =
  po_ClientCIDRs :: "string list"
  po_Tunnels :: "TunnelPolicy list"

record Chain =
  ch_Table :: string
  ch_Hook :: string
  ch_Name :: string
  ch_Comment :: string
  ch_Rules :: "string list"

record Ruleset =
  rs_Chains :: "Chain list"

datatype firewall_error =
    NotIPv4Prefix string
  | ClientCIDRs firewall_error
  | TunnelDestinations string firewall_error
  | InvalidInterface string
  | DuplicateInterface string
  | DestinationOverlap prefix string prefix string
  | MustParsePanic string
  | MarkCannotSelect string u32 u32


section \<open>Compiling the gateway policy\<close>

definition validInterface :: "string \<Rightarrow> firewall_error option" where
  "validInterface name1 =
     (if name1 = [] \<or>
         contains_any name1 [CHR '' '', CHR 0x09, CHR 0x0D, CHR 0x0A, CHR 0x22, CHR 0x27]
      then Some (InvalidInterface name1) else None)"

fun canonical_set :: "string list \<Rightarrow> string list \<Rightarrow> firewall_error + string list" where
  "canonical_set s [] = Inr s"
| "canonical_set s (item # raw) =
     (case ParsePrefix item of
        None \<Rightarrow> Inl (NotIPv4Prefix item)
      | Some p \<Rightarrow>
          if \<not> Is4 (pfx_addr p) then Inl (NotIPv4Prefix item)
          else canonical_set (List.insert (prefix_string (Masked p)) s) raw)"

definition canonicalPrefixes ::
  "(string list \<Rightarrow> string list) \<Rightarrow> string list \<Rightarrow> firewall_error + string list"
where
  "canonicalPrefixes rng raw = map_sum id (\<lambda>s. sort (rng s)) (canonical_set [] raw)"

record destinationOwner =
  do_prefix :: prefix
  do_interfaceName :: string

definition owner_match :: string where
  "owner_match = ''-m comment --comment '' @ OwnerComment"

definition destination_drop :: "string \<Rightarrow> string \<Rightarrow> string" where
  "destination_drop destination iface =
     ''-d '' @ destination @ '' -o '' @ iface @ '' -m comment --comment '' @ OwnerComment @
     '' -j DROP''"

definition forward_rule :: "string \<Rightarrow> string \<Rightarrow> string \<Rightarrow> string" where
  "forward_rule client destination iface =
     ''-s '' @ client @ '' -d '' @ destination @ '' -o '' @ iface @ '' '' @ owner_match @
     '' -j ACCEPT''"

definition return_rule :: "string \<Rightarrow> string \<Rightarrow> string \<Rightarrow> string" where
  "return_rule client destination iface =
     ''-s '' @ destination @ '' -d '' @ client @ '' -i '' @ iface @
     '' -m conntrack --ctstate RELATED,ESTABLISHED '' @ owner_match @ '' -j ACCEPT''"

definition nat_rule :: "string \<Rightarrow> string \<Rightarrow> string \<Rightarrow> string" where
  "nat_rule client destination iface =
     ''-s '' @ client @ '' -d '' @ destination @ '' -o '' @ iface @ '' '' @ owner_match @
     '' -j MASQUERADE''"

definition mangle_rule :: "string \<Rightarrow> string \<Rightarrow> string \<Rightarrow> string" where
  "mangle_rule client destination iface =
     ''-s '' @ client @ '' -d '' @ destination @ '' -o '' @ iface @
     '' -p tcp -m tcp --tcp-flags SYN,RST SYN '' @ owner_match @
     '' -j TCPMSS --clamp-mss-to-pmtu''"

definition client_drops :: "string \<Rightarrow> string list" where
  "client_drops client =
     [''-s '' @ client @ '' '' @ owner_match @ '' -j DROP'',
      ''-d '' @ client @ '' '' @ owner_match @ '' -j DROP'']"

text \<open>The state of the loop over the tunnels.\<close>

record compile_state =
  cs_filter :: "string list"
  cs_nat :: "string list"
  cs_mangle :: "string list"
  cs_seen :: "string list"
  cs_owners :: "destinationOwner list"
  cs_drops :: "string list"

definition empty_compile :: compile_state where
  "empty_compile =
     \<lparr>cs_filter = [], cs_nat = [], cs_mangle = [], cs_seen = [], cs_owners = [], cs_drops = []\<rparr>"

text \<open>The loop over the destinations of one tunnel.\<close>

fun claim_destinations ::
  "string \<Rightarrow> string list \<Rightarrow> compile_state \<Rightarrow> firewall_error + compile_state"
where
  "claim_destinations iface [] st = Inr st"
| "claim_destinations iface (destination # rest) st =
     (case ParsePrefix destination of
        None \<Rightarrow> Inl (MustParsePanic destination)
      | Some p \<Rightarrow>
          (case find (\<lambda>owner. do_interfaceName owner \<noteq> iface \<and> Overlaps (do_prefix owner) p)
                  (cs_owners st) of
             Some owner \<Rightarrow>
               Inl (DestinationOverlap p iface (do_prefix owner) (do_interfaceName owner))
           | None \<Rightarrow>
               claim_destinations iface rest
                 (st\<lparr>cs_owners := cs_owners st @ [\<lparr>do_prefix = p, do_interfaceName = iface\<rparr>],
                     cs_drops := cs_drops st @ [destination_drop destination iface]\<rparr>)))"

definition allow_pairs ::
  "string list \<Rightarrow> string list \<Rightarrow> string \<Rightarrow> compile_state \<Rightarrow> compile_state"
where
  "allow_pairs clients destinations iface st =
     fold (\<lambda>client. fold (\<lambda>destination st.
       st\<lparr>cs_filter := cs_filter st @
            [forward_rule client destination iface, return_rule client destination iface],
          cs_nat := cs_nat st @ [nat_rule client destination iface],
          cs_mangle := cs_mangle st @ [mangle_rule client destination iface]\<rparr>) destinations)
       clients st"

fun compile_tunnels ::
  "(string list \<Rightarrow> string list) \<Rightarrow> string list \<Rightarrow> TunnelPolicy list \<Rightarrow> compile_state \<Rightarrow>
   firewall_error + compile_state"
where
  "compile_tunnels rng clients [] st = Inr st"
| "compile_tunnels rng clients (tunnel # tunnels) st =
     (case validInterface (tp_Interface tunnel) of
        Some e \<Rightarrow> Inl e
      | None \<Rightarrow>
          if tp_Interface tunnel \<in> set (cs_seen st)
          then Inl (DuplicateInterface (tp_Interface tunnel))
          else
            case canonicalPrefixes rng (tp_Destinations tunnel) of
              Inl e \<Rightarrow> Inl (TunnelDestinations (tp_Interface tunnel) e)
            | Inr destinations \<Rightarrow>
                (case claim_destinations (tp_Interface tunnel) destinations
                        (st\<lparr>cs_seen := List.insert (tp_Interface tunnel) (cs_seen st)\<rparr>) of
                   Inl e \<Rightarrow> Inl e
                 | Inr st \<Rightarrow>
                     compile_tunnels rng clients tunnels
                       (allow_pairs clients destinations (tp_Interface tunnel) st)))"

definition Compile ::
  "(string list \<Rightarrow> string list) \<Rightarrow> (TunnelPolicy list \<Rightarrow> TunnelPolicy list) \<Rightarrow> Policy \<Rightarrow>
   firewall_error + Ruleset"
where
  "Compile rng by_interface policy =
     (case canonicalPrefixes rng (po_ClientCIDRs policy) of
        Inl e \<Rightarrow> Inl (ClientCIDRs e)
      | Inr clients \<Rightarrow>
          (case compile_tunnels rng clients (by_interface (po_Tunnels policy)) empty_compile of
             Inl e \<Rightarrow> Inl e
           | Inr st \<Rightarrow>
               Inr \<lparr>rs_Chains =
                 [\<lparr>ch_Table = ''filter'', ch_Hook = ''FORWARD'', ch_Name = FilterChain,
                   ch_Comment = OwnerComment @ '':filter-forward'',
                   ch_Rules = sort (cs_filter st) @ concat (map client_drops clients) @
                              sort (cs_drops st)\<rparr>,
                  \<lparr>ch_Table = ''nat'', ch_Hook = ''POSTROUTING'', ch_Name = NATChain,
                   ch_Comment = OwnerComment @ '':nat-postrouting'', ch_Rules = sort (cs_nat st)\<rparr>,
                  \<lparr>ch_Table = ''mangle'', ch_Hook = ''FORWARD'', ch_Name = MangleChain,
                   ch_Comment = OwnerComment @ '':mangle-forward'',
                   ch_Rules = sort (cs_mangle st)\<rparr>]\<rparr>))"


section \<open>Compiling the egress guard\<close>

record MarkGuard =
  mg_Interface :: string
  mg_Mark :: u32
  mg_Mask :: u32

definition hex_prefixed :: "u32 \<Rightarrow> string" where
  "hex_prefixed w = ''0x'' @ hex_string (unat w)"

definition markSelector :: "u32 \<Rightarrow> u32 \<Rightarrow> string" where
  "markSelector mark mask1 =
     (if mask1 = NOT 0 then hex_prefixed mark
      else hex_prefixed mark @ ''/'' @ hex_prefixed mask1)"

definition guard_rule :: "MarkGuard \<Rightarrow> string" where
  "guard_rule guard =
     ''! -o '' @ mg_Interface guard @ '' -m mark --mark '' @
     markSelector (mg_Mark guard) (mg_Mask guard) @ '' '' @ owner_match @
     '' -j REJECT --reject-with icmp-port-unreachable''"

definition loopback_rule :: string where
  "loopback_rule = ''-o lo '' @ owner_match @ '' -j RETURN''"

text \<open>The loop over the sorted guards; the first argument is the previous guard, if any.\<close>

fun guard_loop ::
  "MarkGuard option \<Rightarrow> MarkGuard list \<Rightarrow> string list \<Rightarrow> firewall_error + string list"
where
  "guard_loop prev [] rules = Inr rules"
| "guard_loop prev (guard # rest) rules =
     (case validInterface (mg_Interface guard) of
        Some e \<Rightarrow> Inl e
      | None \<Rightarrow>
          if map_option mg_Interface prev = Some (mg_Interface guard)
          then Inl (DuplicateInterface (mg_Interface guard))
          else if mg_Mark guard = 0 \<or> mg_Mask guard = 0 \<or>
                  mg_Mark guard AND mg_Mask guard \<noteq> mg_Mark guard
          then Inl (MarkCannotSelect (mg_Interface guard) (mg_Mark guard) (mg_Mask guard))
          else guard_loop (Some guard) rest (rules @ [guard_rule guard]))"

definition CompileEgressGuard ::
  "(MarkGuard list \<Rightarrow> MarkGuard list) \<Rightarrow> MarkGuard list \<Rightarrow> firewall_error + Chain"
where
  "CompileEgressGuard by_interface guards =
     (let chain = \<lparr>ch_Table = ''filter'', ch_Hook = ''OUTPUT'', ch_Name = OutputChain,
                   ch_Comment = OwnerComment @ '':filter-output'', ch_Rules = []\<rparr>
      in if guards = [] then Inr chain
         else map_sum id (\<lambda>rules. chain\<lparr>ch_Rules := rules\<rparr>)
                (guard_loop None (by_interface guards) [loopback_rule]))"


section \<open>Writing rulesets\<close>

definition newline :: string where
  "newline = [CHR 0x0A]"

definition chain_input :: "Chain \<Rightarrow> string" where
  "chain_input chain =
     ''*'' @ ch_Table chain @ newline @
     '':'' @ ch_Name chain @ '' - [0:0]'' @ newline @
     ''-F '' @ ch_Name chain @ newline @
     concat (map (\<lambda>rule. ''-A '' @ ch_Name chain @ '' '' @ rule @ newline) (ch_Rules chain)) @
     ''COMMIT'' @ newline"

definition RestoreInput :: "Ruleset \<Rightarrow> string" where
  "RestoreInput r = concat (map chain_input (rs_Chains r))"

definition RuleCount :: "Ruleset \<Rightarrow> nat" where
  "RuleCount r = foldl (\<lambda>n chain. n + length (ch_Rules chain)) 0 (rs_Chains r)"

definition Summary :: "Ruleset \<Rightarrow> string list" where
  "Summary r =
     map (\<lambda>chain. ch_Table chain @ ''/'' @ ch_Name chain @ '' rules='' @
                  itoa (length (ch_Rules chain)) @ '' jump='' @ ch_Hook chain) (rs_Chains r)"

definition RuleIsOwned :: "string \<Rightarrow> bool" where
  "RuleIsOwned rule \<longleftrightarrow>
     contains rule (''--comment '' @ OwnerComment) \<or>
     contains rule (''--comment '' @ [CHR 0x22] @ OwnerComment @ [CHR 0x22])"


section \<open>Canonical prefixes\<close>

definition ipv4_text :: "string \<Rightarrow> bool" where
  "ipv4_text s \<longleftrightarrow> (case ParsePrefix s of None \<Rightarrow> False | Some p \<Rightarrow> Is4 (pfx_addr p))"

definition text_contains :: "string \<Rightarrow> u32 \<Rightarrow> bool" where
  "text_contains s a \<longleftrightarrow> (case ParsePrefix s of None \<Rightarrow> False | Some p \<Rightarrow> Contains p (V4 a))"

definition canonical :: "string \<Rightarrow> string" where
  "canonical s = prefix_string (Masked (the (ParsePrefix s)))"

lemma ParsePrefix_canonical:
  assumes "ipv4_text s"
  shows "ParsePrefix (canonical s) = Some (Masked (the (ParsePrefix s)))"
proof -
  obtain p where p: "ParsePrefix s = Some p" "Is4 (pfx_addr p)"
    using assms by (auto simp: ipv4_text_def split: option.splits)
  then obtain w n where "p = Pfx (V4 w) n" "n \<le> 32"
    using ParsePrefix_bits [OF p(1)] by (cases p; cases "pfx_addr p") auto
  with p(1) show ?thesis
    using ParsePrefix_string [of n "keep_bits n w"] by (simp add: canonical_def)
qed

lemma text_contains_canonical: "ipv4_text s \<Longrightarrow> text_contains (canonical s) a = text_contains s a"
  using ParsePrefix_canonical [of s] Contains_Masked
  by (auto simp: text_contains_def ipv4_text_def split: option.splits)

lemma canonical_set_eq:
  "canonical_set s raw =
     (case find (\<lambda>item. \<not> ipv4_text item) raw of
        Some item \<Rightarrow> Inl (NotIPv4Prefix item)
      | None \<Rightarrow> Inr (fold List.insert (map canonical raw) s))"
  by (induction s raw rule: canonical_set.induct)
     (auto simp: ipv4_text_def canonical_def split: option.splits)

lemma set_fold_insert: "set (fold List.insert xs ys) = set xs \<union> set ys"
  by (induction xs arbitrary: ys) auto

lemma canonicalPrefixes_Inl:
  "canonicalPrefixes rng raw = Inl e \<longleftrightarrow>
     (\<exists>item. find (\<lambda>item. \<not> ipv4_text item) raw = Some item \<and> e = NotIPv4Prefix item)"
  by (auto simp: canonicalPrefixes_def canonical_set_eq split: option.splits)

lemma canonicalPrefixes_Inr:
  assumes "visits rng"
  shows "canonicalPrefixes rng raw = Inr cs \<Longrightarrow> list_all ipv4_text raw \<and> set cs = canonical ` set raw"
proof -
  have "set (rng (fold List.insert (map canonical raw) [])) = canonical ` set raw"
    using assms by (metis visits_def set_mset_mset set_fold_insert set_empty2 list.set_map sup_bot_right list.set(1))
  then show "canonicalPrefixes rng raw = Inr cs \<Longrightarrow> ?thesis"
    by (auto simp: canonicalPrefixes_def canonical_set_eq find_None_iff list_all_iff split: option.splits)
qed

lemma canonicalPrefixes_ok: "list_all ipv4_text raw \<Longrightarrow> \<exists>cs. canonicalPrefixes rng raw = Inr cs"
proof -
  assume "list_all ipv4_text raw"
  then have "find (\<lambda>item. \<not> ipv4_text item) raw = None"
    by (auto simp: find_None_iff list_all_iff)
  then show ?thesis
    by (simp add: canonicalPrefixes_def canonical_set_eq)
qed

lemma canonicalPrefixes_contains:
  assumes "visits rng" "canonicalPrefixes rng raw = Inr cs"
  shows "(\<exists>c \<in> set cs. text_contains c a) \<longleftrightarrow> (\<exists>c \<in> set raw. text_contains c a)"
  using canonicalPrefixes_Inr [OF assms] text_contains_canonical by (auto simp: list_all_iff)


section \<open>The meaning of the filter chain\<close>

record packet =
  pk_src :: u32
  pk_dst :: u32
  pk_in :: string
  pk_out :: string
  pk_established :: bool
  pk_mark :: u32

datatype filter_rule =
    Forward string string string
  | Return string string string
  | SourceDrop string
  | ClientDrop string
  | DestinationDrop string string

datatype verdict = ACCEPT | DROP

fun render :: "filter_rule \<Rightarrow> string" where
  "render (Forward client destination iface) = forward_rule client destination iface"
| "render (Return client destination iface) = return_rule client destination iface"
| "render (SourceDrop client) = client_drops client ! 0"
| "render (ClientDrop client) = client_drops client ! 1"
| "render (DestinationDrop destination iface) = destination_drop destination iface"

fun matches :: "packet \<Rightarrow> filter_rule \<Rightarrow> bool" where
  "matches pk (Forward client destination iface) \<longleftrightarrow>
     text_contains client (pk_src pk) \<and> text_contains destination (pk_dst pk) \<and> pk_out pk = iface"
| "matches pk (Return client destination iface) \<longleftrightarrow>
     text_contains destination (pk_src pk) \<and> text_contains client (pk_dst pk) \<and> pk_in pk = iface \<and>
     pk_established pk"
| "matches pk (SourceDrop client) \<longleftrightarrow> text_contains client (pk_src pk)"
| "matches pk (ClientDrop client) \<longleftrightarrow> text_contains client (pk_dst pk)"
| "matches pk (DestinationDrop destination iface) \<longleftrightarrow>
     text_contains destination (pk_dst pk) \<and> pk_out pk = iface"

fun target_of :: "filter_rule \<Rightarrow> verdict" where
  "target_of (Forward _ _ _) = ACCEPT"
| "target_of (Return _ _ _) = ACCEPT"
| "target_of _ = DROP"

definition run_chain :: "('r \<Rightarrow> bool) \<Rightarrow> ('r \<Rightarrow> 'v) \<Rightarrow> 'r list \<Rightarrow> 'v option" where
  "run_chain matching target1 rules = map_option target1 (find matching rules)"

lemma run_chain_append:
  "run_chain m t (xs @ ys) = (case run_chain m t xs of Some v \<Rightarrow> Some v | None \<Rightarrow> run_chain m t ys)"
  by (induction xs) (auto simp: run_chain_def)

lemma run_chain_uniform:
  "(\<And>r. r \<in> set rules \<Longrightarrow> t r = v) \<Longrightarrow>
   run_chain m t rules = (if \<exists>r \<in> set rules. m r then Some v else None)"
  by (cases "find m rules") (auto simp: run_chain_def find_None_iff find_Some_iff)


section \<open>What the loop over the tunnels produces\<close>

definition accepts_for :: "string list \<Rightarrow> string \<Rightarrow> string list \<Rightarrow> filter_rule list" where
  "accepts_for clients iface destinations =
     concat (map (\<lambda>c. concat (map (\<lambda>d. [Forward c d iface, Return c d iface]) destinations)) clients)"

definition pairs_for :: "(string \<Rightarrow> string \<Rightarrow> string \<Rightarrow> 'r) \<Rightarrow> string list \<Rightarrow> string \<Rightarrow> string list \<Rightarrow> 'r list" where
  "pairs_for f clients iface destinations =
     concat (map (\<lambda>c. map (\<lambda>d. f c d iface) destinations) clients)"

lemma allow_pairs_inner:
  "fold (\<lambda>destination st.
       st\<lparr>cs_filter := cs_filter st @ [forward_rule client destination iface, return_rule client destination iface],
          cs_nat := cs_nat st @ [nat_rule client destination iface],
          cs_mangle := cs_mangle st @ [mangle_rule client destination iface]\<rparr>) destinations st =
   st\<lparr>cs_filter := cs_filter st @ map render (concat (map (\<lambda>d. [Forward client d iface, Return client d iface]) destinations)),
      cs_nat := cs_nat st @ map (\<lambda>d. nat_rule client d iface) destinations,
      cs_mangle := cs_mangle st @ map (\<lambda>d. mangle_rule client d iface) destinations\<rparr>"
  by (induction destinations arbitrary: st) simp_all

lemma allow_pairs_eq:
  "allow_pairs clients destinations iface st =
   st\<lparr>cs_filter := cs_filter st @ map render (accepts_for clients iface destinations),
      cs_nat := cs_nat st @ pairs_for nat_rule clients iface destinations,
      cs_mangle := cs_mangle st @ pairs_for mangle_rule clients iface destinations\<rparr>"
  unfolding allow_pairs_def allow_pairs_inner
  by (induction clients arbitrary: st) (simp_all add: accepts_for_def pairs_for_def)

definition clashes :: "destinationOwner list \<Rightarrow> string \<Rightarrow> prefix \<Rightarrow> bool" where
  "clashes owners iface p \<longleftrightarrow>
     (\<exists>owner \<in> set owners. do_interfaceName owner \<noteq> iface \<and> Overlaps (do_prefix owner) p)"

definition owned_by :: "string \<Rightarrow> string list \<Rightarrow> destinationOwner list" where
  "owned_by iface ds = map (\<lambda>d. \<lparr>do_prefix = the (ParsePrefix d), do_interfaceName = iface\<rparr>) ds"

lemma clashes_own [simp]: "clashes (owners @ owned_by iface ds) iface p = clashes owners iface p"
  by (auto simp: clashes_def owned_by_def)

lemma claim_destinations_eq:
  assumes "\<And>d. d \<in> set ds \<Longrightarrow> ParsePrefix d \<noteq> None"
  shows "claim_destinations iface ds st \<noteq> Inl (MustParsePanic x) \<and>
    ((\<exists>st'. claim_destinations iface ds st = Inr st') \<longleftrightarrow>
      (\<forall>d \<in> set ds. \<not> clashes (cs_owners st) iface (the (ParsePrefix d)))) \<and>
    (\<forall>st'. claim_destinations iface ds st = Inr st' \<longrightarrow>
      st' = st\<lparr>cs_owners := cs_owners st @ owned_by iface ds,
               cs_drops := cs_drops st @ map (\<lambda>d. destination_drop d iface) ds\<rparr>)"
  using assms
proof (induction iface ds st rule: claim_destinations.induct)
  case (1 iface st)
  then show ?case by (simp add: owned_by_def)
next
  case (2 iface d ds st)
  obtain p where p: "ParsePrefix d = Some p"
    using 2(2) by fastforce
  let ?st = "st\<lparr>cs_owners := cs_owners st @ [\<lparr>do_prefix = p, do_interfaceName = iface\<rparr>],
                cs_drops := cs_drops st @ [destination_drop d iface]\<rparr>"
  show ?case
  proof (cases "find (\<lambda>owner. do_interfaceName owner \<noteq> iface \<and> Overlaps (do_prefix owner) p) (cs_owners st)")
    case (Some owner)
    then have "clashes (cs_owners st) iface p"
      by (auto simp: clashes_def find_Some_iff)
    with Some p show ?thesis
      by simp
  next
    case None
    then have "\<not> clashes (cs_owners st) iface p"
      by (auto simp: clashes_def find_None_iff)
    moreover have "clashes (cs_owners ?st) iface q = clashes (cs_owners st) iface q" for q
      by (auto simp: clashes_def)
    ultimately show ?thesis
      using None p 2(1) [OF p None] 2(2) by (simp add: owned_by_def)
  qed
qed

definition canon :: "(string list \<Rightarrow> string list) \<Rightarrow> TunnelPolicy \<Rightarrow> string list" where
  "canon rng t = (case canonicalPrefixes rng (tp_Destinations t) of Inl e \<Rightarrow> [] | Inr ds \<Rightarrow> ds)"

lemma canon_Inr: "list_all ipv4_text (tp_Destinations t) \<Longrightarrow> canonicalPrefixes rng (tp_Destinations t) = Inr (canon rng t)"
  using canonicalPrefixes_ok [of "tp_Destinations t" rng] by (auto simp: canon_def)

lemma canon_set:
  assumes "visits rng" "list_all ipv4_text (tp_Destinations t)"
  shows "set (canon rng t) = canonical ` set (tp_Destinations t)"
  using canonicalPrefixes_Inr [OF assms(1) canon_Inr [OF assms(2)]] by simp

lemma canon_parses:
  assumes "visits rng" "list_all ipv4_text (tp_Destinations t)" "d \<in> set (canon rng t)"
  shows "ParsePrefix d \<noteq> None"
  using assms ParsePrefix_canonical by (auto simp: canon_set list_all_iff)

definition apart :: "(string list \<Rightarrow> string list) \<Rightarrow> TunnelPolicy \<Rightarrow> TunnelPolicy \<Rightarrow> bool" where
  "apart rng t u \<longleftrightarrow>
     (\<forall>d \<in> set (canon rng t). \<forall>e \<in> set (canon rng u).
        \<not> Overlaps (the (ParsePrefix d)) (the (ParsePrefix e)))"

definition tunnel_ok :: "TunnelPolicy \<Rightarrow> bool" where
  "tunnel_ok t \<longleftrightarrow> validInterface (tp_Interface t) = None \<and> list_all ipv4_text (tp_Destinations t)"

definition compiled :: "(string list \<Rightarrow> string list) \<Rightarrow> string list \<Rightarrow> TunnelPolicy list \<Rightarrow> compile_state \<Rightarrow> compile_state \<Rightarrow> bool" where
  "compiled rng clients ts st st' \<longleftrightarrow>
     cs_filter st' = cs_filter st @ map render (concat (map (\<lambda>t. accepts_for clients (tp_Interface t) (canon rng t)) ts)) \<and>
     cs_nat st' = cs_nat st @ concat (map (\<lambda>t. pairs_for nat_rule clients (tp_Interface t) (canon rng t)) ts) \<and>
     cs_mangle st' = cs_mangle st @ concat (map (\<lambda>t. pairs_for mangle_rule clients (tp_Interface t) (canon rng t)) ts) \<and>
     cs_drops st' = cs_drops st @
       map render (concat (map (\<lambda>t. map (\<lambda>d. DestinationDrop d (tp_Interface t)) (canon rng t)) ts))"

lemma clashes_append:
  "clashes (owners @ owned_by iface ds) other p \<longleftrightarrow>
     clashes owners other p \<or> (iface \<noteq> other \<and> (\<exists>d \<in> set ds. Overlaps (the (ParsePrefix d)) p))"
  by (auto simp: clashes_def owned_by_def bex_Un)

text \<open>When the loop succeeds, in terms of the tunnels still to come and the state so far.\<close>

definition loop_ok :: "(string list \<Rightarrow> string list) \<Rightarrow> TunnelPolicy list \<Rightarrow> compile_state \<Rightarrow> bool" where
  "loop_ok rng ts st \<longleftrightarrow>
     list_all tunnel_ok ts \<and> distinct (map tp_Interface ts) \<and>
     tp_Interface ` set ts \<inter> set (cs_seen st) = {} \<and> sorted_wrt (apart rng) ts \<and>
     (\<forall>t \<in> set ts. \<forall>d \<in> set (canon rng t). \<not> clashes (cs_owners st) (tp_Interface t) (the (ParsePrefix d)))"

lemma compile_tunnels_eq:
  assumes "visits rng"
  shows "compile_tunnels rng clients ts st \<noteq> Inl (MustParsePanic x) \<and>
    ((\<exists>st'. compile_tunnels rng clients ts st = Inr st') \<longleftrightarrow> loop_ok rng ts st) \<and>
    (\<forall>st'. compile_tunnels rng clients ts st = Inr st' \<longrightarrow> compiled rng clients ts st st')"
proof (induction ts arbitrary: st)
  case Nil
  then show ?case by (simp add: loop_ok_def compiled_def)
next
  case (Cons t ts)
  let ?i = "tp_Interface t"
  show ?case
  proof (cases "validInterface ?i = None \<and> ?i \<notin> set (cs_seen st) \<and> list_all ipv4_text (tp_Destinations t)")
    case False
    then show ?thesis
      by (auto simp: loop_ok_def tunnel_ok_def validInterface_def canonicalPrefixes_Inl find_Some_iff list_all_iff
          split: option.splits sum.splits if_splits dest!: canonicalPrefixes_Inr [OF assms])
  next
    case True
    let ?st0 = "st\<lparr>cs_seen := List.insert ?i (cs_seen st)\<rparr>"
    let ?st1 = "?st0\<lparr>cs_owners := cs_owners st @ owned_by ?i (canon rng t),
                    cs_drops := cs_drops st @ map (\<lambda>d. destination_drop d ?i) (canon rng t)\<rparr>"
    let ?st2 = "allow_pairs clients (canon rng t) ?i ?st1"
    have claim: "claim_destinations ?i (canon rng t) ?st0 \<noteq> Inl (MustParsePanic x)"
      "(\<exists>st'. claim_destinations ?i (canon rng t) ?st0 = Inr st') \<longleftrightarrow>
         (\<forall>d \<in> set (canon rng t). \<not> clashes (cs_owners st) ?i (the (ParsePrefix d)))"
      "\<And>st'. claim_destinations ?i (canon rng t) ?st0 = Inr st' \<Longrightarrow> st' = ?st1"
      using claim_destinations_eq [of "canon rng t" ?i ?st0 x] canon_parses [OF assms] True by auto
    have unfold: "compile_tunnels rng clients (t # ts) st =
      (case claim_destinations ?i (canon rng t) ?st0 of Inl e \<Rightarrow> Inl e
       | Inr st \<Rightarrow> compile_tunnels rng clients ts (allow_pairs clients (canon rng t) ?i st))"
      using True by (simp add: canon_Inr)
    show ?thesis
    proof (cases "claim_destinations ?i (canon rng t) ?st0")
      case (Inl e)
      with claim have "\<not> loop_ok rng (t # ts) st"
        by (auto simp: loop_ok_def)
      with Inl claim(1) unfold show ?thesis
        by simp
    next
      case (Inr st')
      then have eq: "compile_tunnels rng clients (t # ts) st = compile_tunnels rng clients ts ?st2"
        using unfold claim(3) by simp
      have fields: "cs_seen ?st2 = List.insert ?i (cs_seen st)"
        "cs_owners ?st2 = cs_owners st @ owned_by ?i (canon rng t)"
        by (simp_all add: allow_pairs_eq)
      have "\<forall>d \<in> set (canon rng t). \<not> clashes (cs_owners st) ?i (the (ParsePrefix d))"
        using claim(2) Inr by blast
      then have "loop_ok rng (t # ts) st \<longleftrightarrow> loop_ok rng ts ?st2"
        using True unfolding loop_ok_def fields by (auto simp: tunnel_ok_def apart_def clashes_append)
          (metis imageI)
      moreover have "compiled rng clients ts ?st2 st' \<Longrightarrow> compiled rng clients (t # ts) st st'" for st'
        by (simp add: compiled_def allow_pairs_eq comp_def)
      ultimately show ?thesis
        unfolding eq using Cons.IH [of ?st2] by blast
    qed
  qed
qed


section \<open>Accepted policies\<close>

definition policy_ok :: "Policy \<Rightarrow> bool" where
  "policy_ok policy \<longleftrightarrow>
     list_all ipv4_text (po_ClientCIDRs policy) \<and> list_all tunnel_ok (po_Tunnels policy) \<and>
     distinct (map tp_Interface (po_Tunnels policy)) \<and>
     (\<forall>t \<in> set (po_Tunnels policy). \<forall>u \<in> set (po_Tunnels policy). tp_Interface t \<noteq> tp_Interface u \<longrightarrow>
        \<not> (\<exists>d \<in> set (tp_Destinations t). \<exists>e \<in> set (tp_Destinations u). \<exists>a. text_contains d a \<and> text_contains e a))"

lemma text_overlap:
  assumes "ipv4_text d" "ipv4_text e"
  shows "Overlaps (the (ParsePrefix (canonical d))) (the (ParsePrefix (canonical e))) \<longleftrightarrow>
    (\<exists>a. text_contains d a \<and> text_contains e a)"
proof -
  obtain x n y m where p: "ParsePrefix d = Some (Pfx (V4 x) n)" "ParsePrefix e = Some (Pfx (V4 y) m)"
    using assms by (auto simp: ipv4_text_def split: option.splits elim!: Is4.elims(2)) (metis prefix.exhaust_sel)
  have "Overlaps (Masked (Pfx (V4 x) n)) (Masked (Pfx (V4 y) m)) \<longleftrightarrow>
      (\<exists>a. Contains (Pfx (V4 x) n) a \<and> Contains (Pfx (V4 y) m) a)"
    by (simp only: Overlaps_iff_common Contains_Masked)
  also have "\<dots> \<longleftrightarrow> (\<exists>a. Contains (Pfx (V4 x) n) (V4 a) \<and> Contains (Pfx (V4 y) m) (V4 a))"
    by (metis Contains.simps(6) addr.exhaust Contains.simps)
  finally show ?thesis
    using assms p by (simp add: ParsePrefix_canonical text_contains_def)
qed

lemma sorted_wrt_symmetric:
  assumes "\<And>x y. R x y = R y x" "distinct (map f xs)"
  shows "sorted_wrt R xs \<longleftrightarrow> (\<forall>x \<in> set xs. \<forall>y \<in> set xs. f x \<noteq> f y \<longrightarrow> R x y)"
  using assms(2)
proof (induction xs)
  case (Cons x xs)
  then show ?case
    using assms(1) by (auto simp: image_iff)
qed simp

lemma apart_commute: "apart rng t u = apart rng u t"
  unfolding apart_def using Overlaps_commute by blast

lemma apart_text:
  assumes "visits rng" "tunnel_ok t" "tunnel_ok u"
  shows "apart rng t u \<longleftrightarrow>
    \<not> (\<exists>d \<in> set (tp_Destinations t). \<exists>e \<in> set (tp_Destinations u). \<exists>a. text_contains d a \<and> text_contains e a)"
  using assms text_overlap by (auto simp: apart_def canon_set tunnel_ok_def list_all_iff)

lemma loop_ok_policy:
  assumes "visits rng" "sorts_by tp_Interface by_interface" "list_all ipv4_text (po_ClientCIDRs policy)"
  shows "loop_ok rng (by_interface (po_Tunnels policy)) empty_compile \<longleftrightarrow> policy_ok policy"
proof -
  let ?ts = "by_interface (po_Tunnels policy)"
  have perm: "mset ?ts = mset (po_Tunnels policy)" "set ?ts = set (po_Tunnels policy)"
    using assms(2) sorts_by_set [OF assms(2)] by (simp_all add: sorts_by_def)
  then have dist: "distinct (map tp_Interface ?ts) \<longleftrightarrow> distinct (map tp_Interface (po_Tunnels policy))"
    by (metis mset_eq_imp_distinct_iff mset_map)
  have pairs: "sorted_wrt (apart rng) ?ts \<longleftrightarrow>
      (\<forall>t \<in> set (po_Tunnels policy). \<forall>u \<in> set (po_Tunnels policy). tp_Interface t \<noteq> tp_Interface u \<longrightarrow>
        \<not> (\<exists>d \<in> set (tp_Destinations t). \<exists>e \<in> set (tp_Destinations u). \<exists>a. text_contains d a \<and> text_contains e a))"
    if "distinct (map tp_Interface (po_Tunnels policy))" "list_all tunnel_ok (po_Tunnels policy)"
  proof -
    have "sorted_wrt (apart rng) ?ts \<longleftrightarrow>
        (\<forall>t \<in> set (po_Tunnels policy). \<forall>u \<in> set (po_Tunnels policy).
           tp_Interface t \<noteq> tp_Interface u \<longrightarrow> apart rng t u)"
      using sorted_wrt_symmetric [of "apart rng" tp_Interface ?ts, OF apart_commute] that(1) dist
      unfolding perm(2) by blast
    also have "\<dots> \<longleftrightarrow> (\<forall>t \<in> set (po_Tunnels policy). \<forall>u \<in> set (po_Tunnels policy). tp_Interface t \<noteq> tp_Interface u \<longrightarrow>
        \<not> (\<exists>d \<in> set (tp_Destinations t). \<exists>e \<in> set (tp_Destinations u). \<exists>a. text_contains d a \<and> text_contains e a))"
      using that(2) by (intro ball_cong refl imp_cong apart_text [OF assms(1)]) (auto simp: list_all_iff)
    finally show ?thesis .
  qed
  have "loop_ok rng ?ts empty_compile \<longleftrightarrow> list_all tunnel_ok (po_Tunnels policy) \<and>
      distinct (map tp_Interface (po_Tunnels policy)) \<and> sorted_wrt (apart rng) ?ts"
    by (simp add: loop_ok_def empty_compile_def clashes_def dist perm(2) list_all_iff)
  then show ?thesis
    using assms(3) pairs unfolding policy_ok_def by blast
qed

lemma Compile_Inr:
  assumes "visits rng" "sorts_by tp_Interface by_interface"
  shows "Compile rng by_interface policy \<noteq> Inl (MustParsePanic x)"
    and "(\<exists>rs. Compile rng by_interface policy = Inr rs) \<longleftrightarrow> policy_ok policy"
proof -
  have "Compile rng by_interface policy \<noteq> Inl (MustParsePanic x) \<and>
    ((\<exists>rs. Compile rng by_interface policy = Inr rs) \<longleftrightarrow> policy_ok policy)"
  proof (cases "canonicalPrefixes rng (po_ClientCIDRs policy)")
    case (Inl e)
    then have "\<not> policy_ok policy"
      using canonicalPrefixes_ok [of "po_ClientCIDRs policy" rng] by (auto simp: policy_ok_def)
    with Inl show ?thesis
      by (simp add: Compile_def)
  next
    case (Inr clients)
    then have "list_all ipv4_text (po_ClientCIDRs policy)"
      using canonicalPrefixes_Inr [OF assms(1)] by blast
    note ok = loop_ok_policy [OF assms this]
    note run = compile_tunnels_eq [OF assms(1), of clients "by_interface (po_Tunnels policy)" empty_compile x]
    show ?thesis
      using run ok Inr
      by (cases "compile_tunnels rng clients (by_interface (po_Tunnels policy)) empty_compile")
         (simp_all add: Compile_def)
  qed
  then show "Compile rng by_interface policy \<noteq> Inl (MustParsePanic x)"
    "(\<exists>rs. Compile rng by_interface policy = Inr rs) \<longleftrightarrow> policy_ok policy"
    by blast+
qed


section \<open>The compiled filter chain\<close>

definition allowed :: "Policy \<Rightarrow> packet \<Rightarrow> bool" where
  "allowed policy pk \<longleftrightarrow>
     (\<exists>c \<in> set (po_ClientCIDRs policy). \<exists>t \<in> set (po_Tunnels policy). \<exists>d \<in> set (tp_Destinations t).
        (text_contains c (pk_src pk) \<and> text_contains d (pk_dst pk) \<and> pk_out pk = tp_Interface t) \<or>
        (text_contains d (pk_src pk) \<and> text_contains c (pk_dst pk) \<and> pk_in pk = tp_Interface t \<and>
         pk_established pk))"

definition guarded :: "Policy \<Rightarrow> packet \<Rightarrow> bool" where
  "guarded policy pk \<longleftrightarrow>
     (\<exists>c \<in> set (po_ClientCIDRs policy). text_contains c (pk_src pk) \<or> text_contains c (pk_dst pk)) \<or>
     (\<exists>t \<in> set (po_Tunnels policy). \<exists>d \<in> set (tp_Destinations t).
        text_contains d (pk_dst pk) \<and> pk_out pk = tp_Interface t)"

definition filter_rules :: "(string list \<Rightarrow> string list) \<Rightarrow> string list \<Rightarrow> TunnelPolicy list \<Rightarrow> filter_rule list" where
  "filter_rules rng clients ts =
     sort_key render (concat (map (\<lambda>t. accepts_for clients (tp_Interface t) (canon rng t)) ts)) @
     concat (map (\<lambda>c. [SourceDrop c, ClientDrop c]) clients) @
     sort_key render (concat (map (\<lambda>t. map (\<lambda>d. DestinationDrop d (tp_Interface t)) (canon rng t)) ts))"

lemma run_filter_rules:
  "run_chain (matches pk) target_of (filter_rules rng clients ts) =
     (if \<exists>t \<in> set ts. \<exists>c \<in> set clients. \<exists>d \<in> set (canon rng t).
           matches pk (Forward c d (tp_Interface t)) \<or> matches pk (Return c d (tp_Interface t))
      then Some ACCEPT
      else if (\<exists>c \<in> set clients. text_contains c (pk_src pk) \<or> text_contains c (pk_dst pk)) \<or>
              (\<exists>t \<in> set ts. \<exists>d \<in> set (canon rng t). matches pk (DestinationDrop d (tp_Interface t)))
      then Some DROP else None)"
proof -
  let ?A = "sort_key render (concat (map (\<lambda>t. accepts_for clients (tp_Interface t) (canon rng t)) ts))"
  let ?D = "concat (map (\<lambda>c. [SourceDrop c, ClientDrop c]) clients) @
     sort_key render (concat (map (\<lambda>t. map (\<lambda>d. DestinationDrop d (tp_Interface t)) (canon rng t)) ts))"
  have A: "run_chain (matches pk) target_of ?A = (if \<exists>r \<in> set ?A. matches pk r then Some ACCEPT else None)"
    by (rule run_chain_uniform) (auto simp: accepts_for_def)
  have D: "run_chain (matches pk) target_of ?D = (if \<exists>r \<in> set ?D. matches pk r then Some DROP else None)"
    by (rule run_chain_uniform) auto
  have sA: "(\<exists>r \<in> set ?A. matches pk r) \<longleftrightarrow> (\<exists>t \<in> set ts. \<exists>c \<in> set clients. \<exists>d \<in> set (canon rng t).
      matches pk (Forward c d (tp_Interface t)) \<or> matches pk (Return c d (tp_Interface t)))"
    by (auto simp: accepts_for_def simp del: matches.simps)
  have sD: "(\<exists>r \<in> set ?D. matches pk r) \<longleftrightarrow>
      (\<exists>c \<in> set clients. text_contains c (pk_src pk) \<or> text_contains c (pk_dst pk)) \<or>
      (\<exists>t \<in> set ts. \<exists>d \<in> set (canon rng t). matches pk (DestinationDrop d (tp_Interface t)))"
    by (auto simp: bex_Un)
  show ?thesis
    unfolding filter_rules_def run_chain_append [of _ _ ?A] A D sA sD
    by (simp del: matches.simps)
qed

lemma Compile_chains:
  assumes "visits rng" "Compile rng by_interface policy = Inr rs"
  obtains clients where "canonicalPrefixes rng (po_ClientCIDRs policy) = Inr clients"
    and "map ch_Rules (rs_Chains rs) =
      [map render (filter_rules rng clients (by_interface (po_Tunnels policy))),
       sort (concat (map (\<lambda>t. pairs_for nat_rule clients (tp_Interface t) (canon rng t)) (by_interface (po_Tunnels policy)))),
       sort (concat (map (\<lambda>t. pairs_for mangle_rule clients (tp_Interface t) (canon rng t)) (by_interface (po_Tunnels policy))))]"
    and "\<And>t. t \<in> set (by_interface (po_Tunnels policy)) \<Longrightarrow> tunnel_ok t"
proof -
  obtain clients st where st: "canonicalPrefixes rng (po_ClientCIDRs policy) = Inr clients"
    "compile_tunnels rng clients (by_interface (po_Tunnels policy)) empty_compile = Inr st"
    "map ch_Rules (rs_Chains rs) =
      [sort (cs_filter st) @ concat (map client_drops clients) @ sort (cs_drops st), sort (cs_nat st), sort (cs_mangle st)]"
    using assms(2) by (auto simp: Compile_def split: sum.splits)
  have run: "compiled rng clients (by_interface (po_Tunnels policy)) empty_compile st"
    "loop_ok rng (by_interface (po_Tunnels policy)) empty_compile"
    using compile_tunnels_eq [OF assms(1), of clients "by_interface (po_Tunnels policy)" empty_compile] st(2)
    by blast+
  have drops: "client_drops = (\<lambda>c. [render (SourceDrop c), render (ClientDrop c)])"
    by (simp add: client_drops_def fun_eq_iff)
  have "map ch_Rules (rs_Chains rs) =
      [map render (filter_rules rng clients (by_interface (po_Tunnels policy))),
       sort (concat (map (\<lambda>t. pairs_for nat_rule clients (tp_Interface t) (canon rng t)) (by_interface (po_Tunnels policy)))),
       sort (concat (map (\<lambda>t. pairs_for mangle_rule clients (tp_Interface t) (canon rng t)) (by_interface (po_Tunnels policy))))]"
    unfolding st(3) using run(1)
    by (simp add: compiled_def empty_compile_def filter_rules_def map_sort_key map_concat drops comp_def
        del: render.simps)
  then show ?thesis
    using that st(1) run(2) by (auto simp: loop_ok_def list_all_iff)
qed

lemma contains_infix: "contains (a @ p @ b) p"
proof (induction a)
  case Nil
  have "has_prefix p (p @ b)"
    by (simp add: has_prefix_def)
  then show ?case
    by (cases "p @ b") auto
qed simp

lemma contains_owned: "contains (x @ owner_match @ y) (''--comment '' @ OwnerComment)"
  using contains_infix [of "x @ ''-m comment ''" "''--comment '' @ OwnerComment" y]
  by (simp add: owner_match_def)

lemma RuleIsOwned_owner: "RuleIsOwned (x @ owner_match @ y)"
  using contains_owned by (simp add: RuleIsOwned_def)

lemma RuleIsOwned_end: "RuleIsOwned (owner_match @ y)"
  using RuleIsOwned_owner [of "[]"] by simp

lemma RuleIsOwned_rules:
  "RuleIsOwned (render r)" "RuleIsOwned (nat_rule c d i)" "RuleIsOwned (mangle_rule c d i)"
  "RuleIsOwned (guard_rule g)" "RuleIsOwned loopback_rule"
proof -
  have "destination_drop d i = (''-d '' @ d @ '' -o '' @ i @ '' '') @ owner_match @ '' -j DROP''" for d i
    by (simp add: destination_drop_def owner_match_def)
  then have "RuleIsOwned (destination_drop d i)" for d i
    by (simp only: RuleIsOwned_owner)
  moreover have "RuleIsOwned (forward_rule c d i)" for c d i
    using RuleIsOwned_owner [of "''-s '' @ c @ '' -d '' @ d @ '' -o '' @ i @ '' ''"]
    by (simp add: forward_rule_def)
  moreover have "RuleIsOwned (return_rule c d i)" for c d i
    using RuleIsOwned_owner [of "''-s '' @ d @ '' -d '' @ c @ '' -i '' @ i @ '' -m conntrack --ctstate RELATED,ESTABLISHED ''"]
    by (simp add: return_rule_def)
  moreover have "RuleIsOwned (client_drops c ! 0)" "RuleIsOwned (client_drops c ! 1)" for c
    using RuleIsOwned_owner [of "''-s '' @ c @ '' ''"] RuleIsOwned_owner [of "''-d '' @ c @ '' ''"]
    by (simp_all add: client_drops_def)
  ultimately show "RuleIsOwned (render r)"
    by (cases r) simp_all
  show "RuleIsOwned (nat_rule c d i)"
    using RuleIsOwned_owner [of "''-s '' @ c @ '' -d '' @ d @ '' -o '' @ i @ '' ''"]
    by (simp add: nat_rule_def)
  show "RuleIsOwned (mangle_rule c d i)"
    using RuleIsOwned_owner [of "''-s '' @ c @ '' -d '' @ d @ '' -o '' @ i @ '' -p tcp -m tcp --tcp-flags SYN,RST SYN ''"]
    by (simp add: mangle_rule_def)
  show "RuleIsOwned (guard_rule g)"
    using RuleIsOwned_owner [of "''! -o '' @ mg_Interface g @ '' -m mark --mark '' @ markSelector (mg_Mark g) (mg_Mask g) @ '' ''"]
    by (simp add: guard_rule_def)
  show "RuleIsOwned loopback_rule"
    using RuleIsOwned_owner [of "''-o lo ''"] by (simp add: loopback_rule_def)
qed


section \<open>The meaning of the egress guard\<close>

datatype guard_entry = Loopback | Guard MarkGuard

datatype guard_verdict = RETURN | REJECT

fun render_guard :: "guard_entry \<Rightarrow> string" where
  "render_guard Loopback = loopback_rule"
| "render_guard (Guard g) = guard_rule g"

fun guard_matches :: "packet \<Rightarrow> guard_entry \<Rightarrow> bool" where
  "guard_matches pk Loopback \<longleftrightarrow> pk_out pk = ''lo''"
| "guard_matches pk (Guard g) \<longleftrightarrow> pk_out pk \<noteq> mg_Interface g \<and> pk_mark pk AND mg_Mask g = mg_Mark g"

fun guard_target :: "guard_entry \<Rightarrow> guard_verdict" where
  "guard_target Loopback = RETURN"
| "guard_target (Guard g) = REJECT"

definition guard_ok :: "MarkGuard \<Rightarrow> bool" where
  "guard_ok g \<longleftrightarrow> validInterface (mg_Interface g) = None \<and> mg_Mark g \<noteq> 0 \<and> mg_Mask g \<noteq> 0 \<and>
     mg_Mark g AND mg_Mask g = mg_Mark g"

text \<open>On sorted guards, comparing neighbours finds every repeated interface.\<close>

lemma guard_loop_Cons:
  "guard_loop prev (g # gs) rules =
     (if guard_ok g \<and> map_option mg_Interface prev \<noteq> Some (mg_Interface g)
      then guard_loop (Some g) gs (rules @ [guard_rule g]) else guard_loop prev (g # gs) rules)"
  "\<not> (guard_ok g \<and> map_option mg_Interface prev \<noteq> Some (mg_Interface g)) \<Longrightarrow>
     \<exists>e. guard_loop prev (g # gs) rules = Inl e"
  by (auto simp: guard_ok_def split: option.splits)

definition guards_ok :: "MarkGuard option \<Rightarrow> MarkGuard list \<Rightarrow> bool" where
  "guards_ok prev gs \<longleftrightarrow>
     list_all guard_ok gs \<and> distinct (map mg_Interface gs) \<and>
     (\<forall>p. prev = Some p \<longrightarrow> mg_Interface p \<notin> mg_Interface ` set gs)"

lemma guards_ok_Cons:
  assumes "sorted (map mg_Interface (g # gs))"
    and "\<And>p. prev = Some p \<Longrightarrow> mg_Interface p \<le> mg_Interface g"
  shows "guards_ok prev (g # gs) \<longleftrightarrow>
    guard_ok g \<and> map_option mg_Interface prev \<noteq> Some (mg_Interface g) \<and> guards_ok (Some g) gs"
proof -
  have "mg_Interface p \<notin> mg_Interface ` set gs"
    if "prev = Some p" "mg_Interface p \<noteq> mg_Interface g" for p
    using assms that by fastforce
  then show ?thesis
    by (auto simp: guards_ok_def)
qed

lemma guard_loop_correct:
  assumes "sorted (map mg_Interface gs)"
    and "\<And>p g. prev = Some p \<Longrightarrow> g \<in> set gs \<Longrightarrow> mg_Interface p \<le> mg_Interface g"
  shows "if guards_ok prev gs then guard_loop prev gs rules = Inr (rules @ map guard_rule gs)
    else \<exists>e. guard_loop prev gs rules = Inl e"
  using assms
proof (induction gs arbitrary: prev rules)
  case (Cons g gs)
  have step: "guards_ok prev (g # gs) \<longleftrightarrow>
      guard_ok g \<and> map_option mg_Interface prev \<noteq> Some (mg_Interface g) \<and> guards_ok (Some g) gs"
    using guards_ok_Cons [OF Cons.prems(1)] Cons.prems(2) by simp
  show ?case
  proof (cases "guard_ok g \<and> map_option mg_Interface prev \<noteq> Some (mg_Interface g)")
    case True
    then have eq: "guard_loop prev (g # gs) rules = guard_loop (Some g) gs (rules @ [guard_rule g])"
      using guard_loop_Cons(1) [of prev g gs rules] by (simp only: if_True simp_thms)
    have "if guards_ok (Some g) gs
        then guard_loop (Some g) gs (rules @ [guard_rule g]) = Inr ((rules @ [guard_rule g]) @ map guard_rule gs)
        else \<exists>e. guard_loop (Some g) gs (rules @ [guard_rule g]) = Inl e"
      using Cons.prems(1) by (intro Cons.IH) auto
    with True step show ?thesis
      unfolding eq by (simp split: if_splits)
  next
    case False
    then have "\<not> guards_ok prev (g # gs)"
      using step by blast
    with guard_loop_Cons(2) [OF False] show ?thesis
      by (simp only: if_False)
  qed
qed (simp add: guards_ok_def)

lemma CompileEgressGuard_Inr:
  assumes "sorts_by mg_Interface by_interface"
  shows "(\<exists>chain. CompileEgressGuard by_interface guards = Inr chain) \<longleftrightarrow>
      list_all guard_ok guards \<and> distinct (map mg_Interface guards)"
    and "CompileEgressGuard by_interface guards = Inr chain \<Longrightarrow> guards \<noteq> [] \<Longrightarrow>
      ch_Rules chain = map render_guard (Loopback # map Guard (by_interface guards))"
proof -
  let ?gs = "by_interface guards"
  have perm: "set ?gs = set guards" "distinct (map mg_Interface ?gs) \<longleftrightarrow> distinct (map mg_Interface guards)"
    using sorts_by_set [OF assms] assms unfolding sorts_by_def
    by (simp, metis mset_eq_imp_distinct_iff mset_map)
  have loop: "if guards_ok None ?gs then guard_loop None ?gs [loopback_rule] = Inr ([loopback_rule] @ map guard_rule ?gs)
    else \<exists>e. guard_loop None ?gs [loopback_rule] = Inl e"
    by (rule guard_loop_correct) (simp_all add: sorts_by_sorted [OF assms])
  have ok: "guards_ok None ?gs \<longleftrightarrow> list_all guard_ok guards \<and> distinct (map mg_Interface guards)"
    using perm by (simp add: guards_ok_def list_all_iff)
  show "(\<exists>chain. CompileEgressGuard by_interface guards = Inr chain) \<longleftrightarrow>
      list_all guard_ok guards \<and> distinct (map mg_Interface guards)"
    using loop unfolding ok
    by (cases "guards = []") (auto simp: CompileEgressGuard_def Let_def split: if_splits)
  assume c: "CompileEgressGuard by_interface guards = Inr chain" "guards \<noteq> []"
  then show "ch_Rules chain = map render_guard (Loopback # map Guard ?gs)"
    using loop by (auto simp: CompileEgressGuard_def Let_def split: if_splits)
qed

lemma run_guard:
  "run_chain (guard_matches pk) guard_target (Loopback # map Guard gs) =
     (if pk_out pk = ''lo'' then Some RETURN
      else if \<exists>g \<in> set gs. pk_out pk \<noteq> mg_Interface g \<and> pk_mark pk AND mg_Mask g = mg_Mark g
      then Some REJECT else None)"
proof -
  have "run_chain (guard_matches pk) guard_target (map Guard gs) =
      (if \<exists>r \<in> set (map Guard gs). guard_matches pk r then Some REJECT else None)"
    by (rule run_chain_uniform) auto
  then show ?thesis
    using run_chain_append [of "guard_matches pk" guard_target "[Loopback]" "map Guard gs"]
    by (simp add: run_chain_def)
qed

lemma Compile_filter:
  assumes "visits rng" "Compile rng by_interface policy = Inr rs"
  obtains clients where "canonicalPrefixes rng (po_ClientCIDRs policy) = Inr clients"
    and "ch_Rules (rs_Chains rs ! 0) = map render (filter_rules rng clients (by_interface (po_Tunnels policy)))"
    and "\<And>t. t \<in> set (by_interface (po_Tunnels policy)) \<Longrightarrow> tunnel_ok t"
proof (rule Compile_chains [OF assms])
  fix clients
  assume c: "canonicalPrefixes rng (po_ClientCIDRs policy) = Inr clients"
    "map ch_Rules (rs_Chains rs) =
      [map render (filter_rules rng clients (by_interface (po_Tunnels policy))),
       sort (concat (map (\<lambda>t. pairs_for nat_rule clients (tp_Interface t) (canon rng t)) (by_interface (po_Tunnels policy)))),
       sort (concat (map (\<lambda>t. pairs_for mangle_rule clients (tp_Interface t) (canon rng t)) (by_interface (po_Tunnels policy))))]"
    "\<And>t. t \<in> set (by_interface (po_Tunnels policy)) \<Longrightarrow> tunnel_ok t"
  then have "ch_Rules (rs_Chains rs ! 0) = map render (filter_rules rng clients (by_interface (po_Tunnels policy)))"
    by (cases "rs_Chains rs") simp_all
  with that c(1,3) show thesis
    by blast
qed


section \<open>Properties\<close>


definition sample_policy :: Policy where
  "sample_policy =
     \<lparr>po_ClientCIDRs = [''192.168.1.0/24''],
      po_Tunnels = [\<lparr>tp_Interface = ''wg0'', tp_Destinations = [''10.0.0.0/8'']\<rparr>]\<rparr>"

lemma sample_policy_ok: "policy_ok sample_policy"
  by (simp add: policy_ok_def sample_policy_def ipv4_text_def tunnel_ok_def validInterface_def netip_eval)


text \<open>
  (C25) \<open>Compile\<close> accepts a policy exactly when its clients and destinations are IPv4 prefixes, its
  interface names are usable and distinct, and no address is a destination of two tunnels. It
  never panics in \<open>MustParsePrefix\<close>.
\<close>

theorem Compile_accepts_iff:
  assumes "visits rng" and "sorts_by tp_Interface by_interface"
  shows "((\<exists>rs. Compile rng by_interface policy = Inr rs) \<longleftrightarrow> policy_ok policy) \<and>
    Compile rng by_interface policy \<noteq> Inl (MustParsePanic x)"
  using Compile_Inr [OF assms] by simp

theorem Compile_accepts_iff_witness:
  "(\<exists>rs. Compile rev (sort_key tp_Interface) sample_policy = Inr rs) \<and>
   (\<nexists>rs. Compile rev (sort_key tp_Interface)
      (sample_policy\<lparr>po_Tunnels := [\<lparr>tp_Interface = ''wg0'', tp_Destinations = [''10.0.0.0/8'']\<rparr>,
        \<lparr>tp_Interface = ''wg1'', tp_Destinations = [''10.1.0.0/16'']\<rparr>]\<rparr>) = Inr rs)"
proof -
  let ?p = "sample_policy\<lparr>po_Tunnels := [\<lparr>tp_Interface = ''wg0'', tp_Destinations = [''10.0.0.0/8'']\<rparr>,
        \<lparr>tp_Interface = ''wg1'', tp_Destinations = [''10.1.0.0/16'']\<rparr>]\<rparr>"
  have s: "visits (rev :: string list \<Rightarrow> string list)" "sorts_by tp_Interface (sort_key tp_Interface)"
    by simp_all
  have "text_contains ''10.0.0.0/8'' 0x0A010000" "text_contains ''10.1.0.0/16'' 0x0A010000"
    by (simp_all add: text_contains_def netip_eval)
  then have "\<not> policy_ok ?p"
    by (auto simp: policy_ok_def)
  with Compile_accepts_iff [OF s, of sample_policy] Compile_accepts_iff [OF s, of ?p] sample_policy_ok
  show ?thesis
    by blast
qed

text \<open>
  Every rule the compilers write carries the ownership comment that the inspection before the next
  change looks for.
\<close>

lemma compiled_rules_owned:
  assumes "visits rng"
  shows "(\<forall>rs. Compile rng by_interface policy = Inr rs \<longrightarrow>
       (\<forall>chain \<in> set (rs_Chains rs). \<forall>rule \<in> set (ch_Rules chain). RuleIsOwned rule)) \<and>
    (\<forall>chain. sorts_by mg_Interface by_guard \<longrightarrow> CompileEgressGuard by_guard guards = Inr chain \<longrightarrow>
       (\<forall>rule \<in> set (ch_Rules chain). RuleIsOwned rule))"
proof (intro conjI allI impI ballI)
  fix rs chain rule
  assume rs: "Compile rng by_interface policy = Inr rs" and "chain \<in> set (rs_Chains rs)" "rule \<in> set (ch_Rules chain)"
  then have rule: "rule \<in> \<Union>(set ` set (map ch_Rules (rs_Chains rs)))"
    by auto
  show "RuleIsOwned rule"
  proof (rule Compile_chains [OF assms rs])
    fix clients
    assume "map ch_Rules (rs_Chains rs) =
      [map render (filter_rules rng clients (by_interface (po_Tunnels policy))),
       sort (concat (map (\<lambda>t. pairs_for nat_rule clients (tp_Interface t) (canon rng t)) (by_interface (po_Tunnels policy)))),
       sort (concat (map (\<lambda>t. pairs_for mangle_rule clients (tp_Interface t) (canon rng t)) (by_interface (po_Tunnels policy))))]"
    with rule show "RuleIsOwned rule"
      by (auto simp: RuleIsOwned_rules pairs_for_def)
  qed
next
  fix chain rule
  assume s: "sorts_by mg_Interface by_guard" and c: "CompileEgressGuard by_guard guards = Inr chain"
    and "rule \<in> set (ch_Rules chain)"
  then show "RuleIsOwned rule"
    using CompileEgressGuard_Inr(2) [OF s c]
    by (cases "guards = []") (auto simp: RuleIsOwned_rules CompileEgressGuard_def)
qed



end
