(* ===== verification/Net_Text.thy ===== *)
theory Net_Text
  imports Netip
begin

text \<open>
  The text forms of Go's \<open>net\<close> and \<open>net/url\<close> packages that the configuration and the proxy read:
  host and port pairs, ports, and absolute URLs. A pair that is joined splits into the same two
  parts again.
\<close>

section \<open>Hosts with ports\<close>

text \<open>\<open>net.JoinHostPort\<close>: a host with a colon is bracketed.\<close>

definition JoinHostPort :: "string \<Rightarrow> string \<Rightarrow> string" where
  [go_string_simps]:
  "JoinHostPort host port =
     (if CHR '':'' \<in> set host then ''['' @ host @ '']:'' @ port else host @ '':'' @ port)"

text \<open>\<open>net.SplitHostPort\<close>, \<open>None\<close> for its error.\<close>

definition SplitHostPort :: "string \<Rightarrow> (string \<times> string) option" where
  [go_string_simps]:
  "SplitHostPort hostport =
     (case last_index_byte hostport CHR '':'' of
        None \<Rightarrow> None
      | Some i \<Rightarrow>
          let port = drop (i + 1) hostport
          in if hd hostport = CHR ''['' then
               (case index_byte hostport CHR '']'' of
                  None \<Rightarrow> None
                | Some e \<Rightarrow>
                    if e + 1 \<noteq> i then None
                    else if CHR ''['' \<in> set (drop 1 hostport) \<or> CHR '']'' \<in> set (drop (e + 1) hostport)
                    then None
                    else Some (drop 1 (take e hostport), port))
             else if CHR '':'' \<in> set (take i hostport) \<or> CHR ''['' \<in> set hostport \<or> CHR '']'' \<in> set hostport
             then None
             else Some (take i hostport, port))"

definition port_of :: "string \<Rightarrow> int option" where
  [go_string_simps]:
  "port_of text =
     (case atoi text of None \<Rightarrow> None | Some n \<Rightarrow> if 1 \<le> n \<and> n \<le> 65535 then Some n else None)"

section \<open>Absolute URLs\<close>

record URL =
  url_Scheme :: string
  url_HasUser :: bool
  url_Host :: string

definition is_alpha :: "char \<Rightarrow> bool" where
  [go_string_simps]:
  "is_alpha c \<longleftrightarrow>
     (let n = (of_char c :: nat) in 65 \<le> n \<and> n \<le> 90 \<or> 97 \<le> n \<and> n \<le> 122)"

text \<open>\<open>getScheme\<close>: the scheme and the rest, no scheme at all, or an error for a leading colon.\<close>

fun get_scheme :: "nat \<Rightarrow> string \<Rightarrow> string \<Rightarrow> (string \<times> string) option" where
  "get_scheme i raw [] = Some ([], raw)"
| "get_scheme i raw (c # s) =
     (if is_alpha c then get_scheme (i + 1) raw s
      else if is_digit c \<or> c \<in> set ''+-.'' then
        (if i = 0 then Some ([], raw) else get_scheme (i + 1) raw s)
      else if c = CHR '':'' then (if i = 0 then None else Some (take i raw, s))
      else Some ([], raw))"

text \<open>
  \<open>unescape\<close>: each percent sign starts two hexadecimal digits. In a host only bytes from 0x80 on
  and the percent sign itself may be escaped, and the plain ASCII characters are restricted.
\<close>

definition host_char :: "char \<Rightarrow> bool" where
  [go_string_simps]:
  "host_char c \<longleftrightarrow>
     (is_alpha c \<or> is_digit c \<or> c \<in> set ''!$&()*+,;=:[]<>-_.~'' \<or> c = CHR 0x22 \<or> c = CHR 0x27 \<or>
      128 \<le> (of_char c :: nat))"

fun escapes_ok :: "bool \<Rightarrow> string \<Rightarrow> bool" where
  "escapes_ok in_host [] \<longleftrightarrow> True"
| "escapes_ok in_host (c # s) \<longleftrightarrow>
     (if c = CHR ''%'' then
        (case s of
           a # b # r \<Rightarrow>
             is_hex a \<and> is_hex b \<and>
             (in_host \<longrightarrow> 8 \<le> hex_val a \<or> (a = CHR ''2'' \<and> b = CHR ''5'')) \<and> escapes_ok in_host r
         | _ \<Rightarrow> False)
      else (in_host \<longrightarrow> host_char c) \<and> escapes_ok in_host s)"

definition valid_optional_port :: "string \<Rightarrow> bool" where
  [go_string_simps]:
  "valid_optional_port port \<longleftrightarrow>
     port = [] \<or> (hd port = CHR '':'' \<and> list_all is_digit (tl port))"

definition valid_userinfo :: "string \<Rightarrow> bool" where
  [go_string_simps]:
  "valid_userinfo s \<longleftrightarrow>
     list_all (\<lambda>c. is_alpha c \<or> is_digit c \<or> c \<in> set ''-._:~!$&()*+,;=%@'' \<or> c = CHR 0x27) s"

text \<open>\<open>parseHost\<close>: an IPv6 literal in brackets, or a name, each with an optional port.\<close>

definition parse_host :: "string \<Rightarrow> string option" where
  [go_string_simps]:
  "parse_host host =
     (case last_index_byte host CHR ''['' of
        Some (Suc i) \<Rightarrow> None
      | Some 0 \<Rightarrow>
          (case last_index_byte host CHR '']'' of
             None \<Rightarrow> None
           | Some j \<Rightarrow>
               let literal = drop 1 (take j host)
               in if valid_optional_port (drop (j + 1) host) \<and> escapes_ok True literal \<and>
                     (case ParseAddr (takeWhile (\<lambda>c. c \<noteq> CHR ''%'') literal) of
                        Some (V6 a z) \<Rightarrow> True | _ \<Rightarrow> False)
                  then Some host else None)
      | None \<Rightarrow>
          if (case index_byte host CHR '':'' of
                None \<Rightarrow> True | Some i \<Rightarrow> valid_optional_port (drop i host)) \<and>
             escapes_ok True host
          then Some host else None)"

definition parse_authority :: "string \<Rightarrow> (bool \<times> string) option" where
  [go_string_simps]:
  "parse_authority authority =
     (case last_index_byte authority CHR ''@'' of
        None \<Rightarrow> map_option (Pair False) (parse_host authority)
      | Some i \<Rightarrow>
          if valid_userinfo (take i authority) \<and> escapes_ok False (take i authority)
          then map_option (Pair True) (parse_host (drop (i + 1) authority))
          else None)"

text \<open>
  \<open>url.ParseRequestURI\<close>, restricted to what the daemon asks of the result: the scheme, whether
  there are credentials, and the host (with its escapes as written).
\<close>

definition ParseRequestURI :: "string \<Rightarrow> URL option" where
  [go_string_simps]:
  "ParseRequestURI raw =
     (if raw = [] \<or> list_ex (\<lambda>c. (of_char c :: nat) < 32 \<or> of_char c = (127 :: nat)) raw then None
      else if raw = ''*'' then Some \<lparr>url_Scheme = [], url_HasUser = False, url_Host = []\<rparr>
      else case get_scheme 0 raw raw of
        None \<Rightarrow> None
      | Some (scheme0, rest0) \<Rightarrow>
          let scheme = to_lower scheme0; rest = takeWhile (\<lambda>c. c \<noteq> CHR ''?'') rest0
          in if \<not> has_prefix ''/'' rest then
               (if scheme \<noteq> [] then Some \<lparr>url_Scheme = scheme, url_HasUser = False, url_Host = []\<rparr>
                else None)
             else if scheme \<noteq> [] \<and> has_prefix ''//'' rest then
               (let authority = takeWhile (\<lambda>c. c \<noteq> CHR ''/'') (drop 2 rest);
                    path = dropWhile (\<lambda>c. c \<noteq> CHR ''/'') (drop 2 rest)
                in case parse_authority authority of
                     None \<Rightarrow> None
                   | Some (user, host) \<Rightarrow>
                       if escapes_ok False path
                       then Some \<lparr>url_Scheme = scheme, url_HasUser = user, url_Host = host\<rparr>
                       else None)
             else if escapes_ok False rest
             then Some \<lparr>url_Scheme = scheme, url_HasUser = False, url_Host = []\<rparr>
             else None)"

definition http_url :: "URL \<Rightarrow> bool" where
  [go_string_simps]:
  "http_url u \<longleftrightarrow> url_Host u \<noteq> [] \<and> (url_Scheme u = ''http'' \<or> url_Scheme u = ''https'')"

section \<open>Joining and splitting\<close>

lemma SplitHostPort_JoinHostPort:
  assumes "CHR ''['' \<notin> set host" "CHR '']'' \<notin> set host"
    and "CHR '':'' \<notin> set port" "CHR ''['' \<notin> set port" "CHR '']'' \<notin> set port"
  shows "SplitHostPort (JoinHostPort host port) = Some (host, port)"
proof (cases "CHR '':'' \<in> set host")
  case True
  have "last_index_byte ((''['' @ host @ '']'') @ CHR '':'' # port) CHR '':'' = Some (length (''['' @ host @ '']''))"
    using assms(3) by (rule last_index_byte_append)
  then have l: "last_index_byte (CHR ''['' # host @ '']:'' @ port) CHR '':'' = Some (length host + 2)" by simp
  have e: "index_byte (CHR ''['' # host @ '']:'' @ port) CHR '']'' = Some (Suc (length host))"
    using index_byte_append [OF assms(2), of "'':'' @ port"] by simp
  show ?thesis
    using True assms l e by (simp add: JoinHostPort_def SplitHostPort_def Let_def)
next
  case False
  have l: "last_index_byte (host @ CHR '':'' # port) CHR '':'' = Some (length host)"
    using assms(3) by (rule last_index_byte_append)
  have "hd (host @ CHR '':'' # port) \<noteq> CHR ''[''" using assms(1) by (cases host) auto
  then show ?thesis
    using False assms l by (simp add: JoinHostPort_def SplitHostPort_def Let_def)
qed

end
