(* ===== verification/Config_Types.thy ===== *)
theory Config_Types
  imports Net_Text
begin

text \<open>
  The configuration of the daemon, \<open>src/cmd/sakhtar-wg/config.go\<close>: the constants and the structures
  that the YAML file fills. A Go \<open>int\<close> is an \<open>int\<close> here; the sums and products whose range
  matters wrap explicitly. A list stands for both the nil and the empty slice. The map of the
  per-tunnel exceptions is an association list with distinct keys.
\<close>

definition maxConfigBytes :: nat where
  "maxConfigBytes = 1048576"

definition defaultMaxConnections :: int where "defaultMaxConnections = 1024"
definition defaultHandshakeTimeout :: int where "defaultHandshakeTimeout = 5"
definition defaultShutdownGrace :: int where "defaultShutdownGrace = 10"
definition defaultMaxClientHelloBytes :: int where "defaultMaxClientHelloBytes = 65536"
definition defaultMaxHTTPHeaderBytes :: int where "defaultMaxHTTPHeaderBytes = 65536"
definition defaultDNSPositiveCapacity :: int where "defaultDNSPositiveCapacity = 4096"
definition defaultDNSNegativeCapacity :: int where "defaultDNSNegativeCapacity = 1024"
definition defaultDNSMaxPending :: int where "defaultDNSMaxPending = 128"
definition defaultDNSMinPositiveTTL :: int where "defaultDNSMinPositiveTTL = 5"
definition defaultDNSMaxPositiveTTL :: int where "defaultDNSMaxPositiveTTL = 300"
definition defaultDNSNegativeTTL :: int where "defaultDNSNegativeTTL = 20"
definition defaultDNSTransientTTL :: int where "defaultDNSTransientTTL = 2"
definition defaultDNSStaleWindow :: int where "defaultDNSStaleWindow = 3600"
definition defaultDNSResolverTimeout :: int where "defaultDNSResolverTimeout = 5"
definition defaultConnectAttemptCap :: int where "defaultConnectAttemptCap = 4"
definition defaultManagementReadHeaderTimeout :: int where "defaultManagementReadHeaderTimeout = 5"
definition defaultManagementWriteTimeout :: int where "defaultManagementWriteTimeout = 10"
definition defaultManagementIdleTimeout :: int where "defaultManagementIdleTimeout = 30"
definition defaultManagementShutdownTimeout :: int where "defaultManagementShutdownTimeout = 5"
definition defaultManagementMaxHeaderBytes :: int where "defaultManagementMaxHeaderBytes = 16384"
definition maxConfiguredConnections :: int where "maxConfiguredConnections = 1048576"
definition maxConfiguredProtocolBytes :: int where "maxConfiguredProtocolBytes = 262144"
definition maxDNSCapacity :: int where "maxDNSCapacity = 1048576"
definition maxConnectAttemptCap :: int where "maxConnectAttemptCap = 64"

definition defaultResolver :: string where "defaultResolver = ''1.1.1.1:53''"
definition maxResolvers :: nat where "maxResolvers = 4"

definition maxDurationSeconds :: int where
  "maxDurationSeconds = maxInt64 div second"

definition validSeconds :: "int \<Rightarrow> bool" where
  "validSeconds seconds \<longleftrightarrow> 0 \<le> seconds \<and> seconds \<le> maxDurationSeconds"

text \<open>\<open>time.Duration(n) * time.Second\<close>.\<close>

definition seconds :: "int \<Rightarrow> duration" where
  "seconds n = wrap64 (n * second)"

type_synonym ResolverList = "string list"

definition orDefault :: "ResolverList \<Rightarrow> ResolverList" where
  "orDefault l = (if l = [] then [defaultResolver] else l)"

record HealthProbe =
  hp_Enabled :: bool
  hp_Endpoint :: string
  hp_Via :: string
  hp_Interval :: int
  hp_Timeout :: int
  hp_JitterPercent :: int
  hp_MaxConcurrent :: int
  hp_FailAfter :: int
  hp_RecoverAfter :: int
  hp_MaxAge :: int

record Management =
  mg_Disabled :: bool
  mg_Listen :: string
  mg_ReadHeaderTimeout :: int
  mg_WriteTimeout :: int
  mg_IdleTimeout :: int
  mg_ShutdownTimeout :: int
  mg_MaxHeaderBytes :: int
  mg_Pprof :: bool

record PfSync =
  pf_Enabled :: bool
  pf_SSHHost :: string
  pf_SSHPort :: int
  pf_SSHUser :: string
  pf_SSHKey :: string
  pf_KnownHosts :: string
  pf_FromTunnel :: string
  pf_KeepNetworks :: "string list"

record config_Group =
  grp_Name :: string
  grp_Members :: "string list"
  grp_HealthyAfter :: int

record Gateway =
  gw_Enabled :: bool
  gw_ClientCIDRs :: "string list"
  gw_ListListen :: string

record RouteSource =
  rsrc_Name :: string
  rsrc_URL :: string
  rsrc_Format :: string
  rsrc_Via :: string

record config_Peer =
  peer_PublicKey :: string
  peer_Endpoint :: string
  peer_AllowedIPs :: "string list"
  peer_Keepalive :: int

record Tunnel =
  tun_Name :: string
  tun_PrivateKey :: string
  tun_Address :: string
  tun_MTU :: int
  tun_Fwmark :: int
  tun_FwmarkMask :: u32
  tun_Table :: int
  tun_RulePriority :: int
  tun_AdoptExisting :: bool
  tun_Routes :: "string list"
  tun_RouteSources :: "RouteSource list"
  tun_Peer :: config_Peer
  tun_Resolver :: ResolverList

record DestinationPolicy =
  dp_DirectAllowCIDRs :: "string list"
  dp_TunnelAllowCIDRs :: "(string \<times> string list) list"

record ProxyRule =
  rule_Via :: string
  rule_Suffixes :: "string list"

record Proxy =
  px_HTTPSListen :: string
  px_HTTPListen :: string
  px_Default :: string
  px_AllowedSourceCIDRs :: "string list"
  px_MaxConnections :: int
  px_MaxConnectionsPerSource :: int
  px_HandshakeTimeout :: int
  px_DialTimeout :: int
  px_IdleTimeout :: int
  px_ShutdownGrace :: int
  px_MaxClientHelloBytes :: int
  px_MaxHTTPHeaderBytes :: int
  px_DestinationPolicy :: DestinationPolicy
  px_Resolver :: ResolverList
  px_DNSCacheTTL :: int
  px_DNSPositiveCapacity :: int
  px_DNSNegativeCapacity :: int
  px_DNSMaxPending :: int
  px_DNSMinPositiveTTL :: int
  px_DNSMaxPositiveTTL :: int
  px_DNSNegativeTTL :: int
  px_DNSTransientFailureTTL :: int
  px_DNSStaleWindow :: int
  px_DNSStalePolicy :: string
  px_DNSResolverTimeout :: int
  px_AddressFamilyStrategy :: string
  px_ConnectAttemptCap :: int
  px_Rules :: "ProxyRule list"

record Config =
  cfg_Tunnels :: "Tunnel list"
  cfg_Groups :: "config_Group list"
  cfg_Proxy :: Proxy
  cfg_Gateway :: Gateway
  cfg_RouteRefresh :: int
  cfg_HealthInterval :: int
  cfg_PfSync :: PfSync
  cfg_Management :: Management
  cfg_HealthProbe :: HealthProbe

text \<open>The look-ups by egress name and by mark.\<close>

fun mark_of :: "string \<Rightarrow> Tunnel list \<Rightarrow> int" where
  "mark_of via [] = 0"
| "mark_of via (t # ts) = (if tun_Name t = via then tun_Fwmark t else mark_of via ts)"

definition markFor :: "Config \<Rightarrow> string \<Rightarrow> int" where
  "markFor c via = (if via = ''direct'' \<or> via = [] then 0 else mark_of via (cfg_Tunnels c))"

fun resolver_override :: "int \<Rightarrow> Tunnel list \<Rightarrow> ResolverList option" where
  "resolver_override mark [] = None"
| "resolver_override mark (t # ts) =
     (if tun_Fwmark t = mark \<and> tun_Resolver t \<noteq> [] then Some (tun_Resolver t)
      else resolver_override mark ts)"

definition resolversFor :: "Config \<Rightarrow> int \<Rightarrow> ResolverList" where
  "resolversFor c mark =
     (case resolver_override mark (cfg_Tunnels c) of
        Some l \<Rightarrow> l | None \<Rightarrow> orDefault (px_Resolver (cfg_Proxy c)))"

text \<open>
  Which tunnels a reload leaves alone. The comparison reads the whole structure except the
  resolver override.
\<close>

definition sameTunnelSpec :: "Tunnel \<Rightarrow> Tunnel \<Rightarrow> bool" where
  "sameTunnelSpec a b \<longleftrightarrow> a\<lparr>tun_Resolver := []\<rparr> = b\<lparr>tun_Resolver := []\<rparr>"

definition unchangedTunnels :: "Config \<Rightarrow> Config \<Rightarrow> string list" where
  "unchangedTunnels old new =
     (let previous = foldl (\<lambda>m t. m(tun_Name t \<mapsto> t)) Map.empty (cfg_Tunnels old)
      in map tun_Name (filter (\<lambda>t. case previous (tun_Name t) of
           None \<Rightarrow> False | Some prev \<Rightarrow> sameTunnelSpec prev t) (cfg_Tunnels new)))"

end
