(* ===== verification/Proxy_Dial.thy ===== *)
theory Proxy_Dial
  imports Net_Text "HOL-Library.AList"
begin

text \<open>
  The address selection and the bounded retry of the proxy, \<open>src/internal/proxy/dial.go\<close>: the
  rotating selector, the split of a connect budget over the attempts that are left, the retry
  loop, and the per-egress counters. The lemmas show what the proxy relies on: only addresses
  the policy admits are ever dialled, each at most once per request; the rotation gives every
  candidate its turn; a budget of a second per candidate reaches the last of them even when all
  the earlier ones swallow their packets; and the counters keep a bounded number of labels
  without losing an event.
\<close>


section \<open>The rotating selector\<close>

text \<open>The strategy is a string in the source; an unknown one acts as \<open>IPv4First\<close>.\<close>

type_synonym AddressFamilyStrategy = string

definition IPv4First :: AddressFamilyStrategy where
  "IPv4First = ''ipv4_first''"

definition IPv6First :: AddressFamilyStrategy where
  "IPv6First = ''ipv6_first''"

definition Interleave :: AddressFamilyStrategy where
  "Interleave = ''interleave''"

definition strategy_Valid :: "AddressFamilyStrategy \<Rightarrow> bool" where
  "strategy_Valid s \<longleftrightarrow> s = IPv4First \<or> s = IPv6First \<or> s = Interleave"

record RotatingSelector =
  Strategy :: AddressFamilyStrategy
  MaxAttempts :: int
  cursor :: "64 word"

text \<open>The loop of \<open>reverse\<close>: it swaps the two ends and moves both inwards.\<close>

function reverse_loop :: "nat \<Rightarrow> nat \<Rightarrow> 'a list \<Rightarrow> 'a list" where
  "reverse_loop left right xs =
     (if left < right
      then reverse_loop (left + 1) (right - 1) (xs[left := xs ! right, right := xs ! left])
      else xs)"
  by pat_completeness auto

termination
  by (relation "measure (\<lambda>(left, right, xs). right - left)") auto

declare reverse_loop.simps [simp del]

definition reverse :: "'a list \<Rightarrow> 'a list" where
  "reverse xs = reverse_loop 0 (length xs - 1) xs"

text \<open>The two slices share the array of the whole: each reversal is seen by the next.\<close>

definition rotate_addrs :: "'a list \<Rightarrow> 64 word \<Rightarrow> 'a list" where
  "rotate_addrs xs sequence =
     (if length xs < 2 then xs
      else let start = unat sequence mod length xs;
               ys = reverse (take start xs) @ drop start xs;
               zs = take start ys @ reverse (drop start ys)
           in reverse zs)"

text \<open>The filter loop; a missing policy (the nil function) admits everything.\<close>

fun select_loop :: "(addr \<Rightarrow> bool) option \<Rightarrow> addr list \<Rightarrow> addr set \<Rightarrow> addr list \<Rightarrow> addr list \<Rightarrow> addr list \<times> addr list"
where
  "select_loop allowed [] seen v4 v6 = (v4, v6)"
| "select_loop allowed (a # as) seen v4 v6 =
     (if \<not> IsValid a \<or> Zone a \<noteq> [] then select_loop allowed as seen v4 v6
      else let a' = Unmap a
           in if (case allowed of None \<Rightarrow> False | Some ok \<Rightarrow> \<not> ok a')
              then select_loop allowed as seen v4 v6
              else if a' \<in> seen then select_loop allowed as seen v4 v6
              else if Is4 a' then select_loop allowed as (insert a' seen) (v4 @ [a']) v6
              else select_loop allowed as (insert a' seen) v4 (v6 @ [a']))"

fun interleave :: "'a list \<Rightarrow> 'a list \<Rightarrow> 'a list" where
  "interleave [] [] = []"
| "interleave (x # xs) [] = x # interleave xs []"
| "interleave [] (y # ys) = y # interleave [] ys"
| "interleave (x # xs) (y # ys) = x # y # interleave xs ys"

definition family_order :: "AddressFamilyStrategy \<Rightarrow> 64 word \<Rightarrow> addr list \<Rightarrow> addr list \<Rightarrow> addr list" where
  "family_order strategy sequence v4 v6 =
     (if strategy = IPv6First then v6 @ v4
      else if strategy = Interleave then
        (if sequence mod 2 = 1 then interleave v4 v6 else interleave v6 v4)
      else v4 @ v6)"

definition Select :: "RotatingSelector \<Rightarrow> addr list \<Rightarrow> (addr \<Rightarrow> bool) option \<Rightarrow> addr list \<times> RotatingSelector"
where
  "Select s input allowed =
     (if MaxAttempts s \<le> 0 then ([], s)
      else let (v4, v6) = select_loop allowed input {} [] [];
               s' = s\<lparr>cursor := cursor s + 1\<rparr>;
               sequence = cursor s' - 1;
               ordered = family_order (Strategy s) sequence
                           (rotate_addrs v4 sequence) (rotate_addrs v6 sequence)
           in (if MaxAttempts s < int (length ordered) then take (nat (MaxAttempts s)) ordered
               else ordered, s'))"


section \<open>The counters\<close>

definition DirectEgress :: string where
  "DirectEgress = ''direct''"

definition maxEgressLabels :: nat where
  "maxEgressLabels = 16"

text \<open>
  The entries of the counter map with their values, in the order of their first use; the nil map
  has none.
\<close>

type_synonym ConnectMetrics = "(string \<times> 64 word) list"

definition counter_add :: "string \<Rightarrow> ConnectMetrics \<Rightarrow> ConnectMetrics" where
  "counter_add key m = AList.update key ((case map_of m key of None \<Rightarrow> 0 | Some c \<Rightarrow> c) + 1) m"

definition connect_outcome :: "bool \<Rightarrow> string" where
  "connect_outcome success = (if success then ''success'' else ''failure'')"

definition connect_record :: "bool \<Rightarrow> string \<Rightarrow> ConnectMetrics \<Rightarrow> ConnectMetrics" where
  "connect_record success egress0 m =
     (let egress = (if egress0 = [] then DirectEgress else egress0);
          outcome = connect_outcome success;
          cls = (if egress = DirectEgress then ''direct'' else ''marked'');
          key = outcome @ ''|'' @ cls @ ''|'' @ egress
      in if map_of m key = None \<and> maxEgressLabels * 4 \<le> length m
         then counter_add (outcome @ ''|'' @ cls @ ''|other'') m
         else counter_add key m)"

definition connect_Snapshot :: "ConnectMetrics \<Rightarrow> string \<rightharpoonup> 64 word" where
  "connect_Snapshot m = map_of m"


section \<open>The retry loop\<close>

definition minAttemptTimeout :: duration where
  "minAttemptTimeout = second"

definition BudgetSlice :: "duration \<Rightarrow> int \<Rightarrow> duration" where
  "BudgetSlice remaining attemptsLeft =
     (if remaining \<le> 0 then 0
      else let slice = (if 1 < attemptsLeft then remaining div attemptsLeft else remaining)
           in min (max slice minAttemptTimeout) remaining)"

text \<open>
  A dial function takes the deadline of its context, the network and the address, and changes
  the state \<open>'w\<close> of the world, which also holds the clock. A context has a deadline, or none,
  and an error once it is done. The clock is read once per attempt.
\<close>

type_synonym ('w, 'e, 'conn) DialFunc = "gotime option \<Rightarrow> string \<Rightarrow> string \<Rightarrow> 'w \<Rightarrow> ('e + 'conn) \<times> 'w"

record ('w, 'e) dial_context =
  ctx_deadline :: "gotime option"
  ctx_Err :: "'w \<Rightarrow> 'e option"
  ctx_now :: "'w \<Rightarrow> gotime"

datatype 'e attempt_error = ContextDone 'e | AttemptFailed string 'e

datatype 'e dial_error = AttemptCapNotPositive | NilDial | NoDialableAddresses
  | JoinedErrors "'e attempt_error list"

definition attempt_deadline :: "('w, 'e) dial_context \<Rightarrow> nat \<Rightarrow> 'w \<Rightarrow> gotime option" where
  "attempt_deadline ctx left w =
     (case ctx_deadline ctx of
        None \<Rightarrow> None
      | Some deadline \<Rightarrow>
          let now = ctx_now ctx w
          in Some (min deadline (now + BudgetSlice (time_sub deadline now) (int left))))"

record ('w, 'e, 'conn) dial_result =
  dr_conn :: "'conn option"
  dr_attempts :: nat
  dr_error :: "'e dial_error option"
  dr_metrics :: "ConnectMetrics option"
  dr_world :: 'w

fun dial_loop :: "('w, 'e) dial_context \<Rightarrow> string \<Rightarrow> string \<Rightarrow> ('w, 'e, 'conn) DialFunc \<Rightarrow> nat \<Rightarrow>
    addr list \<Rightarrow> 'e attempt_error list \<Rightarrow> ConnectMetrics option \<Rightarrow> 'w \<Rightarrow> ('w, 'e, 'conn) dial_result"
where
  "dial_loop ctx port egress dial i [] errs m w =
     (if errs = [] then \<lparr>dr_conn = None, dr_attempts = 0, dr_error = Some NoDialableAddresses,
                         dr_metrics = m, dr_world = w\<rparr>
      else \<lparr>dr_conn = None, dr_attempts = i, dr_error = Some (JoinedErrors errs),
            dr_metrics = m, dr_world = w\<rparr>)"
| "dial_loop ctx port egress dial i (candidate # rest) errs m w =
     (case ctx_Err ctx w of
        Some e \<Rightarrow> \<lparr>dr_conn = None, dr_attempts = i,
                    dr_error = Some (JoinedErrors (errs @ [ContextDone e])),
                    dr_metrics = m, dr_world = w\<rparr>
      | None \<Rightarrow>
          let address = JoinHostPort (addr_string candidate) port
          in case dial (attempt_deadline ctx (length (candidate # rest)) w) ''tcp'' address w of
               (Inr conn, w') \<Rightarrow>
                 \<lparr>dr_conn = Some conn, dr_attempts = i + 1, dr_error = None,
                  dr_metrics = map_option (connect_record True egress) m, dr_world = w'\<rparr>
             | (Inl e, w') \<Rightarrow>
                 dial_loop ctx port egress dial (i + 1) rest (errs @ [AttemptFailed address e])
                   (map_option (connect_record False egress) m) w')"

definition DialCandidates :: "('w, 'e) dial_context \<Rightarrow> addr list \<Rightarrow> string \<Rightarrow> int \<Rightarrow> string \<Rightarrow>
    ('w, 'e, 'conn) DialFunc option \<Rightarrow> ConnectMetrics option \<Rightarrow> 'w \<Rightarrow> ('w, 'e, 'conn) dial_result"
where
  "DialCandidates ctx candidates port attemptCap egress dial metrics w =
     (if attemptCap \<le> 0 then
        \<lparr>dr_conn = None, dr_attempts = 0, dr_error = Some AttemptCapNotPositive,
         dr_metrics = metrics, dr_world = w\<rparr>
      else case dial of
        None \<Rightarrow> \<lparr>dr_conn = None, dr_attempts = 0, dr_error = Some NilDial,
                  dr_metrics = metrics, dr_world = w\<rparr>
      | Some dialf \<Rightarrow>
          dial_loop ctx port egress dialf 0
            (if attemptCap < int (length candidates) then take (nat attemptCap) candidates
             else candidates) [] metrics w)"


section \<open>Selection: lemmas\<close>

lemma length_reverse_loop [simp]: "length (reverse_loop l r xs) = length xs"
  by (induction l r xs rule: reverse_loop.induct) (subst reverse_loop.simps, simp)

lemma nth_reverse_loop:
  "r < length xs \<Longrightarrow> k < length xs \<Longrightarrow>
   reverse_loop l r xs ! k = (if l \<le> k \<and> k \<le> r then xs ! (l + r - k) else xs ! k)"
proof (induction l r xs rule: reverse_loop.induct)
  case (1 l r xs)
  show ?case
  proof (cases "l < r")
    case True
    with 1 show ?thesis
      by (subst reverse_loop.simps) (auto simp: nth_list_update)
  next
    case False
    then have "l + r - k = k" if "l \<le> k" "k \<le> r" using that by simp
    with False show ?thesis
      by (subst reverse_loop.simps) simp
  qed
qed

lemma reverse_eq_rev: "reverse xs = rev xs"
proof (cases xs)
  case Nil
  then show ?thesis by (simp add: reverse_def reverse_loop.simps)
next
  case (Cons y ys)
  then have "xs \<noteq> []" by simp
  then show ?thesis
    unfolding reverse_def by (intro nth_equalityI) (auto simp: nth_reverse_loop rev_nth)
qed

lemma rotate_addrs_eq: "rotate_addrs xs sequence = rotate (unat sequence) xs"
proof (cases "length xs < 2")
  case True
  then have "xs = [] \<or> (\<exists>x. xs = [x])"
    by (cases xs) (auto simp: less_Suc_eq)
  then show ?thesis using True by (auto simp: rotate_addrs_def rotate_drop_take)
next
  case False
  then have "length xs > 0" by linarith
  then have m: "unat sequence mod length xs < length xs" by simp
  with False show ?thesis
    by (simp add: rotate_addrs_def Let_def reverse_eq_rev rotate_drop_take)
qed

text \<open>What the filter admits: valid, without a zone, unmapped, and inside the policy.\<close>

definition admitted :: "(addr \<Rightarrow> bool) option \<Rightarrow> addr list \<Rightarrow> addr set" where
  "admitted allowed input =
     {a. (\<exists>b\<in>set input. IsValid b \<and> Zone b = [] \<and> a = Unmap b) \<and>
         (case allowed of None \<Rightarrow> True | Some ok \<Rightarrow> ok a)}"

lemma finite_admitted [simp]: "finite (admitted allowed input)"
proof (rule finite_subset)
  show "admitted allowed input \<subseteq> Unmap ` set input" by (auto simp: admitted_def)
qed simp

lemma admitted_Cons:
  "admitted allowed (a # as) =
     (if IsValid a \<and> Zone a = [] \<and> (case allowed of None \<Rightarrow> True | Some ok \<Rightarrow> ok (Unmap a))
      then insert (Unmap a) (admitted allowed as) else admitted allowed as)"
  by (auto simp: admitted_def)

lemma select_loop_spec:
  assumes "distinct v4" "distinct v6" "set v4 = {a \<in> seen. Is4 a}" "set v6 = {a \<in> seen. \<not> Is4 a}"
    and "select_loop allowed input seen v4 v6 = (x4, x6)"
  shows "distinct x4 \<and> distinct x6 \<and>
         set x4 = {a \<in> seen \<union> admitted allowed input. Is4 a} \<and>
         set x6 = {a \<in> seen \<union> admitted allowed input. \<not> Is4 a}"
  using assms
proof (induction allowed input seen v4 v6 rule: select_loop.induct)
  case (1 allowed seen v4 v6)
  then show ?case by (simp add: admitted_def)
next
  case (2 allowed a as seen v4 v6)
  consider (skip) "\<not> IsValid a \<or> Zone a \<noteq> [] \<or> (case allowed of None \<Rightarrow> False | Some ok \<Rightarrow> \<not> ok (Unmap a))"
    | (dup) "IsValid a" "Zone a = []" "case allowed of None \<Rightarrow> True | Some ok \<Rightarrow> ok (Unmap a)" "Unmap a \<in> seen"
    | (new) "IsValid a" "Zone a = []" "case allowed of None \<Rightarrow> True | Some ok \<Rightarrow> ok (Unmap a)" "Unmap a \<notin> seen"
    by (cases allowed) auto
  then show ?case
  proof cases
    case skip
    then have "admitted allowed (a # as) = admitted allowed as"
      by (auto simp: admitted_Cons split: option.splits)
    with skip 2 show ?thesis by (auto simp: Let_def split: option.splits if_splits)
  next
    case dup
    then have n: "\<not> (case allowed of None \<Rightarrow> False | Some ok \<Rightarrow> \<not> ok (Unmap a))"
      by (auto split: option.splits)
    have "seen \<union> admitted allowed (a # as) = seen \<union> admitted allowed as"
      using dup by (auto simp: admitted_Cons)
    moreover have "select_loop allowed as seen v4 v6 = (x4, x6)"
      using "2.prems"(5) dup n by (simp add: Let_def)
    ultimately show ?thesis
      using "2.IH"(3)[OF _ refl n _ "2.prems"(1-4)] dup by simp
  next
    case new
    then have n: "\<not> (case allowed of None \<Rightarrow> False | Some ok \<Rightarrow> \<not> ok (Unmap a))"
      by (auto split: option.splits)
    have e: "seen \<union> admitted allowed (a # as) = insert (Unmap a) seen \<union> admitted allowed as"
      using new by (auto simp: admitted_Cons)
    show ?thesis
    proof (cases "Is4 (Unmap a)")
      case True
      have "select_loop allowed as (insert (Unmap a) seen) (v4 @ [Unmap a]) v6 = (x4, x6)"
        using "2.prems"(5) new n True by (simp add: Let_def)
      moreover have "distinct (v4 @ [Unmap a])" "set (v4 @ [Unmap a]) = {b \<in> insert (Unmap a) seen. Is4 b}"
        "set v6 = {b \<in> insert (Unmap a) seen. \<not> Is4 b}"
        using "2.prems"(1-4) new True by auto
      ultimately show ?thesis
        unfolding e using "2.IH"(4) [OF _ refl n] "2.prems"(2) new True by simp
    next
      case False
      have "select_loop allowed as (insert (Unmap a) seen) v4 (v6 @ [Unmap a]) = (x4, x6)"
        using "2.prems"(5) new n False by (simp add: Let_def)
      moreover have "distinct (v6 @ [Unmap a])" "set (v6 @ [Unmap a]) = {b \<in> insert (Unmap a) seen. \<not> Is4 b}"
        "set v4 = {b \<in> insert (Unmap a) seen. Is4 b}"
        using "2.prems"(1-4) new False by auto
      ultimately show ?thesis
        unfolding e using "2.IH"(5) [OF _ refl n] "2.prems"(1) new False by simp
    qed
  qed
qed

lemma mset_interleave: "mset (interleave xs ys) = mset xs + mset ys"
  by (induction xs ys rule: interleave.induct) simp_all

lemma mset_rotate [simp]: "mset (rotate n xs) = mset xs"
  by (metis add.commute append_take_drop_id mset_append rotate_drop_take)

lemma mset_family_order: "mset (family_order strategy sequence v4 v6) = mset v4 + mset v6"
  by (simp add: family_order_def mset_interleave)

lemma Select_eq:
  assumes "0 < MaxAttempts s" "select_loop allowed input {} [] [] = (v4, v6)"
  shows "Select s input allowed =
    (take (nat (MaxAttempts s))
       (family_order (Strategy s) (cursor s) (rotate (unat (cursor s)) v4) (rotate (unat (cursor s)) v6)),
     s\<lparr>cursor := cursor s + 1\<rparr>)"
  using assms by (auto simp: Select_def Let_def rotate_addrs_eq)

lemma family_order_admitted:
  assumes l: "select_loop allowed input {} [] [] = (v4, v6)"
    and ord_def: "ord = family_order strategy sequence (rotate n v4) (rotate n v6)"
  shows "distinct ord \<and> set ord = admitted allowed input"
proof -
  have f: "distinct v4" "distinct v6" "set v4 = {a \<in> admitted allowed input. Is4 a}"
    "set v6 = {a \<in> admitted allowed input. \<not> Is4 a}"
    using select_loop_spec [OF _ _ _ _ l] by simp_all
  have m: "mset ord = mset (v4 @ v6)"
    by (simp add: ord_def mset_family_order)
  have "distinct (v4 @ v6)" unfolding distinct_append f(3,4) using f(1,2) by blast
  moreover have "set (v4 @ v6) = admitted allowed input" unfolding set_append f(3,4) by blast
  ultimately show ?thesis
    using mset_eq_imp_distinct_iff [OF m] mset_eq_setD [OF m] by simp
qed

lemma Select_screened: "set (fst (Select s input allowed)) \<subseteq> admitted allowed input"
proof (cases "0 < MaxAttempts s")
  case True
  obtain v4 v6 where l: "select_loop allowed input {} [] [] = (v4, v6)" by fastforce
  show ?thesis
    using family_order_admitted [OF l refl] set_take_subset by (fastforce simp: Select_eq [OF True l])
qed (simp add: Select_def)

lemma sorted_wrt_everywhere: "\<forall>x\<in>set xs. \<forall>y\<in>set xs. R x y \<Longrightarrow> sorted_wrt R xs"
  by (induction xs) auto

lemma set_take_append_family:
  assumes "set xs = {a \<in> A. P a}" "set ys = {a \<in> A. \<not> P a}"
  shows "sorted_wrt (\<lambda>a b. P b \<longrightarrow> P a) (take n (xs @ ys)) \<and>
         ((\<forall>a\<in>A. P a \<longrightarrow> a \<in> set (take n (xs @ ys))) \<or> (\<forall>a\<in>set (take n (xs @ ys)). P a))"
proof
  have "sorted_wrt (\<lambda>a b. P b \<longrightarrow> P a) (xs @ ys)"
    unfolding sorted_wrt_append assms by (intro conjI sorted_wrt_everywhere) (simp_all add: assms)
  then show "sorted_wrt (\<lambda>a b. P b \<longrightarrow> P a) (take n (xs @ ys))" by (rule sorted_wrt_take)
next
  show "(\<forall>a\<in>A. P a \<longrightarrow> a \<in> set (take n (xs @ ys))) \<or> (\<forall>a\<in>set (take n (xs @ ys)). P a)"
    using assms by (cases "n \<le> length xs") (auto dest: in_set_takeD)
qed

lemma interleave_alternates:
  "xs \<noteq> [] \<Longrightarrow> ys \<noteq> [] \<Longrightarrow> \<exists>zs. interleave xs ys = hd xs # hd ys # zs"
  by (cases xs; cases ys) simp_all

text \<open>
  (C30) The selector returns, without repetition, only addresses that are valid, carry no zone,
  are unmapped and pass the policy, and as many of them as there are, up to its attempt limit.
  With the default strategy no IPv6 address comes before an IPv4 one, and the limit cuts off IPv6
  addresses before any IPv4 address; \<open>ipv6_first\<close> is the mirror image; and \<open>interleave\<close> starts
  with one address of each family when both have one. A selector without attempts returns nothing.
\<close>

theorem Select_spec:
  assumes "Select s input allowed = (r, s')"
  shows "distinct r \<and> set r \<subseteq> admitted allowed input \<and>
         int (length r) = max 0 (min (MaxAttempts s) (int (card (admitted allowed input)))) \<and>
         (Strategy s \<notin> {IPv6First, Interleave} \<longrightarrow> 0 < MaxAttempts s \<longrightarrow>
            sorted_wrt (\<lambda>a b. Is4 b \<longrightarrow> Is4 a) r \<and>
            ((\<forall>a\<in>admitted allowed input. Is4 a \<longrightarrow> a \<in> set r) \<or> (\<forall>a\<in>set r. Is4 a))) \<and>
         (Strategy s = IPv6First \<longrightarrow> 0 < MaxAttempts s \<longrightarrow>
            sorted_wrt (\<lambda>a b. \<not> Is4 b \<longrightarrow> \<not> Is4 a) r \<and>
            ((\<forall>a\<in>admitted allowed input. \<not> Is4 a \<longrightarrow> a \<in> set r) \<or> (\<forall>a\<in>set r. \<not> Is4 a))) \<and>
         (Strategy s = Interleave \<longrightarrow> 2 \<le> MaxAttempts s \<longrightarrow>
            (\<exists>a\<in>admitted allowed input. Is4 a) \<longrightarrow> (\<exists>a\<in>admitted allowed input. \<not> Is4 a) \<longrightarrow>
            Is4 (r ! 0) \<noteq> Is4 (r ! 1))"
proof (cases "0 < MaxAttempts s")
  case False
  with assms show ?thesis by (auto simp: Select_def)
next
  case True
  obtain v4 v6 where l: "select_loop allowed input {} [] [] = (v4, v6)" by fastforce
  let ?A = "admitted allowed input" and ?n = "unat (cursor s)" and ?k = "nat (MaxAttempts s)"
  let ?ord = "family_order (Strategy s) (cursor s) (rotate ?n v4) (rotate ?n v6)"
  have r: "r = take ?k ?ord" using assms Select_eq [OF True l] by simp
  have ord: "distinct ?ord" "set ?ord = ?A" using family_order_admitted [OF l refl] by simp_all
  then have card: "length ?ord = card ?A" using distinct_card [OF ord(1)] by simp
  have f: "set (rotate ?n v4) = {a \<in> ?A. Is4 a}" "set (rotate ?n v6) = {a \<in> ?A. \<not> Is4 a}"
    "set (rotate ?n v4) = {a \<in> ?A. \<not> \<not> Is4 a}"
    using select_loop_spec [OF _ _ _ _ l] by simp_all
  have v4first: "sorted_wrt (\<lambda>a b. Is4 b \<longrightarrow> Is4 a) r \<and>
      ((\<forall>a\<in>?A. Is4 a \<longrightarrow> a \<in> set r) \<or> (\<forall>a\<in>set r. Is4 a))"
    if "Strategy s \<notin> {IPv6First, Interleave}"
    using set_take_append_family [OF f(1,2), of ?k] that unfolding r by (simp add: family_order_def)
  have v6first: "sorted_wrt (\<lambda>a b. \<not> Is4 b \<longrightarrow> \<not> Is4 a) r \<and>
      ((\<forall>a\<in>?A. \<not> Is4 a \<longrightarrow> a \<in> set r) \<or> (\<forall>a\<in>set r. \<not> Is4 a))"
    if "Strategy s = IPv6First"
    using set_take_append_family [OF f(2,3), of ?k] that unfolding r by (simp add: family_order_def)
  have alt: "Is4 (r ! 0) \<noteq> Is4 (r ! 1)"
    if st: "Strategy s = Interleave" "2 \<le> MaxAttempts s" and ex: "\<exists>a\<in>?A. Is4 a" "\<exists>a\<in>?A. \<not> Is4 a"
  proof -
    have ne: "rotate ?n v4 \<noteq> []" "rotate ?n v6 \<noteq> []"
      using ex f by (metis (mono_tags, lifting) empty_iff empty_set mem_Collect_eq)+
    have h: "Is4 (hd (rotate ?n v4))" "\<not> Is4 (hd (rotate ?n v6))"
      using ne f by (metis (mono_tags, lifting) hd_in_set mem_Collect_eq)+
    have st': "Strategy s \<noteq> IPv6First" using st by (simp add: IPv6First_def Interleave_def)
    have "\<exists>zs. ?ord = hd (rotate ?n v4) # hd (rotate ?n v6) # zs \<or> ?ord = hd (rotate ?n v6) # hd (rotate ?n v4) # zs"
      using interleave_alternates [OF ne] interleave_alternates [OF ne(2,1)] st st'
      by (auto simp: family_order_def)
    moreover have "2 \<le> ?k" using st by simp
    then obtain k where "?k = Suc (Suc k)" by (metis add_2_eq_Suc le_Suc_ex)
    ultimately show ?thesis using h unfolding r by auto
  qed
  have "int (length r) = max 0 (min (MaxAttempts s) (int (card ?A)))"
    using True unfolding r by (simp add: card)
  moreover have "distinct r" "set r \<subseteq> ?A" using ord set_take_subset [of ?k ?ord] unfolding r by simp_all
  ultimately show ?thesis using v4first v6first alt by blast
qed

definition rest_of_calls :: "RotatingSelector \<Rightarrow> addr list \<Rightarrow> (addr \<Rightarrow> bool) option \<Rightarrow> nat \<Rightarrow> RotatingSelector" where
  "rest_of_calls s input allowed i = ((\<lambda>s. snd (Select s input allowed)) ^^ i) s"

lemma rest_of_calls_eq:
  assumes "0 < MaxAttempts s"
  shows "rest_of_calls s input allowed i = s\<lparr>cursor := cursor s + of_nat i\<rparr>"
proof (induction i)
  case 0
  then show ?case by (simp add: rest_of_calls_def)
next
  case (Suc i)
  obtain v4 v6 where l: "select_loop allowed input {} [] [] = (v4, v6)" by fastforce
  have "rest_of_calls s input allowed (Suc i) = snd (Select (rest_of_calls s input allowed i) input allowed)"
    by (simp add: rest_of_calls_def)
  then show ?case
    using assms by (simp add: Suc Select_eq [OF _ l] algebra_simps)
qed

lemma rotate_reaches:
  assumes "a \<in> set xs"
  shows "\<exists>i<length xs. hd (rotate (n + i) xs) = a"
proof -
  obtain j where j: "j < length xs" "xs ! j = a" using assms by (metis in_set_conv_nth)
  define i where "i = (j + (length xs - n mod length xs)) mod length xs"
  have "(n + i) mod length xs = j"
  proof -
    have "(n + i) mod length xs = (n mod length xs + (j + (length xs - n mod length xs))) mod length xs"
      by (simp add: i_def mod_simps)
    also have "n mod length xs + (j + (length xs - n mod length xs)) = j + length xs"
      using mod_less_divisor [of "length xs" n] j(1) by linarith
    finally show ?thesis using j by simp
  qed
  moreover have "i < length xs" unfolding i_def using j(1) by (intro mod_less_divisor) linarith
  moreover have "xs \<noteq> []" using assms by auto
  ultimately show ?thesis using j by (auto simp: hd_rotate_conv_nth)
qed

lemma hd_take_family:
  assumes "0 < MaxAttempts s" "xs \<noteq> []"
  shows "hd (take (nat (MaxAttempts s)) (xs @ ys)) = hd xs"
  using assms by (cases xs; cases "nat (MaxAttempts s)") auto

text \<open>
  (C31) The rotation gives every candidate of the preferred family its turn: among as many
  consecutive calls as that family has admitted addresses, each of them is the first choice of
  one call (as long as the 64-bit cursor does not wrap in between).
\<close>

theorem Select_rotation_fair:
  assumes "0 < MaxAttempts s" "a \<in> admitted allowed input"
    and "Strategy s = IPv6First \<and> \<not> Is4 a \<or> Strategy s \<notin> {IPv6First, Interleave} \<and> Is4 a"
    and "family = {b \<in> admitted allowed input. Is4 b = Is4 a}"
    and "unat (cursor s) + card family \<le> 2 ^ 64"
  shows "\<exists>i<card family. hd (fst (Select (rest_of_calls s input allowed i) input allowed)) = a"
proof -
  obtain v4 v6 where l: "select_loop allowed input {} [] [] = (v4, v6)" by fastforce
  have f: "distinct v4" "distinct v6" "set v4 = {a \<in> admitted allowed input. Is4 a}"
    "set v6 = {a \<in> admitted allowed input. \<not> Is4 a}"
    using select_loop_spec [OF _ _ _ _ l] by simp_all
  define xs where "xs = (if Is4 a then v4 else v6)"
  have xs: "set xs = family" "length xs = card family"
    using f assms(4) distinct_card [of v4] distinct_card [of v6] by (auto simp: xs_def)
  have "a \<in> set xs" using assms(2,4) by (simp add: xs(1))
  then obtain i where i: "i < card family" "hd (rotate (unat (cursor s) + i) xs) = a"
    using rotate_reaches [of a xs] xs(2) by metis
  have u: "unat (cursor s + of_nat i) = unat (cursor s) + i"
    using i(1) assms(5) by (subst unat_add_lem [THEN iffD1]) (simp_all add: unat_of_nat)
  have "xs \<noteq> []" using \<open>a \<in> set xs\<close> by auto
  then have "hd (fst (Select (rest_of_calls s input allowed i) input allowed)) = a"
    using assms(1,3) i(2) by (auto simp: rest_of_calls_eq Select_eq [OF _ l] u family_order_def xs_def hd_take_family)
  with i(1) show ?thesis by blast
qed

definition sample_input :: "addr list" where
  "sample_input = [V4 0x01010101, V4 0x08080808, V6 (0x20014860 * 2 ^ 96 + 1) [], V6 (0x20014860 * 2 ^ 96 + 2) []]"

lemma sample_admitted: "admitted None sample_input = set sample_input"
  by (auto simp: admitted_def sample_input_def IsValid_def mapped_def)

theorem Select_spec_witness:
  "(let s = \<lparr>Strategy = Interleave, MaxAttempts = 3, cursor = 6\<rparr>; r = fst (Select s sample_input None)
    in distinct r \<and> set r \<subseteq> set sample_input \<and> length r = 3 \<and> Is4 (r ! 0) \<noteq> Is4 (r ! 1))"
proof -
  let ?s = "\<lparr>Strategy = Interleave, MaxAttempts = 3, cursor = 6\<rparr>"
  have "card (set sample_input) = 4" "\<exists>a\<in>set sample_input. Is4 a" "\<exists>a\<in>set sample_input. \<not> Is4 a"
    by (auto simp: sample_input_def)
  then show ?thesis
    using Select_spec [of ?s sample_input None "fst (Select ?s sample_input None)"
        "snd (Select ?s sample_input None)"]
    by (simp add: Let_def sample_admitted)
qed

theorem Select_rotation_fair_witness:
  "\<exists>i<2. hd (fst (Select (rest_of_calls \<lparr>Strategy = IPv4First, MaxAttempts = 2, cursor = 41\<rparr> sample_input None i)
     sample_input None)) = V4 0x08080808"
proof -
  let ?s = "\<lparr>Strategy = IPv4First, MaxAttempts = 2, cursor = 41\<rparr>"
  have f: "{b \<in> admitted None sample_input. Is4 b = Is4 (V4 0x08080808)} = {V4 0x01010101, V4 0x08080808}"
    unfolding sample_admitted by (auto simp: sample_input_def)
  have c: "card {V4 0x01010101, V4 0x08080808} = 2" by simp
  have "unat (41 :: 64 word) = 41" by simp
  then show ?thesis
    using Select_rotation_fair [of ?s "V4 0x08080808" None sample_input, OF _ _ _ refl] unfolding f c
    by (simp add: sample_admitted IPv4First_def IPv6First_def Interleave_def sample_input_def [THEN arg_cong, of set])
qed

lemma sample_loop:
  "select_loop None sample_input {} [] [] =
     ([V4 0x01010101, V4 0x08080808], [V6 (0x20014860 * 2 ^ 96 + 1) [], V6 (0x20014860 * 2 ^ 96 + 2) []])"
  by (simp add: sample_input_def IsValid_def mapped_def)

lemma rotate_two: "rotate n [x, y] = (if even n then [x, y] else [y, x])"
  by (induction n) auto



section \<open>Counting: lemmas\<close>

text \<open>The sum of the counters whose key has a property.\<close>

definition counted :: "(string \<Rightarrow> bool) \<Rightarrow> ConnectMetrics \<Rightarrow> 64 word" where
  "counted P m = sum_list (map snd (filter (P \<circ> fst) m))"

lemma counted_update:
  "counted P (AList.update k ((case map_of m k of None \<Rightarrow> 0 | Some c \<Rightarrow> c) + 1) m) =
     counted P m + (if P k then 1 else 0)"
  by (induction m) (auto simp: counted_def algebra_simps split: option.splits)

lemma counted_counter_add: "counted P (counter_add k m) = counted P m + (if P k then 1 else 0)"
  by (simp add: counter_add_def counted_update)

text \<open>A recorded event goes to a key of its outcome; past the cap only the four overflow keys are new.\<close>

definition overflow_keys :: "string set" where
  "overflow_keys = (\<lambda>(ok, cls). connect_outcome ok @ ''|'' @ cls @ ''|other'') `
     ({True, False} \<times> {''direct'', ''marked''})"

lemma connect_record_key:
  "\<exists>key rest. key = connect_outcome ok @ rest \<and>
     connect_record ok eg m = counter_add key m \<and>
     (key \<in> fst ` set m \<or> length m < maxEgressLabels * 4 \<or> key \<in> overflow_keys)"
proof -
  define egress where "egress = (if eg = [] then DirectEgress else eg)"
  define cls where "cls = (if egress = DirectEgress then ''direct'' else ''marked'')"
  let ?key = "\<lambda>e. connect_outcome ok @ ''|'' @ cls @ ''|'' @ e"
  have r: "connect_record ok eg m =
      counter_add (?key (if map_of m (?key egress) = None \<and> maxEgressLabels * 4 \<le> length m then ''other'' else egress)) m"
    by (simp add: connect_record_def Let_def egress_def cls_def)
  have "?key ''other'' \<in> overflow_keys"
    unfolding overflow_keys_def cls_def by (cases ok) (auto simp: image_iff)
  then show ?thesis
    by (intro exI conjI) (rule refl, rule r, auto simp: map_of_eq_None_iff)
qed

lemma card_overflow_keys: "finite overflow_keys \<and> card overflow_keys \<le> 4"
  unfolding overflow_keys_def
  by (intro conjI finite_imageI order.trans [OF card_image_le]) (auto simp: card_cartesian_product)

definition metrics_inv :: "ConnectMetrics \<Rightarrow> bool" where
  "metrics_inv m \<longleftrightarrow> distinct (map fst m) \<and> card (fst ` set m - overflow_keys) \<le> maxEgressLabels * 4"

lemma keys_counter_add: "fst ` set (counter_add k m) = insert k (fst ` set m)"
  by (simp add: counter_add_def dom_update)

lemma metrics_inv_record: "metrics_inv m \<Longrightarrow> metrics_inv (connect_record ok eg m)"
proof -
  assume inv: "metrics_inv m"
  obtain key where k: "connect_record ok eg m = counter_add key m"
    "key \<in> fst ` set m \<or> length m < maxEgressLabels * 4 \<or> key \<in> overflow_keys"
    using connect_record_key [of ok eg m] by blast
  have d: "distinct (map fst (counter_add key m))"
    using inv by (simp add: metrics_inv_def counter_add_def distinct_update)
  have "card (insert key (fst ` set m) - overflow_keys) \<le> maxEgressLabels * 4"
  proof (cases "key \<in> fst ` set m \<or> key \<in> overflow_keys")
    case True
    then have "insert key (fst ` set m) - overflow_keys = fst ` set m - overflow_keys" by blast
    with inv show ?thesis by (simp add: metrics_inv_def)
  next
    case False
    have "card (insert key (fst ` set m) - overflow_keys) \<le> card (insert key (fst ` set m))"
      by (intro card_mono) auto
    also have "\<dots> \<le> Suc (card (fst ` set m))" by (simp add: card_insert_if)
    also have "card (fst ` set m) \<le> length m"
      using card_image_le [of "set m" fst] card_length [of m] by simp
    finally show ?thesis using False k(2) by linarith
  qed
  with d show ?thesis by (simp add: metrics_inv_def k(1) keys_counter_add)
qed

lemma metrics_inv_length:
  assumes "metrics_inv m"
  shows "length m \<le> maxEgressLabels * 4 + 4"
proof -
  have "length m = card (fst ` set m)"
    using assms by (metis metrics_inv_def distinct_card length_map list.set_map)
  also have "\<dots> \<le> card ((fst ` set m - overflow_keys) \<union> overflow_keys)"
    using card_overflow_keys by (intro card_mono) auto
  also have "\<dots> \<le> card (fst ` set m - overflow_keys) + card overflow_keys" by (rule card_Un_le)
  finally show ?thesis using assms card_overflow_keys unfolding metrics_inv_def by linarith
qed

definition record_all :: "(bool \<times> string) list \<Rightarrow> ConnectMetrics" where
  "record_all events = foldl (\<lambda>m (ok, egress). connect_record ok egress m) [] events"

definition of_outcome :: "bool \<Rightarrow> string \<Rightarrow> bool" where
  "of_outcome ok key \<longleftrightarrow> has_prefix (connect_outcome ok) key"

lemma of_outcome_key: "of_outcome ok (connect_outcome ok' @ rest) \<longleftrightarrow> ok = ok'"
  by (cases ok; cases ok') (simp_all add: of_outcome_def connect_outcome_def has_prefix_def)

lemma counted_record:
  "counted (of_outcome ok) (connect_record ok' eg m) =
     counted (of_outcome ok) m + (if ok = ok' then 1 else 0)"
  using connect_record_key [of ok' eg m] by (auto simp: counted_counter_add of_outcome_key)

text \<open>
  (C33) After any sequence of dial outcomes the counter map has at most 68 labels (64 and the four
  overflow labels), each once, and no outcome is lost or counted under the other one: the success
  counters sum up to the number of successes and the failure counters to the number of failures,
  modulo the 64-bit counters.
\<close>

theorem connect_metrics_bounded:
  "length (record_all events) \<le> 4 * maxEgressLabels + 4 \<and>
   distinct (map fst (record_all events)) \<and>
   counted (of_outcome ok) (record_all events) = of_nat (length (filter (\<lambda>(ok', _). ok' = ok) events))"
proof -
  have "metrics_inv (record_all events) \<and>
    counted (of_outcome ok) (record_all events) = of_nat (length (filter (\<lambda>(ok', _). ok' = ok) events))"
  proof (induction events rule: rev_induct)
    case Nil
    then show ?case by (simp add: record_all_def metrics_inv_def counted_def)
  next
    case (snoc e events)
    then show ?case
      by (cases e) (auto simp: record_all_def counted_record intro: metrics_inv_record)
  qed
  then show ?thesis
    using metrics_inv_length [of "record_all events"] by (simp add: metrics_inv_def)
qed


section \<open>Dialling: lemmas\<close>

lemma second_pos [simp]: "0 < second"
  by (simp add: second_def)

text \<open>A budget of a second per attempt is split into slices of at least a second.\<close>

lemma BudgetSlice_fair:
  assumes "int n * second \<le> remaining" "0 < n"
  shows "BudgetSlice remaining (int n) = remaining div int n"
    and "second \<le> remaining div int n"
    and "int (n - 1) * second \<le> remaining - remaining div int n"
proof -
  have "(int n * second) div int n \<le> remaining div int n"
    using assms by (intro zdiv_mono1) simp_all
  then show *: "second \<le> remaining div int n" using assms(2) by simp
  have pos: "0 < remaining" using assms by (intro less_le_trans [OF _ assms(1)] mult_pos_pos) simp_all
  have le: "remaining div int n \<le> remaining"
    using pos assms(2) int_div_less_self [of remaining "int n"] by (cases "n = 1") simp_all
  show "BudgetSlice remaining (int n) = remaining div int n"
    using * le pos assms(2) by (cases "n = 1") (simp_all add: BudgetSlice_def minAttemptTimeout_def)
  have "int (n - 1) * second \<le> int (n - 1) * (remaining div int n)"
    using * by (intro mult_left_mono) simp_all
  also have "\<dots> = int n * (remaining div int n) - remaining div int n"
    using assms(2) by (simp add: of_nat_diff algebra_simps)
  also have "\<dots> \<le> remaining - remaining div int n"
    using assms(2) by (simp add: minus_mod_eq_mult_div [symmetric])
  finally show "int (n - 1) * second \<le> remaining - remaining div int n" .
qed

text \<open>
  What a dial function and its context promise: the clock does not run backwards during a dial,
  a dial returns by its deadline, and before its deadline the context of the request is not done.
\<close>

definition timely :: "('w, 'e) dial_context \<Rightarrow> gotime \<Rightarrow> ('w, 'e, 'conn) DialFunc \<Rightarrow> bool" where
  "timely ctx D dial \<longleftrightarrow>
     (\<forall>d net a w. ctx_now ctx w \<le> d \<longrightarrow>
        ctx_now ctx w \<le> ctx_now ctx (snd (dial (Some d) net a w)) \<and>
        ctx_now ctx (snd (dial (Some d) net a w)) \<le> d) \<and>
     (\<forall>w. ctx_now ctx w < D \<longrightarrow> ctx_Err ctx w = None)"

definition answers :: "('w, 'e) dial_context \<Rightarrow> ('w, 'e, 'conn) DialFunc \<Rightarrow> string \<Rightarrow> bool" where
  "answers ctx dial address \<longleftrightarrow>
     (\<forall>d w. ctx_now ctx w + second \<le> d \<longrightarrow> (\<exists>c. fst (dial (Some d) ''tcp'' address w) = Inr c))"

lemma timely_dial:
  "timely ctx D dial \<Longrightarrow> ctx_now ctx w \<le> d \<Longrightarrow>
   ctx_now ctx w \<le> ctx_now ctx (snd (dial (Some d) net a w)) \<and>
   ctx_now ctx (snd (dial (Some d) net a w)) \<le> d"
  by (simp add: timely_def)

lemma dial_loop_connects:
  assumes "ctx_deadline ctx = Some D" "timely ctx D dial"
    and "a \<in> set cs" "answers ctx dial (JoinHostPort (addr_string a) port)"
    and "int (length cs) * second \<le> D - ctx_now ctx w" "D - ctx_now ctx w \<le> maxInt64"
  shows "(\<exists>c. dr_conn (dial_loop ctx port egress dial i cs errs m w) = Some c) \<and>
         dr_error (dial_loop ctx port egress dial i cs errs m w) = None \<and>
         dr_attempts (dial_loop ctx port egress dial i cs errs m w) \<le> i + length cs"
  using assms(3,5,6)
proof (induction cs arbitrary: i errs m w)
  case Nil
  then show ?case by simp
next
  case (Cons c cs)
  let ?n = "length (c # cs)" and ?now = "ctx_now ctx w" and ?rem = "D - ctx_now ctx w"
  let ?addr = "JoinHostPort (addr_string c) port"
  have f: "BudgetSlice ?rem (int ?n) = ?rem div int ?n" "second \<le> ?rem div int ?n"
    "int (length cs) * second \<le> ?rem - ?rem div int ?n"
    using BudgetSlice_fair [of ?n ?rem] Cons.prems(2) by simp_all
  have le: "?rem div int ?n \<le> ?rem"
    using f(3) mult_nonneg_nonneg [of "int (length cs)" second] second_pos by linarith
  then have pos: "?now < D" using f(2) second_pos by linarith
  then have ok: "ctx_Err ctx w = None" using assms(2) by (simp add: timely_def)
  have "time_sub D ?now = ?rem"
    using pos Cons.prems(3) by (simp add: time_sub_def minInt64_def)
  then have dl: "attempt_deadline ctx ?n w = Some (?now + ?rem div int ?n)"
    using f(1) le by (simp add: attempt_deadline_def assms(1) Let_def min_def)
  obtain r w' where r: "dial (Some (?now + ?rem div int ?n)) ''tcp'' ?addr w = (r, w')" by fastforce
  show ?case
  proof (cases r)
    case (Inr conn)
    then show ?thesis using ok dl r by (simp add: Let_def)
  next
    case (Inl e)
    have "c \<noteq> a"
    proof
      assume "c = a"
      then have "\<exists>c'. fst (dial (Some (?now + ?rem div int ?n)) ''tcp'' ?addr w) = Inr c'"
        using assms(4) f(2) by (simp add: answers_def)
      with r Inl show False by simp
    qed
    then have a: "a \<in> set cs" using Cons.prems(1) by simp
    have nonneg: "0 \<le> ?rem div int ?n" using f(2) second_pos by linarith
    have t: "?now \<le> ctx_now ctx w'" "ctx_now ctx w' \<le> ?now + ?rem div int ?n"
      using timely_dial [OF assms(2), of w "?now + ?rem div int ?n" "''tcp''" ?addr] nonneg r
      by simp_all
    have "int (length cs) * second \<le> D - ctx_now ctx w'" "D - ctx_now ctx w' \<le> maxInt64"
      using t f(3) Cons.prems(3) by linarith+
    from Cons.IH [OF a this, of "i + 1" "errs @ [AttemptFailed ?addr e]" "map_option (connect_record False egress) m"]
    show ?thesis using ok dl r Inl by (simp add: Let_def)
  qed
qed

text \<open>
  (C29) A dialable candidate is reached. Let the request have a second of budget for each of the
  candidates it may try, and let one of these accept connections within a second. Then
  \<open>DialCandidates\<close> returns a connection and no error, within the attempt cap, however the other
  candidates behave: a candidate that swallows packets costs its slice and not the whole budget.
\<close>

theorem DialCandidates_connects:
  assumes "0 < attemptCap" "ctx_deadline ctx = Some D" "timely ctx D dial"
    and "a \<in> set (take (nat attemptCap) candidates)"
    and "answers ctx dial (JoinHostPort (addr_string a) port)"
    and "min attemptCap (int (length candidates)) * second \<le> D - ctx_now ctx w"
    and "D - ctx_now ctx w \<le> maxInt64"
    and "res = DialCandidates ctx candidates port attemptCap egress (Some dial) metrics w"
  shows "(\<exists>c. dr_conn res = Some c) \<and> dr_error res = None \<and> int (dr_attempts res) \<le> attemptCap"
proof -
  let ?cs = "take (nat attemptCap) candidates"
  have len: "int (length ?cs) = min attemptCap (int (length candidates))"
    using assms(1) by simp
  have res: "res = dial_loop ctx port egress dial 0 ?cs [] metrics w"
    using assms(1,8) by (simp add: DialCandidates_def)
  show ?thesis
    using dial_loop_connects [OF assms(2-5), of w egress 0 "[]" metrics] assms(1,6,7) len
    unfolding res by auto
qed

text \<open>A blackhole beside a host that answers: the clock is the state, in nanoseconds.\<close>

definition blackhole_dial :: "(int, unit, string) DialFunc" where
  "blackhole_dial d net a now =
     (if a = ''8.8.8.8:443'' then (if (case d of None \<Rightarrow> True | Some t \<Rightarrow> now + second \<le> t) then Inr a else Inl (), now)
      else (Inl (), case d of None \<Rightarrow> now | Some t \<Rightarrow> max now t))"

definition sample_context :: "(int, unit) dial_context" where
  "sample_context = \<lparr>ctx_deadline = Some (10 * second),
     ctx_Err = (\<lambda>now. if now < 10 * second then None else Some ()), ctx_now = (\<lambda>now. now)\<rparr>"

theorem DialCandidates_connects_witness:
  "dr_error (DialCandidates sample_context [V4 0x01010101, V4 0x08080808] ''443'' 4 ''wg0'' (Some blackhole_dial) None 0) = None"
proof -
  have t: "timely sample_context (10 * second) blackhole_dial"
    by (simp add: timely_def sample_context_def blackhole_dial_def)
  have j: "JoinHostPort (addr_string (V4 0x08080808)) ''443'' = ''8.8.8.8:443''"
    by (simp add: JoinHostPort_def v4_string_def octet_def digit_char_def itoa.simps go_string_simps)
  have "answers sample_context blackhole_dial (JoinHostPort (addr_string (V4 0x08080808)) ''443'')"
    unfolding j by (simp add: answers_def sample_context_def blackhole_dial_def)
  with t show ?thesis
    using DialCandidates_connects [of 4 sample_context "10 * second" blackhole_dial "V4 0x08080808"
        "[V4 0x01010101, V4 0x08080808]" "''443''" 0 _ "''wg0''" None, OF _ _ _ _ _ _ _ refl]
    by (simp add: sample_context_def second_def maxInt64_def)
qed

text \<open>The retry loop asks the dial function for the addresses of its candidates and for no others.\<close>

lemma dial_loop_only:
  assumes "\<And>c d w. c \<in> set cs \<Longrightarrow>
    dial d ''tcp'' (JoinHostPort (addr_string c) port) w = dial' d ''tcp'' (JoinHostPort (addr_string c) port) w"
  shows "dial_loop ctx port egress dial i cs errs m w = dial_loop ctx port egress dial' i cs errs m w"
  using assms
proof (induction cs arbitrary: i errs m w)
  case (Cons c cs)
  then have "dial_loop ctx port egress dial i cs errs m w = dial_loop ctx port egress dial' i cs errs m w" for i errs m w
    by simp
  then show ?case by (simp add: Cons.prems Let_def split: option.split prod.split sum.split)
qed simp

lemma DialCandidates_only:
  assumes "\<And>c d w. c \<in> set candidates \<Longrightarrow>
    dial d ''tcp'' (JoinHostPort (addr_string c) port) w = dial' d ''tcp'' (JoinHostPort (addr_string c) port) w"
  shows "DialCandidates ctx candidates port attemptCap egress (Some dial) m w =
         DialCandidates ctx candidates port attemptCap egress (Some dial') m w"
  unfolding DialCandidates_def option.case
  by (intro if_cong refl dial_loop_only) (auto intro: assms dest: in_set_takeD split: if_splits)

end
