(* ===== verification/Host_Policy.thy ===== *)
theory Host_Policy
  imports Config_Types Proxy_Dial
begin

unbundle bit_operations_syntax

text \<open>
  What the proxy accepts, \<open>src/cmd/sakhtar-wg/proxy_policy.go\<close>: the canonical form of a requested
  host, the prefixes of the policy, the destinations a mark may reach, and the clients that may
  connect. The lemmas show that a canonical name is a plain DNS name that no component can read
  as an address, that canonicalising twice changes nothing, and that the addresses the proxy
  dials are exactly screened by the destination policy.
\<close>


section \<open>Canonical hosts\<close>

datatype host_error =
    HostEmptyOrSpaced | HostNotASCII | HostBadPort | HostIPv6NotBracketed | HostBrackets
  | HostEmptyOrZone | HostNeitherNameNorIP | HostTrailingDots | HostLength | HostNotIDNA
  | HostLabelSize | HostLabelEnds | HostLabelChars | HostAmbiguousIP

definition validPort :: "string \<Rightarrow> bool" where
  "validPort port \<longleftrightarrow> (case atoi port of None \<Rightarrow> False | Some n \<Rightarrow> 1 \<le> n \<and> n \<le> 65535)"

definition isAlphaNum :: "char \<Rightarrow> bool" where
  "isAlphaNum c \<longleftrightarrow> (let n = (of_char c :: nat) in 97 \<le> n \<and> n \<le> 122 \<or> 48 \<le> n \<and> n \<le> 57)"

definition ambiguousIPName :: "string list \<Rightarrow> bool" where
  "ambiguousIPName labels =
     (let lst = last labels
      in if list_all is_digit lst then True
         else if length labels = 1 \<and> 2 < length lst \<and> has_prefix ''0x'' lst
         then list_all (\<lambda>c. c \<in> set ''0123456789abcdef'') (drop 2 lst)
         else False)"

text \<open>The host without its port; only an HTTP \<open>Host\<close> header may have one.\<close>

definition strip_port :: "string \<Rightarrow> bool \<Rightarrow> host_error + string" where
  "strip_port raw allowPort =
     (let split = (case SplitHostPort raw of
                     Some (h, port) \<Rightarrow> if validPort port then Inr h else Inl HostBadPort
                   | None \<Rightarrow> Inl HostBadPort)
      in if allowPort then
           (if has_prefix ''['' raw then
              (if has_suffix '']'' raw then Inr (trim_suffix '']'' (trim_prefix ''['' raw)) else split)
            else if count_list raw CHR '':'' = 1 then split
            else if 1 < count_list raw CHR '':'' then Inl HostIPv6NotBracketed
            else Inr raw)
         else if has_prefix ''['' raw \<or> has_suffix '']'' raw then Inl HostBrackets
         else Inr raw)"

fun check_labels :: "string list \<Rightarrow> host_error option" where
  "check_labels [] = None"
| "check_labels (label # labels) =
     (if label = [] \<or> 63 < length label then Some HostLabelSize
      else if \<not> isAlphaNum (hd label) \<or> \<not> isAlphaNum (last label) then Some HostLabelEnds
      else if list_ex (\<lambda>c. \<not> isAlphaNum c \<and> c \<noteq> CHR ''-'') (butlast (tl label)) then Some HostLabelChars
      else check_labels labels)"

text \<open>\<open>idna.Lookup.ToASCII\<close> of \<open>golang.org/x/net\<close> is the parameter \<open>toASCII\<close>, \<open>None\<close> for its error.\<close>

definition canonical_name :: "(string \<Rightarrow> string option) \<Rightarrow> string \<Rightarrow> host_error + string \<times> bool" where
  "canonical_name toASCII host0 =
     (if has_suffix ''..'' host0 then Inl HostTrailingDots
      else let host = to_lower (trim_suffix ''.'' host0)
        in if host = [] \<or> 253 < length host then Inl HostLength
           else if toASCII host \<noteq> Some host then Inl HostNotIDNA
           else case check_labels (split_byte CHR ''.'' host) of
             Some e \<Rightarrow> Inl e
           | None \<Rightarrow> if ambiguousIPName (split_byte CHR ''.'' host) then Inl HostAmbiguousIP
                     else Inr (host, False))"

definition canonicalHost :: "(string \<Rightarrow> string option) \<Rightarrow> string \<Rightarrow> bool \<Rightarrow> host_error + string \<times> bool" where
  "canonicalHost toASCII raw allowPort =
     (if raw = [] \<or> trim_space raw \<noteq> raw \<or> \<not> utf8_valid raw then Inl HostEmptyOrSpaced
      else if list_ex (\<lambda>c. (of_char c :: nat) < 0x21 \<or> 0x7e < (of_char c :: nat)) raw then Inl HostNotASCII
      else case strip_port raw allowPort of
        Inl e \<Rightarrow> Inl e
      | Inr host \<Rightarrow>
          if host = [] \<or> contains host ''%'' then Inl HostEmptyOrZone
          else case ParseAddr host of
            Some ip \<Rightarrow> Inr (addr_string (Unmap ip), True)
          | None \<Rightarrow>
              if contains host '':'' then Inl HostNeitherNameNorIP
              else canonical_name toASCII host)"


section \<open>Prefixes and destinations\<close>

text \<open>An IPv4-mapped prefix is rewritten to the IPv4 prefix it means.\<close>

definition parsePolicyPrefix :: "string \<Rightarrow> prefix option" where
  "parsePolicyPrefix raw =
     (case ParsePrefix raw of
        None \<Rightarrow> None
      | Some p \<Rightarrow>
          if Zone (pfx_addr p) \<noteq> [] then None
          else if Is4In6 (pfx_addr p) then
            (if Bits p < 96 then None
             else Some (Masked (Pfx (Unmap (pfx_addr p)) (Bits p - 96))))
          else Some (Masked p))"

definition mustPolicyPrefixes :: "string list \<Rightarrow> prefix list" where
  "mustPolicyPrefixes raw = List.map_filter parsePolicyPrefix raw"

definition defaultDeniedDestinationPrefixes :: "prefix list" where
  "defaultDeniedDestinationPrefixes =
     [Pfx (V4 0xC0000200) 24, Pfx (V4 0xC6336400) 24, Pfx (V4 0xCB007100) 24,
      Pfx (V6 (0x20010DB8 * 2 ^ 96) []) 32,
      Pfx (V4 0xC6120000) 15, Pfx (V6 (0x20010002 * 2 ^ 96) []) 48]"

type_synonym destinationPolicy = "int \<rightharpoonup> prefix list"

fun tunnel_policies :: "DestinationPolicy \<Rightarrow> Tunnel list \<Rightarrow> destinationPolicy \<Rightarrow> destinationPolicy" where
  "tunnel_policies dp [] m = m"
| "tunnel_policies dp (t # ts) m =
     tunnel_policies dp ts
       (m(tun_Fwmark t \<mapsto> mustPolicyPrefixes
            (case map_of (dp_TunnelAllowCIDRs dp) (tun_Name t) of None \<Rightarrow> [] | Some cidrs \<Rightarrow> cidrs)))"

definition newDestinationPolicy :: "Config \<Rightarrow> destinationPolicy" where
  "newDestinationPolicy c =
     (let dp = px_DestinationPolicy (cfg_Proxy c)
      in tunnel_policies dp (cfg_Tunnels c)
           (Map.empty(0 \<mapsto> mustPolicyPrefixes (dp_DirectAllowCIDRs dp))))"

definition addressAllowed :: "destinationPolicy \<Rightarrow> addr \<Rightarrow> int \<Rightarrow> addr set \<Rightarrow> bool" where
  "addressAllowed p addr0 mark self =
     (if \<not> IsValid addr0 \<or> Zone addr0 \<noteq> [] then False
      else let addr = Unmap addr0
        in if IsUnspecified addr \<or> IsMulticast addr then False
           else if addr \<in> self then False
           else let denied = (IsLoopback addr \<or> IsPrivate addr \<or> IsLinkLocalUnicast addr \<or>
                              IsLinkLocalMulticast addr) \<or>
                             list_ex (\<lambda>prefix. Contains prefix addr) defaultDeniedDestinationPrefixes
             in if \<not> denied then True
                else list_ex (\<lambda>prefix. Contains prefix addr)
                       (case p mark of None \<Rightarrow> [] | Some prefixes \<Rightarrow> prefixes))"

definition requestedHostAllowed :: "destinationPolicy \<Rightarrow> string \<Rightarrow> bool \<Rightarrow> int \<Rightarrow> addr set \<Rightarrow> bool" where
  "requestedHostAllowed p host isIP mark self =
     (if isIP then (case ParseAddr host of None \<Rightarrow> False | Some a \<Rightarrow> addressAllowed p a mark self)
      else host \<noteq> ''localhost'' \<and> host \<noteq> ''localhost.localdomain'' \<and> host \<noteq> ''ip6-localhost'' \<and>
           host \<noteq> ''ip6-loopback'' \<and> host \<noteq> ''broadcasthost'' \<and>
           \<not> has_suffix ''.localhost'' host \<and> \<not> has_suffix ''.local'' host)"

definition answerAllowed :: "destinationPolicy \<Rightarrow> int \<Rightarrow> addr \<Rightarrow> bool" where
  "answerAllowed p mark addr = addressAllowed p addr mark {}"


section \<open>Clients\<close>

definition compileSourceACL :: "Config \<Rightarrow> prefix list" where
  "compileSourceACL c =
     (if px_AllowedSourceCIDRs (cfg_Proxy c) = []
      then [Pfx (V4 0x7F000000) 8, Pfx (V6 1 []) 128]
      else mustPolicyPrefixes (px_AllowedSourceCIDRs (cfg_Proxy c)))"

text \<open>The remote address of a connection: a TCP address with the bytes of its IP, or another kind.\<close>

datatype net_addr = TCPAddr "8 word list" | OtherAddr

definition AddrFromSlice :: "8 word list \<Rightarrow> addr option" where
  "AddrFromSlice ip =
     (if length ip = 4 then Some (V4 (word_rcat ip))
      else if length ip = 16 then Some (V6 (word_rcat ip) [])
      else None)"

definition sourceAllowed :: "net_addr \<Rightarrow> prefix list \<Rightarrow> addr \<times> bool" where
  "sourceAllowed addr prefixes =
     (case addr of
        OtherAddr \<Rightarrow> (NoAddr, False)
      | TCPAddr bytes \<Rightarrow>
          (case AddrFromSlice bytes of
             None \<Rightarrow> (NoAddr, False)
           | Some ip0 \<Rightarrow>
               let ip = Unmap ip0
               in (ip, list_ex (\<lambda>prefix. Contains prefix ip) prefixes)))"


section \<open>Canonical hosts: lemmas\<close>

definition label_ok :: "string \<Rightarrow> bool" where
  "label_ok l \<longleftrightarrow> l \<noteq> [] \<and> length l \<le> 63 \<and> isAlphaNum (hd l) \<and> isAlphaNum (last l) \<and>
     (\<forall>c\<in>set l. isAlphaNum c \<or> c = CHR ''-'')"

text \<open>The DNS names: labels of lower-case letters, digits and inner hyphens.\<close>

definition dns_name :: "string \<Rightarrow> bool" where
  "dns_name n \<longleftrightarrow> n \<noteq> [] \<and> length n \<le> 253 \<and> (\<forall>l\<in>set (split_byte CHR ''.'' n). label_ok l)"

lemma set_label: "l \<noteq> [] \<Longrightarrow> set l = insert (hd l) (insert (last l) (set (butlast (tl l))))"
proof (cases l)
  case (Cons x xs)
  then show ?thesis by (cases xs rule: rev_cases) auto
qed simp

lemma check_labels_None: "check_labels ls = None \<longleftrightarrow> (\<forall>l\<in>set ls. label_ok l)"
proof (induction ls)
  case (Cons l ls)
  show ?case
  proof (cases "l = []")
    case False
    have "(\<forall>c\<in>set l. isAlphaNum c \<or> c = CHR ''-'') \<longleftrightarrow>
        (isAlphaNum (hd l) \<or> hd l = CHR ''-'') \<and> (isAlphaNum (last l) \<or> last l = CHR ''-'') \<and>
        (\<forall>c\<in>set (butlast (tl l)). isAlphaNum c \<or> c = CHR ''-'')"
      unfolding set_label [OF False] by simp
    then show ?thesis using False Cons by (auto simp: label_ok_def list_ex_iff)
  qed (simp add: label_ok_def)
qed simp

lemma split_byte_ne [simp]: "split_byte sep s \<noteq> []"
  by (cases s) (auto split: list.split)

lemma split_byte_empty: "split_byte sep s = [[]] \<longleftrightarrow> s = []"
  by (cases s) (auto split: list.splits)

lemma set_split_byte: "c \<in> set s \<Longrightarrow> c = sep \<or> (\<exists>w\<in>set (split_byte sep s). c \<in> set w)"
  by (induction s) (auto split: list.splits)

lemma hd_split_byte: "hd (split_byte sep s) \<noteq> [] \<Longrightarrow> hd s = hd (hd (split_byte sep s))"
  by (cases s) (auto split: list.splits)

lemma last_split_byte: "s \<noteq> [] \<Longrightarrow> last (split_byte sep s) \<noteq> [] \<Longrightarrow> last s = last (last (split_byte sep s))"
proof (induction s)
  case (Cons c s)
  then show ?case
    by (cases "s = []"; cases "split_byte sep s") (auto simp: split_byte_empty split: if_splits)
qed simp

definition name_char :: "char \<Rightarrow> bool" where
  "name_char c \<longleftrightarrow> isAlphaNum c \<or> c = CHR ''-'' \<or> c = CHR ''.''"

lemma name_char_code:
  "name_char c \<Longrightarrow> 0x2d \<le> (of_char c :: nat) \<and> (of_char c :: nat) \<le> 0x7a \<and>
     \<not> (0x3a \<le> (of_char c :: nat) \<and> (of_char c :: nat) < 0x61)"
  by (auto simp: name_char_def isAlphaNum_def Let_def)

lemma name_char_not: "name_char c \<Longrightarrow> c \<notin> {CHR '':'', CHR ''%'', CHR ''['', CHR '']''}"
  using name_char_code [of c] by auto

lemma lower_name_char: "name_char c \<Longrightarrow> lower_char c = c"
  using name_char_code [of c] by (auto simp: lower_char_def Let_def)

lemma dns_name_chars:
  assumes "dns_name n"
  shows "\<forall>c\<in>set n. name_char c" and "isAlphaNum (hd n)" and "isAlphaNum (last n)"
proof -
  have l: "\<forall>l\<in>set (split_byte CHR ''.'' n). label_ok l" "n \<noteq> []" using assms by (simp_all add: dns_name_def)
  then show "\<forall>c\<in>set n. name_char c"
    using set_split_byte [of _ n "CHR ''.''"] by (fastforce simp: label_ok_def name_char_def)
  have "label_ok (hd (split_byte CHR ''.'' n))" "label_ok (last (split_byte CHR ''.'' n))"
    using l by simp_all
  then show "isAlphaNum (hd n)" "isAlphaNum (last n)"
    using hd_split_byte [of "CHR ''.''" n] last_split_byte [OF l(2), of "CHR ''.''"]
    by (simp_all add: label_ok_def)
qed

lemma trim_left_of_id:
  assumes "\<forall>p\<in>set ps. p \<noteq> [] \<longrightarrow> hd p \<noteq> hd s"
  shows "trim_left_of ps s = s"
proof -
  have "\<not> has_prefix p s" if "p \<in> set ps" "p \<noteq> []" for p
  proof -
    obtain c q where "p = c # q" using \<open>p \<noteq> []\<close> by (cases p) auto
    moreover have "hd p \<noteq> hd s" using that assms by simp
    ultimately show ?thesis by (cases s) (simp_all add: has_prefix_def)
  qed
  then have "find (\<lambda>p. p \<noteq> [] \<and> has_prefix p s) ps = None"
    by (auto simp: find_None_iff)
  then show ?thesis by (simp add: trim_left_of.simps strip_one_def)
qed

lemma isAlphaNum_code: "isAlphaNum c \<Longrightarrow> 0x30 \<le> (of_char c :: nat) \<and> (of_char c :: nat) \<le> 0x7a"
  by (auto simp: isAlphaNum_def Let_def)

lemma isAlphaNum_not_space: "isAlphaNum c \<Longrightarrow> \<forall>p\<in>set space_encodings. hd p \<noteq> c \<and> hd (rev p) \<noteq> c"
  by (auto simp: space_encodings_def isAlphaNum_def Let_def)

lemma trim_space_id:
  assumes "isAlphaNum (hd s)" "isAlphaNum (last s)" "s \<noteq> []"
  shows "trim_space s = s"
proof -
  have l: "trim_left_of space_encodings s = s"
    using isAlphaNum_not_space [OF assms(1)] by (intro trim_left_of_id) simp
  have "hd (rev s) = last s" using assms(3) by (simp add: hd_rev)
  then have "trim_left_of (map rev space_encodings) (rev s) = rev s"
    using isAlphaNum_not_space [OF assms(2)] by (intro trim_left_of_id) simp
  with l show ?thesis by (simp add: trim_space_def)
qed

lemma utf8_valid_ascii: "\<forall>c\<in>set s. (of_char c :: nat) < 128 \<Longrightarrow> utf8_valid s"
  by (induction s) (auto simp: utf8_valid_def)

lemma contains_single: "contains s [c] \<longleftrightarrow> c \<in> set s"
  by (induction s) (auto simp: has_prefix_def)

lemma has_suffix_last: "has_suffix (xs @ [c]) s \<Longrightarrow> s \<noteq> [] \<and> last s = c"
  by (cases s rule: rev_cases) (auto simp: has_suffix_def has_prefix_def)

lemma parse_v4_labels: "parse_v4 s = Some a \<Longrightarrow> \<forall>l\<in>set (split_byte CHR ''.'' s). list_all is_digit l"
  by (auto simp: parse_v4_def parse_octet_def split: list.splits option.splits if_splits)

lemma dns_name_not_address:
  assumes "dns_name n" "\<not> ambiguousIPName (split_byte CHR ''.'' n)"
  shows "ParseAddr n = None"
proof -
  have v4: "parse_v4 n = None"
  proof (rule ccontr)
    assume "parse_v4 n \<noteq> None"
    then obtain a where "parse_v4 n = Some a" by auto
    then have "list_all is_digit (last (split_byte CHR ''.'' n))" by (auto dest: parse_v4_labels)
    with assms(2) show False by (simp add: ambiguousIPName_def)
  qed
  show ?thesis
  proof (cases "find (\<lambda>c. c \<in> {CHR ''.'', CHR '':'', CHR ''%''}) n")
    case (Some c)
    then have "c \<in> set n" "c \<in> {CHR ''.'', CHR '':'', CHR ''%''}"
      unfolding find_Some_iff by (metis nth_mem)+
    then have "c = CHR ''.''" using dns_name_chars(1) [OF assms(1)] name_char_not by blast
    with Some v4 show ?thesis by (simp add: ParseAddr_def)
  qed (simp add: ParseAddr_def)
qed

lemma canonical_name_Inr:
  assumes "canonical_name toASCII h = Inr (n, isIP)"
  shows "\<not> isIP \<and> dns_name n \<and> \<not> ambiguousIPName (split_byte CHR ''.'' n) \<and> toASCII n = Some n"
  using assms
  by (auto simp: canonical_name_def Let_def dns_name_def check_labels_None split: if_splits option.splits)

lemma canonical_name_fixed:
  assumes "dns_name n" "\<not> ambiguousIPName (split_byte CHR ''.'' n)" "toASCII n = Some n"
  shows "canonical_name toASCII n = Inr (n, False)"
proof -
  note c = dns_name_chars [OF assms(1)]
  have s: "\<not> has_suffix (xs @ ''.'') n" for xs
    using has_suffix_last [of xs "CHR ''.''" n] c(3) by (auto simp: isAlphaNum_def Let_def)
  have l: "to_lower n = n" using c(1) by (simp add: to_lower_def lower_name_char map_idI)
  have "check_labels (split_byte CHR ''.'' n) = None"
    using assms(1) by (simp add: check_labels_None dns_name_def)
  then show ?thesis
    using assms s [of "[]"] s [of "''.''"] l
    by (simp add: canonical_name_def trim_suffix_def dns_name_def Let_def)
qed

lemma count_list_zero: "c \<notin> set s \<Longrightarrow> count_list s c = 0"
  by (induction s) auto

lemma strip_port_name:
  assumes "\<forall>c\<in>set n. name_char c" "n \<noteq> []"
  shows "strip_port n allowPort = Inr n"
proof -
  have not: "CHR '':'' \<notin> set n" "CHR ''['' \<notin> set n" "CHR '']'' \<notin> set n"
    using assms(1) name_char_not by blast+
  have "\<not> has_prefix ''['' n" using not(2) assms(2) by (cases n) (auto simp: has_prefix_def)
  moreover have "\<not> has_suffix '']'' n"
    using not(3) has_suffix_last [of "[]" "CHR '']''" n] by (metis append_Nil last_in_set)
  ultimately show ?thesis using not by (simp add: strip_port_def Let_def count_list_zero)
qed

lemma canonicalHost_fixed:
  assumes n: "dns_name n" "\<not> ambiguousIPName (split_byte CHR ''.'' n)" "toASCII n = Some n"
  shows "canonicalHost toASCII n allowPort = Inr (n, False)"
proof -
  note c = dns_name_chars [OF n(1)]
  have ne: "n \<noteq> []" using n(1) by (simp add: dns_name_def)
  have code: "\<forall>c\<in>set n. 0x21 \<le> (of_char c :: nat) \<and> (of_char c :: nat) \<le> 0x7e"
    using c(1) name_char_code by fastforce
  have "\<not> list_ex (\<lambda>c. (of_char c :: nat) < 0x21 \<or> 0x7e < (of_char c :: nat)) n"
    using code by (auto simp: list_ex_iff)
  moreover have "utf8_valid n" using code by (intro utf8_valid_ascii) fastforce
  moreover have "trim_space n = n" using c(2,3) ne by (rule trim_space_id)
  moreover have "strip_port n allowPort = Inr n" using c(1) ne by (rule strip_port_name)
  moreover have "\<not> contains n ''%''" "\<not> contains n '':''"
    using c(1) name_char_not by (auto simp: contains_single)
  ultimately show ?thesis
    using ne dns_name_not_address [OF n(1,2)] canonical_name_fixed [of n toASCII, OF n]
    by (simp add: canonicalHost_def)
qed

lemma canonicalHost_Inr_name:
  assumes "canonicalHost toASCII raw allowPort = Inr (n, False)"
  shows "dns_name n \<and> \<not> ambiguousIPName (split_byte CHR ''.'' n) \<and> toASCII n = Some n"
proof -
  obtain host where "canonical_name toASCII host = Inr (n, False)"
    using assms by (auto simp: canonicalHost_def split: if_splits sum.splits option.splits)
  then show ?thesis using canonical_name_Inr by blast
qed

lemma canonicalHost_again:
  assumes "canonicalHost toASCII raw allowPort = Inr (n, False)"
  shows "canonicalHost toASCII n allowPort' = Inr (n, False)"
  using canonicalHost_Inr_name [OF assms] by (intro canonicalHost_fixed) simp_all

text \<open>
  (C27) A host that is accepted as a name is a DNS name in canonical form: at most 253 bytes,
  labels of 1 to 63 lower-case letters, digits and inner hyphens, no port, no trailing dot. It
  does not parse as an address, so no later step can take it for one, and canonicalising it
  again, with or without ports allowed, returns it unchanged. Routing, policy and DNS thus see
  one and the same spelling.
\<close>

theorem canonicalHost_name:
  assumes "canonicalHost toASCII raw allowPort = Inr (n, False)"
  shows "dns_name n \<and> ParseAddr n = None \<and> canonicalHost toASCII n allowPort' = Inr (n, False)"
  using canonicalHost_Inr_name [OF assms] canonicalHost_again [OF assms] dns_name_not_address by blast

theorem canonicalHost_name_witness:
  "dns_name ''example.com'' \<and> canonicalHost Some ''example.com'' False = Inr (''example.com'', False)"
proof -
  have "canonicalHost Some ''Example.com.:443'' True = Inr (''example.com'', False)"
    by (simp add: canonicalHost_def canonical_name_def strip_port_def validPort_def netip_eval utf8_valid_def
        SplitHostPort_def ambiguousIPName_def isAlphaNum_def)
  from canonicalHost_name [OF this, of False] show ?thesis by blast
qed


section \<open>Destinations: lemmas\<close>

lemma drop_bit_eq_bits:
  "drop_bit k (a :: 'a::len word) = drop_bit k b \<longleftrightarrow> (\<forall>n\<ge>k. bit a n = bit b n)"
proof
  assume *: "drop_bit k a = drop_bit k b"
  show "\<forall>n\<ge>k. bit a n = bit b n"
  proof (intro allI impI)
    fix n assume "k \<le> n"
    then show "bit a n = bit b n"
      using arg_cong [OF *, of "\<lambda>w. bit w (n - k)"] by (simp add: bit_drop_bit_eq)
  qed
next
  assume "\<forall>n\<ge>k. bit a n = bit b n"
  then show "drop_bit k a = drop_bit k b"
    by (intro bit_word_eqI) (simp add: bit_drop_bit_eq)
qed

lemma Contains_unmapped:
  assumes "mapped x" "96 \<le> n" "n \<le> 128"
  shows "Contains (Pfx (V4 (ucast x)) (n - 96)) (Unmap (V6 y [])) \<longleftrightarrow> Contains (Pfx (V6 x z) n) (V6 y [])"
proof -
  define k where "k = 128 - n"
  have k: "32 - (n - 96) = k" "k \<le> 32" using assms(2,3) by (auto simp: k_def)
  have low: "(\<forall>i\<ge>k. bit (ucast y :: u32) i = bit (ucast x :: u32) i) \<longleftrightarrow>
      (\<forall>i\<ge>k. i < 32 \<longrightarrow> bit y i = bit x i)"
    by (auto simp: bit_ucast_iff)
  have up: "(\<forall>i\<ge>32. bit y i = bit x i) \<longleftrightarrow> mapped y"
    using assms(1) by (simp add: mapped_def flip: drop_bit_eq_bits)
  show ?thesis
  proof (cases "mapped y")
    case True
    then have "\<forall>i\<ge>32. bit y i = bit x i" using up by blast
    then have "(\<forall>i\<ge>k. i < 32 \<longrightarrow> bit y i = bit x i) \<longleftrightarrow> (\<forall>i\<ge>k. bit y i = bit x i)"
      by (metis not_le_imp_less)
    then show ?thesis
      using True low
      by (simp only: Unmap.simps if_True Contains.simps xor_drop_bit_eq_0 drop_bit_eq_bits k(1) simp_thms flip: k_def)
  next
    case False
    then have "\<not> (\<forall>i\<ge>k. bit y i = bit x i)" using up k(2) by (meson le_trans)
    with False show ?thesis
      by (simp only: Unmap.simps if_False Contains.simps xor_drop_bit_eq_0 drop_bit_eq_bits simp_thms flip: k_def)
  qed
qed

text \<open>
  (C28) The policy's reading of a prefix keeps its meaning: an ordinary prefix covers the same
  addresses after it is masked, and an IPv4-mapped prefix, turned into an IPv4 prefix, covers
  the unmapped form of exactly the addresses that the mapped prefix covers. An exception written
  in either notation opens neither more nor less than it says.
\<close>

theorem parsePolicyPrefix_same_addresses:
  assumes "parsePolicyPrefix raw = Some q" "ParsePrefix raw = Some p"
  shows "if Is4In6 (pfx_addr p) then \<forall>y. Contains q (Unmap (V6 y [])) = Contains p (V6 y [])
         else \<forall>a. Contains q a = Contains p a"
proof (cases "Is4In6 (pfx_addr p)")
  case True
  then obtain x z n where p: "p = Pfx (V6 x z) n" "mapped x"
    by (cases p; cases "pfx_addr p") auto
  have "96 \<le> n" "n \<le> 128" "q = Masked (Pfx (V4 (ucast x)) (n - 96))"
    using assms p ParsePrefix_bits [OF assms(2)] by (auto simp: parsePolicyPrefix_def split: if_splits)
  then show ?thesis
    using True p Contains_unmapped [OF p(2), of n] by (simp only: Contains_Masked if_True) blast
next
  case False
  then have "q = Masked p" using assms by (auto simp: parsePolicyPrefix_def split: if_splits)
  with False show ?thesis by (simp add: Contains_Masked)
qed

theorem parsePolicyPrefix_same_addresses_witness:
  "\<forall>y. Contains (Pfx (V4 0x0A000000) 8) (Unmap (V6 y [])) = Contains (Pfx (V6 0xFFFF0A000000 []) 104) (V6 y [])"
proof -
  have p: "ParsePrefix ''::ffff:10.0.0.0/104'' = Some (Pfx (V6 0xFFFF0A000000 []) 104)"
    by (simp add: netip_eval)
  then have q: "parsePolicyPrefix ''::ffff:10.0.0.0/104'' = Some (Pfx (V4 0x0A000000) 8)"
    by (simp add: parsePolicyPrefix_def netip_eval mask_eq_exp_minus_1)
  show ?thesis
    using parsePolicyPrefix_same_addresses [OF q p] by (simp add: mapped_def)
qed

text \<open>The destinations the policy means: declarative, without the order of the tests.\<close>

definition special_range :: "addr \<Rightarrow> bool" where
  "special_range a \<longleftrightarrow> IsLoopback a \<or> IsPrivate a \<or> IsLinkLocalUnicast a \<or> IsLinkLocalMulticast a \<or>
     (\<exists>q\<in>set defaultDeniedDestinationPrefixes. Contains q a)"

definition reachable :: "destinationPolicy \<Rightarrow> int \<Rightarrow> addr set \<Rightarrow> addr \<Rightarrow> bool" where
  "reachable p mark self a \<longleftrightarrow>
     IsValid a \<and> Zone a = [] \<and> \<not> Is4In6 a \<and> \<not> IsUnspecified a \<and> \<not> IsMulticast a \<and> a \<notin> self \<and>
     (special_range a \<longrightarrow> (\<exists>qs. p mark = Some qs \<and> (\<exists>q\<in>set qs. Contains q a)))"

lemma Unmap_facts: "\<not> Is4In6 (Unmap a)" "Unmap (Unmap a) = Unmap a" "IsValid (Unmap a) = IsValid a"
  "Zone a = [] \<Longrightarrow> Zone (Unmap a) = []"
  by (cases a; simp add: IsValid_def)+

lemma addressAllowed_iff:
  "addressAllowed p a mark self \<longleftrightarrow> IsValid a \<and> Zone a = [] \<and> reachable p mark self (Unmap a)"
  unfolding addressAllowed_def reachable_def special_range_def Let_def list_ex_iff
  by (cases "p mark") (auto simp: Unmap_facts)

text \<open>
  The interface \<open>AddressSelector\<close>: whatever order and number a selector chooses, it returns
  unmapped forms of its input that pass the given test. That is all the dial path needs.
\<close>

locale address_selector =
  fixes select :: "'s \<Rightarrow> addr list \<Rightarrow> (addr \<Rightarrow> bool) option \<Rightarrow> addr list \<times> 's"
  assumes screened: "a \<in> set (fst (select s input (Some ok))) \<Longrightarrow> ok a \<and> (\<exists>b\<in>set input. a = Unmap b)"
begin

lemma selected_reachable:
  assumes "a \<in> set (fst (select s input (Some (\<lambda>a. addressAllowed p a mark self))))"
  shows "reachable p mark self a"
proof -
  from screened [OF assms] obtain b where "addressAllowed p a mark self" "a = Unmap b" by blast
  then show ?thesis by (simp add: addressAllowed_iff Unmap_facts)
qed

lemma dial_confined:
  fixes dial :: "('w, 'e, 'conn) DialFunc"
  shows "DialCandidates ctx (fst (select s input (Some (\<lambda>a. addressAllowed p a mark self)))) port attemptCap egress (Some dial) m w =
    DialCandidates ctx (fst (select s input (Some (\<lambda>a. addressAllowed p a mark self)))) port attemptCap egress
      (Some (\<lambda>d net address w.
         if \<exists>a. reachable p mark self a \<and> address = JoinHostPort (addr_string a) port
         then dial d net address w else elsewhere d net address w)) m w"
proof (rule DialCandidates_only)
  fix c d w
  assume "c \<in> set (fst (select s input (Some (\<lambda>a. addressAllowed p a mark self))))"
  then have "\<exists>a. reachable p mark self a \<and> JoinHostPort (addr_string c) port = JoinHostPort (addr_string a) port"
    using selected_reachable by blast
  then show "dial d ''tcp'' (JoinHostPort (addr_string c) port) w =
    (if \<exists>a. reachable p mark self a \<and> JoinHostPort (addr_string c) port = JoinHostPort (addr_string a) port
     then dial d ''tcp'' (JoinHostPort (addr_string c) port) w
     else elsewhere d ''tcp'' (JoinHostPort (addr_string c) port) w)"
    by (rule if_P [symmetric])
qed

end

interpretation rotating: address_selector Select
proof
  fix a :: addr and s input ok
  assume "a \<in> set (fst (Select s input (Some ok)))"
  then have "a \<in> admitted (Some ok) input"
    using Select_screened by blast
  then show "ok a \<and> (\<exists>b\<in>set input. a = Unmap b)" by (auto simp: admitted_def)
qed

text \<open>
  The proxy's dial path is confined to the destination policy. With the candidates that the
  rotating selector takes from a DNS answer under \<open>addressAllowed\<close>, the outcome of
  \<open>DialCandidates\<close>, its counters and its effect on the world stay the same when the network is
  replaced by anything else on every address that the policy does not reach: it asks for no such
  address. A reachable address is valid, unmapped and zone-free, is not unspecified, multicast or
  the daemon's own, and lies in a private or special range only if an exception of this very mark
  covers it.
\<close>

lemma proxy_dials_only_reachable:
  fixes dial :: "('w, 'e, 'conn) DialFunc"
  shows "DialCandidates ctx (fst (Select s answer (Some (\<lambda>a. addressAllowed p a mark self)))) port attemptCap egress (Some dial) m w =
    DialCandidates ctx (fst (Select s answer (Some (\<lambda>a. addressAllowed p a mark self)))) port attemptCap egress
      (Some (\<lambda>d net address w.
         if \<exists>a. reachable p mark self a \<and> address = JoinHostPort (addr_string a) port
         then dial d net address w else elsewhere d net address w)) m w"
  by (rule rotating.dial_confined)

end
