(* ===== verification/Config_Validate.thy ===== *)
theory Config_Validate
  imports Host_Policy Kernel_Plan
begin

text \<open>
  Loading a configuration, \<open>src/cmd/sakhtar-wg/config.go\<close>: the defaults that \<open>normalize\<close> fills
  in, the checks of \<open>validate\<close> in their order with one error value per message, and the strict
  parser around them. The checks of the source that return the first error are lists of optional
  errors here, of which the first one counts. The lemmas replace the loops and their seen-sets by
  what they decide: a configuration passes exactly when a declarative predicate holds.

  Parameters: \<open>parseKey\<close> is \<open>wgtypes.ParseKey\<close>, \<open>toASCII\<close> is \<open>idna.Lookup.ToASCII\<close>, \<open>decode\<close> and
  \<open>trailing\<close> are the YAML decoder on the first and on the next document, and \<open>rng\<close> is the order in
  which Go visits the keys of a map.
\<close>


section \<open>Errors\<close>

datatype management_error =
  SocketRelative | ListenSplit | ListenNotLoopback | ManagementTimeout string | ManagementHeaderBytes

datatype tunnel_error =
    TunnelNameRequired | TunnelNameBad | TunnelNameDuplicate
  | PrivateKeyRequired | PrivateKeyBad | AddressRequired | AddressBad string | MTUNegative
  | FwmarkRange | FwmarkUsed int string | TableRange | TableTaken int string

datatype peer_error =
    PublicKeyRequired | PublicKeyBad | EndpointRequired | EndpointBad | KeepaliveRange
  | AllowedIPBad string | RouteBad string | RouteDuplicate string

datatype probe_error =
    ProbeEndpoint | ProbeCredentials | ProbeViaUnknown | ProbeInterval | ProbeTimeout | ProbeJitter
  | ProbeConcurrent | ProbeFailAfter | ProbeRecoverAfter | ProbeMaxAge

datatype source_error =
    SourceNameRequired | SourceNameBad | SourceDuplicate | SourceURLRequired | SourceURLBad
  | SourceFormat string | SourceViaUnknown string

datatype pfsync_error = PfSyncIncomplete | PfSyncPort | PfSyncTunnel | PfSyncNetwork string

datatype group_error =
    GroupNameRequired | GroupNameBad | GroupTunnelClash | GroupDuplicate | GroupEmpty
  | GroupHealthyAfter | GroupMemberUnknown string | GroupMemberDuplicate string

datatype resolver_error = ResolversTooMany nat | ResolverBad | ResolverTwice string

datatype egress_error =
    DirectCIDRBad string | TunnelCIDRsUnknown string | TunnelCIDRBad string string
  | DefaultUnknown string | RuleViaUnknown nat string | SuffixInvalid nat nat | SuffixIsIP nat nat

datatype config_error =
    BadRouteRefresh
  | BadHealthInterval
  | InManagement management_error
  | InTunnel nat string tunnel_error
  | InPeer string peer_error
  | InProbe probe_error
  | InAllocations allocation_error
  | GatewayOverlap prefix string prefix string
  | InSource string source_error
  | ClientCIDRBad string
  | ListListenBad
  | InPfSync pfsync_error
  | InGroup nat string group_error
  | ProxyLimit string
  | SourceCIDRBad string
  | ListenerBad string
  | ListenerNeedsACL string
  | InResolvers string resolver_error
  | InEgress egress_error


section \<open>Combining checks\<close>

fun first_of :: "'e option list \<Rightarrow> 'e option" where
  "first_of [] = None"
| "first_of (Some e # cs) = Some e"
| "first_of (None # cs) = first_of cs"

definition require :: "bool \<Rightarrow> 'e \<Rightarrow> 'e option" where
  "require ok e = (if ok then None else Some e)"

definition each :: "('a \<Rightarrow> bool) \<Rightarrow> 'a list \<Rightarrow> ('a \<Rightarrow> 'e) \<Rightarrow> 'e option" where
  "each ok xs e = map_option e (find (\<lambda>x. \<not> ok x) xs)"


section \<open>Names, hosts and ports\<close>

definition name_set_char :: "char \<Rightarrow> bool" where
  "name_set_char c \<longleftrightarrow> is_alpha c \<or> is_digit c \<or> c \<in> set ''_.-''"

definition interfaceNameRE :: "string \<Rightarrow> bool" where
  "interfaceNameRE s \<longleftrightarrow> s \<noteq> [] \<and> list_all name_set_char s"

definition operationalNameRE :: "string \<Rightarrow> bool" where
  "operationalNameRE s \<longleftrightarrow> s \<noteq> [] \<and> length s \<le> 64 \<and> list_all name_set_char s"

definition validateHostPort :: "string \<Rightarrow> bool \<Rightarrow> bool" where
  "validateHostPort addr emptyHostOK \<longleftrightarrow>
     (case SplitHostPort addr of
        None \<Rightarrow> False
      | Some (host, portText) \<Rightarrow>
          (emptyHostOK \<or> host \<noteq> []) \<and>
          (case atoi portText of None \<Rightarrow> False | Some port \<Rightarrow> 1 \<le> port \<and> port \<le> 65535))"

definition validateListener :: "string \<Rightarrow> bool" where
  "validateListener addr \<longleftrightarrow>
     validateHostPort addr True \<and>
     (case SplitHostPort addr of
        None \<Rightarrow> True
      | Some (host, _) \<Rightarrow> host = [] \<or> (\<not> contains host ''%'' \<and> ParseAddr host \<noteq> None))"

definition listenerNeedsSourceACL :: "string \<Rightarrow> bool" where
  "listenerNeedsSourceACL addr \<longleftrightarrow>
     (case SplitHostPort addr of
        None \<Rightarrow> True
      | Some (host, _) \<Rightarrow>
          host = [] \<or> (case ParseAddr host of None \<Rightarrow> True | Some ip \<Rightarrow> \<not> IsLoopback (Unmap ip)))"

fun resolver_loop :: "string \<Rightarrow> string set \<Rightarrow> string list \<Rightarrow> config_error option" where
  "resolver_loop field seen [] = None"
| "resolver_loop field seen (r # rs) =
     (if \<not> validateHostPort r False then Some (InResolvers field ResolverBad)
      else if r \<in> seen then Some (InResolvers field (ResolverTwice r))
      else resolver_loop field (insert r seen) rs)"

definition validateResolvers :: "string \<Rightarrow> ResolverList \<Rightarrow> config_error option" where
  "validateResolvers field resolvers =
     (if maxResolvers < length resolvers then Some (InResolvers field (ResolversTooMany (length resolvers)))
      else resolver_loop field {} resolvers)"


section \<open>Defaults\<close>

definition default_int :: "int \<Rightarrow> int \<Rightarrow> int" where
  "default_int d x = (if x = 0 then d else x)"

definition normalize_tunnel :: "nat \<Rightarrow> Tunnel \<Rightarrow> Tunnel" where
  "normalize_tunnel i t =
     t\<lparr>tun_Table := default_int (tun_Fwmark t) (tun_Table t),
       tun_MTU := default_int 1420 (tun_MTU t),
       tun_FwmarkMask := (if tun_FwmarkMask t = 0 then FullMarkMask else tun_FwmarkMask t),
       tun_RulePriority := default_int (RulePriorityMin + int i) (tun_RulePriority t),
       tun_Peer := (tun_Peer t)\<lparr>peer_AllowedIPs :=
          (if peer_AllowedIPs (tun_Peer t) = [] then [''0.0.0.0/0''] else peer_AllowedIPs (tun_Peer t))\<rparr>,
       tun_RouteSources := map (\<lambda>s. if rsrc_Via s = [] then s\<lparr>rsrc_Via := ''direct''\<rparr> else s)
          (tun_RouteSources t)\<rparr>"

fun normalize_tunnels :: "nat \<Rightarrow> Tunnel list \<Rightarrow> Tunnel list" where
  "normalize_tunnels i [] = []"
| "normalize_tunnels i (t # ts) = normalize_tunnel i t # normalize_tunnels (i + 1) ts"

definition normalize_probe :: "HealthProbe \<Rightarrow> HealthProbe" where
  "normalize_probe h =
     (let interval = default_int 30 (hp_Interval h)
      in h\<lparr>hp_Interval := interval,
           hp_Timeout := default_int 5 (hp_Timeout h),
           hp_JitterPercent := default_int 20 (hp_JitterPercent h),
           hp_MaxConcurrent := default_int 1 (hp_MaxConcurrent h),
           hp_FailAfter := default_int 2 (hp_FailAfter h),
           hp_RecoverAfter := default_int 3 (hp_RecoverAfter h),
           hp_MaxAge := default_int (wrap64 (3 * interval)) (hp_MaxAge h)\<rparr>)"

definition normalize_management :: "Management \<Rightarrow> Management" where
  "normalize_management m =
     m\<lparr>mg_Listen := (if mg_Listen m = [] then ''127.0.0.1:9090'' else mg_Listen m),
       mg_ReadHeaderTimeout := default_int defaultManagementReadHeaderTimeout (mg_ReadHeaderTimeout m),
       mg_WriteTimeout := default_int defaultManagementWriteTimeout (mg_WriteTimeout m),
       mg_IdleTimeout := default_int defaultManagementIdleTimeout (mg_IdleTimeout m),
       mg_ShutdownTimeout := default_int defaultManagementShutdownTimeout (mg_ShutdownTimeout m),
       mg_MaxHeaderBytes := default_int defaultManagementMaxHeaderBytes (mg_MaxHeaderBytes m)\<rparr>"

definition normalize_proxy :: "Proxy \<Rightarrow> Proxy" where
  "normalize_proxy p =
     (let maxTTL = default_int defaultDNSMaxPositiveTTL (px_DNSMaxPositiveTTL p)
      in p\<lparr>px_DialTimeout := default_int 10 (px_DialTimeout p),
           px_HandshakeTimeout := default_int defaultHandshakeTimeout (px_HandshakeTimeout p),
           px_ShutdownGrace := default_int defaultShutdownGrace (px_ShutdownGrace p),
           px_MaxConnections := default_int defaultMaxConnections (px_MaxConnections p),
           px_MaxClientHelloBytes := default_int defaultMaxClientHelloBytes (px_MaxClientHelloBytes p),
           px_MaxHTTPHeaderBytes := default_int defaultMaxHTTPHeaderBytes (px_MaxHTTPHeaderBytes p),
           px_DNSPositiveCapacity := default_int defaultDNSPositiveCapacity (px_DNSPositiveCapacity p),
           px_DNSNegativeCapacity := default_int defaultDNSNegativeCapacity (px_DNSNegativeCapacity p),
           px_DNSMaxPending := default_int defaultDNSMaxPending (px_DNSMaxPending p),
           px_DNSMinPositiveTTL := default_int defaultDNSMinPositiveTTL (px_DNSMinPositiveTTL p),
           px_DNSMaxPositiveTTL := maxTTL,
           px_DNSCacheTTL := default_int maxTTL (px_DNSCacheTTL p),
           px_DNSNegativeTTL := default_int defaultDNSNegativeTTL (px_DNSNegativeTTL p),
           px_DNSTransientFailureTTL := default_int defaultDNSTransientTTL (px_DNSTransientFailureTTL p),
           px_DNSStaleWindow := default_int defaultDNSStaleWindow (px_DNSStaleWindow p),
           px_DNSStalePolicy := (if px_DNSStalePolicy p = [] then ''transient'' else px_DNSStalePolicy p),
           px_DNSResolverTimeout := default_int defaultDNSResolverTimeout (px_DNSResolverTimeout p),
           px_AddressFamilyStrategy :=
             (if px_AddressFamilyStrategy p = [] then ''interleave'' else px_AddressFamilyStrategy p),
           px_ConnectAttemptCap := default_int defaultConnectAttemptCap (px_ConnectAttemptCap p),
           px_Default := (if px_Default p = [] then ''direct'' else px_Default p),
           px_Resolver := orDefault (px_Resolver p),
           px_Rules := map (\<lambda>r. r\<lparr>rule_Suffixes := map (trim_prefix ''.'') (rule_Suffixes r)\<rparr>) (px_Rules p)\<rparr>)"

definition config_normalize :: "Config \<Rightarrow> Config" where
  "config_normalize c =
     c\<lparr>cfg_Tunnels := normalize_tunnels 0 (cfg_Tunnels c),
       cfg_Groups := map (\<lambda>g. g\<lparr>grp_HealthyAfter := default_int 180 (grp_HealthyAfter g)\<rparr>) (cfg_Groups c),
       cfg_RouteRefresh := default_int 21600 (cfg_RouteRefresh c),
       cfg_HealthInterval := default_int 10 (cfg_HealthInterval c),
       cfg_HealthProbe := normalize_probe (cfg_HealthProbe c),
       cfg_Management := normalize_management (cfg_Management c),
       cfg_Proxy := normalize_proxy (cfg_Proxy c)\<rparr>"


section \<open>The checks\<close>

definition check_management :: "(string list \<Rightarrow> string list) \<Rightarrow> Management \<Rightarrow> config_error option" where
  "check_management rng m =
     (if mg_Disabled m then None
      else
        let timeouts = [(''read_header_timeout'', mg_ReadHeaderTimeout m), (''write_timeout'', mg_WriteTimeout m),
                        (''idle_timeout'', mg_IdleTimeout m), (''shutdown_timeout'', mg_ShutdownTimeout m)]
        in map_option InManagement (first_of
          [if has_prefix ''unix:'' (mg_Listen m)
           then (let path = trim_prefix ''unix:'' (mg_Listen m)
                 in require (has_prefix ''/'' path \<and> 2 \<le> length path) SocketRelative)
           else (case SplitHostPort (mg_Listen m) of
                   None \<Rightarrow> Some ListenSplit
                 | Some (host, _) \<Rightarrow>
                     (case ParseIP host of
                        None \<Rightarrow> Some ListenNotLoopback
                      | Some ip \<Rightarrow> require (IsLoopback ip) ListenNotLoopback)),
           each (\<lambda>name. case map_of timeouts name of
                   None \<Rightarrow> True | Some value \<Rightarrow> validSeconds value \<and> value \<noteq> 0)
             (rng (map fst timeouts)) ManagementTimeout,
           require (1024 \<le> mg_MaxHeaderBytes m \<and> mg_MaxHeaderBytes m \<le> maxConfiguredProtocolBytes)
             ManagementHeaderBytes]))"

text \<open>The state of the tunnel loop: what was seen, and the two lists it collects.\<close>

record tunnel_scan =
  seenName :: "string set"
  seenMark :: "int \<rightharpoonup> string"
  seenTable :: "int \<rightharpoonup> string"
  allocations :: "Allocation list"
  gatewayRoutes :: "(string \<times> prefix) list"

definition no_tunnels :: tunnel_scan where
  "no_tunnels = \<lparr>seenName = {}, seenMark = Map.empty, seenTable = Map.empty, allocations = [], gatewayRoutes = []\<rparr>"

definition ipv4_prefix :: "string \<Rightarrow> bool" where
  "ipv4_prefix s \<longleftrightarrow> (case ParsePrefix s of None \<Rightarrow> False | Some p \<Rightarrow> Is4 (pfx_addr p))"

definition check_tunnel :: "(string \<Rightarrow> bool) \<Rightarrow> nat \<Rightarrow> Tunnel \<Rightarrow> tunnel_scan \<Rightarrow> config_error option" where
  "check_tunnel parseKey i t st =
     map_option (InTunnel i (tun_Name t)) (first_of
       [require (tun_Name t \<noteq> []) TunnelNameRequired,
        require (length (tun_Name t) \<le> 15 \<and> interfaceNameRE (tun_Name t)) TunnelNameBad,
        require (tun_Name t \<notin> seenName st) TunnelNameDuplicate,
        require (tun_PrivateKey t \<noteq> []) PrivateKeyRequired,
        require (parseKey (tun_PrivateKey t)) PrivateKeyBad,
        require (tun_Address t \<noteq> []) AddressRequired,
        require (ipv4_prefix (tun_Address t)) (AddressBad (tun_Address t)),
        require (0 \<le> tun_MTU t) MTUNegative,
        require (0 < tun_Fwmark t \<and> tun_Fwmark t < 2 ^ 32) FwmarkRange,
        map_option (FwmarkUsed (tun_Fwmark t)) (seenMark st (tun_Fwmark t)),
        require (0 < tun_Table t \<and> tun_Table t < 2 ^ 31) TableRange,
        map_option (TableTaken (tun_Table t)) (seenTable st (tun_Table t))])"

definition check_peer :: "(string \<Rightarrow> bool) \<Rightarrow> string \<Rightarrow> config_Peer \<Rightarrow> config_error option" where
  "check_peer parseKey name p =
     map_option (InPeer name) (first_of
       [require (peer_PublicKey p \<noteq> []) PublicKeyRequired,
        require (parseKey (peer_PublicKey p)) PublicKeyBad,
        require (peer_Endpoint p \<noteq> []) EndpointRequired,
        require (validateHostPort (peer_Endpoint p) False) EndpointBad,
        require (validSeconds (peer_Keepalive p)) KeepaliveRange,
        each (\<lambda>a. ParseCIDR a \<noteq> None) (peer_AllowedIPs p) AllowedIPBad])"

fun route_loop :: "string \<Rightarrow> string list \<Rightarrow> string set \<Rightarrow> (string \<times> prefix) list \<Rightarrow>
    config_error + (string \<times> prefix) list"
where
  "route_loop name [] seenRoute routes = Inr routes"
| "route_loop name (r # rs) seenRoute routes =
     (case ParsePrefix r of
        None \<Rightarrow> Inl (InPeer name (RouteBad r))
      | Some prefix \<Rightarrow>
          if \<not> Is4 (pfx_addr prefix) then Inl (InPeer name (RouteBad r))
          else let canonical = prefix_string (Masked prefix)
            in if canonical \<in> seenRoute then Inl (InPeer name (RouteDuplicate canonical))
               else route_loop name rs (insert canonical seenRoute) (routes @ [(name, Masked prefix)]))"

definition allocation_of :: "Tunnel \<Rightarrow> Allocation" where
  "allocation_of t = \<lparr>al_Name = tun_Name t, al_Mark = word_of_int (tun_Fwmark t), al_Mask = tun_FwmarkMask t,
     al_Table = tun_Table t, al_Priority = tun_RulePriority t\<rparr>"

fun check_tunnels :: "(string \<Rightarrow> bool) \<Rightarrow> nat \<Rightarrow> Tunnel list \<Rightarrow> tunnel_scan \<Rightarrow> config_error + tunnel_scan" where
  "check_tunnels parseKey i [] st = Inr st"
| "check_tunnels parseKey i (t # ts) st =
     (case first_of [check_tunnel parseKey i t st, check_peer parseKey (tun_Name t) (tun_Peer t)] of
        Some e \<Rightarrow> Inl e
      | None \<Rightarrow>
          (case route_loop (tun_Name t) (tun_Routes t) {} (gatewayRoutes st) of
             Inl e \<Rightarrow> Inl e
           | Inr routes \<Rightarrow>
               check_tunnels parseKey (i + 1) ts
                 \<lparr>seenName = insert (tun_Name t) (seenName st),
                  seenMark = (seenMark st)(tun_Fwmark t \<mapsto> tun_Name t),
                  seenTable = (seenTable st)(tun_Table t \<mapsto> tun_Name t),
                  allocations = allocations st @ [allocation_of t],
                  gatewayRoutes = routes\<rparr>))"

definition check_probe :: "string set \<Rightarrow> HealthProbe \<Rightarrow> config_error option" where
  "check_probe names h =
     (if \<not> hp_Enabled h then None
      else map_option InProbe (first_of
        [case ParseRequestURI (hp_Endpoint h) of
           None \<Rightarrow> Some ProbeEndpoint
         | Some u \<Rightarrow> first_of [require (http_url u) ProbeEndpoint, require (\<not> url_HasUser u) ProbeCredentials],
         require (hp_Via h = [] \<or> hp_Via h \<in> names) ProbeViaUnknown,
         require (5 \<le> hp_Interval h \<and> validSeconds (hp_Interval h)) ProbeInterval,
         require (1 \<le> hp_Timeout h \<and> hp_Timeout h < hp_Interval h) ProbeTimeout,
         require (0 \<le> hp_JitterPercent h \<and> hp_JitterPercent h \<le> 100) ProbeJitter,
         require (1 \<le> hp_MaxConcurrent h \<and> hp_MaxConcurrent h \<le> 8) ProbeConcurrent,
         require (1 \<le> hp_FailAfter h \<and> hp_FailAfter h \<le> 10) ProbeFailAfter,
         require (1 \<le> hp_RecoverAfter h \<and> hp_RecoverAfter h \<le> 10) ProbeRecoverAfter,
         require (validSeconds (hp_MaxAge h) \<and> hp_Interval h + hp_Timeout h \<le> hp_MaxAge h) ProbeMaxAge]))"

text \<open>Every route against the ones before it, in the order of the two nested loops.\<close>

fun overlap_loop :: "(string \<times> prefix) list \<Rightarrow> (string \<times> prefix) list \<Rightarrow> config_error option" where
  "overlap_loop earlier [] = None"
| "overlap_loop earlier ((name, prefix) # rest) =
     (case find (\<lambda>(other, q). name \<noteq> other \<and> Overlaps prefix q) earlier of
        Some (other, q) \<Rightarrow> Some (GatewayOverlap q other prefix name)
      | None \<Rightarrow> overlap_loop (earlier @ [(name, prefix)]) rest)"

fun source_loop :: "string set \<Rightarrow> string \<Rightarrow> RouteSource list \<Rightarrow> string set \<Rightarrow> config_error + string set" where
  "source_loop names tunnel [] seen = Inr seen"
| "source_loop names tunnel (s # ss) seen =
     (case first_of
        [require (rsrc_Name s \<noteq> []) SourceNameRequired,
         require (operationalNameRE (rsrc_Name s)) SourceNameBad,
         require (rsrc_Name s \<notin> seen) SourceDuplicate,
         require (rsrc_URL s \<noteq> []) SourceURLRequired,
         (case ParseRequestURI (rsrc_URL s) of
            None \<Rightarrow> Some SourceURLBad | Some u \<Rightarrow> require (http_url u) SourceURLBad),
         require (rsrc_Format s = ''cidr-lines'' \<or> rsrc_Format s = ''ripe-prefixes'') (SourceFormat (rsrc_Format s)),
         require (rsrc_Via s = [] \<or> rsrc_Via s = ''direct'' \<or> rsrc_Via s \<in> names) (SourceViaUnknown (rsrc_Via s))] of
        Some e \<Rightarrow> Inl (InSource (if rsrc_Name s = [] then tunnel else rsrc_Name s) e)
      | None \<Rightarrow> source_loop names tunnel ss (insert (rsrc_Name s) seen))"

fun check_sources :: "string set \<Rightarrow> Tunnel list \<Rightarrow> string set \<Rightarrow> config_error option" where
  "check_sources names [] seen = None"
| "check_sources names (t # ts) seen =
     (case source_loop names (tun_Name t) (tun_RouteSources t) seen of
        Inl e \<Rightarrow> Some e | Inr seen' \<Rightarrow> check_sources names ts seen')"

definition check_gateway :: "Gateway \<Rightarrow> config_error option" where
  "check_gateway g =
     first_of [each ipv4_prefix (gw_ClientCIDRs g) ClientCIDRBad,
               require (gw_ListListen g = [] \<or> validateHostPort (gw_ListListen g) True) ListListenBad]"

definition check_pfsync :: "string set \<Rightarrow> PfSync \<Rightarrow> config_error option" where
  "check_pfsync names p =
     (if \<not> pf_Enabled p then None
      else map_option InPfSync (first_of
        [require (pf_SSHHost p \<noteq> [] \<and> pf_SSHUser p \<noteq> [] \<and> pf_SSHKey p \<noteq> [] \<and> pf_KnownHosts p \<noteq> []) PfSyncIncomplete,
         require (0 \<le> pf_SSHPort p \<and> pf_SSHPort p \<le> 65535) PfSyncPort,
         require (pf_FromTunnel p \<in> names) PfSyncTunnel,
         each (\<lambda>n. ParseCIDR n \<noteq> None) (pf_KeepNetworks p) PfSyncNetwork]))"

fun member_loop :: "string set \<Rightarrow> string list \<Rightarrow> string set \<Rightarrow> group_error option" where
  "member_loop names [] seenMember = None"
| "member_loop names (m # ms) seenMember =
     (if m \<notin> names then Some (GroupMemberUnknown m)
      else if m \<in> seenMember then Some (GroupMemberDuplicate m)
      else member_loop names ms (insert m seenMember))"

fun check_groups :: "string set \<Rightarrow> nat \<Rightarrow> config_Group list \<Rightarrow> string set \<Rightarrow> config_error + string set" where
  "check_groups names i [] seenGroup = Inr seenGroup"
| "check_groups names i (g # gs) seenGroup =
     (case first_of
        [require (grp_Name g \<noteq> []) GroupNameRequired,
         require (operationalNameRE (grp_Name g)) GroupNameBad,
         require (grp_Name g \<notin> names) GroupTunnelClash,
         require (grp_Name g \<notin> seenGroup) GroupDuplicate,
         require (grp_Members g \<noteq> []) GroupEmpty,
         require (validSeconds (grp_HealthyAfter g)) GroupHealthyAfter,
         member_loop names (grp_Members g) {}] of
        Some e \<Rightarrow> Inl (InGroup i (grp_Name g) e)
      | None \<Rightarrow> check_groups names (i + 1) gs (insert (grp_Name g) seenGroup))"

definition check_proxy_timers :: "Proxy \<Rightarrow> config_error option" where
  "check_proxy_timers p =
     first_of
       [require (validSeconds (px_DialTimeout p)) (ProxyLimit ''dial_timeout''),
        require (validSeconds (px_HandshakeTimeout p)) (ProxyLimit ''handshake_timeout''),
        require (validSeconds (px_IdleTimeout p)) (ProxyLimit ''idle_timeout''),
        require (validSeconds (px_ShutdownGrace p)) (ProxyLimit ''shutdown_grace''),
        require (validSeconds (px_DNSCacheTTL p)) (ProxyLimit ''dns_cache_ttl''),
        require (validSeconds (px_DNSMinPositiveTTL p) \<and> px_DNSMinPositiveTTL p \<noteq> 0) (ProxyLimit ''dns_min_positive_ttl''),
        require (validSeconds (px_DNSMaxPositiveTTL p) \<and> px_DNSMinPositiveTTL p \<le> px_DNSMaxPositiveTTL p)
          (ProxyLimit ''dns_max_positive_ttl''),
        require (px_DNSMinPositiveTTL p \<le> px_DNSCacheTTL p \<and> px_DNSCacheTTL p \<le> px_DNSMaxPositiveTTL p)
          (ProxyLimit ''dns_cache_ttl''),
        require (validSeconds (px_DNSNegativeTTL p) \<and> px_DNSNegativeTTL p \<noteq> 0) (ProxyLimit ''dns_negative_ttl''),
        require (validSeconds (px_DNSTransientFailureTTL p) \<and> px_DNSTransientFailureTTL p \<noteq> 0)
          (ProxyLimit ''dns_transient_failure_ttl''),
        require (validSeconds (px_DNSStaleWindow p)) (ProxyLimit ''dns_stale_window''),
        require (validSeconds (px_DNSResolverTimeout p) \<and> px_DNSResolverTimeout p \<noteq> 0)
          (ProxyLimit ''dns_resolver_timeout'')]"

definition check_proxy_limits :: "Proxy \<Rightarrow> config_error option" where
  "check_proxy_limits p =
     first_of
       [require (1 \<le> px_DNSPositiveCapacity p \<and> px_DNSPositiveCapacity p \<le> maxDNSCapacity) (ProxyLimit ''dns_positive_capacity''),
        require (1 \<le> px_DNSNegativeCapacity p \<and> px_DNSNegativeCapacity p \<le> maxDNSCapacity) (ProxyLimit ''dns_negative_capacity''),
        require (1 \<le> px_DNSMaxPending p \<and> px_DNSMaxPending p \<le> maxDNSCapacity) (ProxyLimit ''dns_max_pending''),
        require (px_DNSStalePolicy p = ''transient'' \<or> px_DNSStalePolicy p = ''never'') (ProxyLimit ''dns_stale_policy''),
        require (px_AddressFamilyStrategy p = ''interleave'' \<or> px_AddressFamilyStrategy p = ''ipv4_first'' \<or>
                 px_AddressFamilyStrategy p = ''ipv6_first'') (ProxyLimit ''address_family_strategy''),
        require (1 \<le> px_ConnectAttemptCap p \<and> px_ConnectAttemptCap p \<le> maxConnectAttemptCap) (ProxyLimit ''connect_attempt_cap''),
        require (1 \<le> px_MaxConnections p \<and> px_MaxConnections p \<le> maxConfiguredConnections) (ProxyLimit ''max_connections''),
        require (0 \<le> px_MaxConnectionsPerSource p \<and> px_MaxConnectionsPerSource p \<le> px_MaxConnections p)
          (ProxyLimit ''max_connections_per_source''),
        require (1 \<le> px_MaxClientHelloBytes p \<and> px_MaxClientHelloBytes p \<le> maxConfiguredProtocolBytes)
          (ProxyLimit ''max_client_hello_bytes''),
        require (1 \<le> px_MaxHTTPHeaderBytes p \<and> px_MaxHTTPHeaderBytes p \<le> maxConfiguredProtocolBytes)
          (ProxyLimit ''max_http_header_bytes'')]"

definition check_listener :: "string \<Rightarrow> string list \<Rightarrow> config_error option" where
  "check_listener listen acl =
     (if listen = [] then None
      else first_of [require (validateListener listen) (ListenerBad listen),
                     require (\<not> (listenerNeedsSourceACL listen \<and> acl = [])) (ListenerNeedsACL listen)])"

definition check_listeners :: "Proxy \<Rightarrow> config_error option" where
  "check_listeners p =
     first_of [each (\<lambda>cidr. parsePolicyPrefix cidr \<noteq> None) (px_AllowedSourceCIDRs p) SourceCIDRBad,
               check_listener (px_HTTPSListen p) (px_AllowedSourceCIDRs p),
               check_listener (px_HTTPListen p) (px_AllowedSourceCIDRs p)]"

definition check_resolvers :: "Config \<Rightarrow> config_error option" where
  "check_resolvers c =
     first_of (validateResolvers ''proxy.resolver'' (px_Resolver (cfg_Proxy c)) #
       map (\<lambda>t. validateResolvers (''tunnels['' @ tun_Name t @ ''].resolver'') (tun_Resolver t)) (cfg_Tunnels c))"

definition check_destinations :: "(string list \<Rightarrow> string list) \<Rightarrow> string set \<Rightarrow> DestinationPolicy \<Rightarrow> config_error option" where
  "check_destinations rng names dp =
     map_option InEgress (first_of
       (each (\<lambda>cidr. parsePolicyPrefix cidr \<noteq> None) (dp_DirectAllowCIDRs dp) DirectCIDRBad #
        map (\<lambda>name. first_of
               [require (name \<in> names) (TunnelCIDRsUnknown name),
                each (\<lambda>cidr. parsePolicyPrefix cidr \<noteq> None)
                  (case map_of (dp_TunnelAllowCIDRs dp) name of None \<Rightarrow> [] | Some cidrs \<Rightarrow> cidrs)
                  (TunnelCIDRBad name)])
          (rng (map fst (dp_TunnelAllowCIDRs dp)))))"

text \<open>The rules; each suffix is replaced by its canonical form.\<close>

fun suffix_loop :: "(string \<Rightarrow> string option) \<Rightarrow> nat \<Rightarrow> nat \<Rightarrow> string list \<Rightarrow> egress_error + string list" where
  "suffix_loop toASCII i j [] = Inr []"
| "suffix_loop toASCII i j (s # ss) =
     (case canonicalHost toASCII s False of
        Inl e \<Rightarrow> Inl (SuffixInvalid i j)
      | Inr (normalized, isIP) \<Rightarrow>
          if isIP then Inl (SuffixIsIP i j)
          else map_sum id (Cons normalized) (suffix_loop toASCII i (j + 1) ss))"

fun rule_loop :: "(string \<Rightarrow> string option) \<Rightarrow> (string \<Rightarrow> bool) \<Rightarrow> nat \<Rightarrow> ProxyRule list \<Rightarrow> egress_error + ProxyRule list" where
  "rule_loop toASCII valid i [] = Inr []"
| "rule_loop toASCII valid i (r # rs) =
     (if \<not> valid (rule_Via r) then Inl (RuleViaUnknown i (rule_Via r))
      else case suffix_loop toASCII i 0 (rule_Suffixes r) of
        Inl e \<Rightarrow> Inl e
      | Inr suffixes \<Rightarrow>
          map_sum id (Cons (r\<lparr>rule_Suffixes := suffixes\<rparr>)) (rule_loop toASCII valid (i + 1) rs))"

definition valid_via :: "string set \<Rightarrow> string set \<Rightarrow> string \<Rightarrow> bool" where
  "valid_via names groups via \<longleftrightarrow> via = [] \<or> via = ''direct'' \<or> via \<in> names \<or> via \<in> groups"

definition check_rules :: "(string \<Rightarrow> string option) \<Rightarrow> string set \<Rightarrow> string set \<Rightarrow> Proxy \<Rightarrow> config_error + ProxyRule list" where
  "check_rules toASCII names groups p =
     (if \<not> valid_via names groups (px_Default p) then Inl (InEgress (DefaultUnknown (px_Default p)))
      else map_sum InEgress id (rule_loop toASCII (valid_via names groups) 0 (px_Rules p)))"

definition validate :: "(string \<Rightarrow> bool) \<Rightarrow> (string \<Rightarrow> string option) \<Rightarrow> (string list \<Rightarrow> string list) \<Rightarrow>
    Config \<Rightarrow> config_error + Config"
where
  "validate parseKey toASCII rng c =
     (case first_of [require (validSeconds (cfg_RouteRefresh c)) BadRouteRefresh,
                     require (validSeconds (cfg_HealthInterval c)) BadHealthInterval,
                     check_management rng (cfg_Management c)] of
        Some e \<Rightarrow> Inl e
      | None \<Rightarrow>
     (case check_tunnels parseKey 0 (cfg_Tunnels c) no_tunnels of
        Inl e \<Rightarrow> Inl e
      | Inr st \<Rightarrow>
     (case first_of [check_probe (seenName st) (cfg_HealthProbe c),
                     map_option InAllocations (ValidateAllocations (allocations st)),
                     (if gw_Enabled (cfg_Gateway c) then overlap_loop [] (gatewayRoutes st) else None),
                     check_sources (seenName st) (cfg_Tunnels c) {},
                     check_gateway (cfg_Gateway c),
                     check_pfsync (seenName st) (cfg_PfSync c)] of
        Some e \<Rightarrow> Inl e
      | None \<Rightarrow>
     (case check_groups (seenName st) 0 (cfg_Groups c) {} of
        Inl e \<Rightarrow> Inl e
      | Inr seenGroup \<Rightarrow>
     (case first_of [check_proxy_timers (cfg_Proxy c), check_proxy_limits (cfg_Proxy c),
                     check_listeners (cfg_Proxy c), check_resolvers c,
                     check_destinations rng (seenName st) (px_DestinationPolicy (cfg_Proxy c))] of
        Some e \<Rightarrow> Inl e
      | None \<Rightarrow>
     (case check_rules toASCII (seenName st) seenGroup (cfg_Proxy c) of
        Inl e \<Rightarrow> Inl e
      | Inr rules \<Rightarrow> Inr (c\<lparr>cfg_Proxy := (cfg_Proxy c)\<lparr>px_Rules := rules\<rparr>\<rparr>)))))))"


section \<open>Parsing\<close>

text \<open>
  The resolver list may be written as one string or as a sequence. The node kinds and the results
  of decoding the node as either are the YAML library's.
\<close>

datatype yaml_kind = ScalarNode | SequenceNode | OtherNode

datatype 'e resolver_yaml_error = ResolverDecode 'e | ResolverKind nat

definition UnmarshalYAML :: "yaml_kind \<Rightarrow> nat \<Rightarrow> 'e + string \<Rightarrow> 'e + string list \<Rightarrow> 'e resolver_yaml_error + ResolverList" where
  "UnmarshalYAML kind line one many =
     (case kind of
        ScalarNode \<Rightarrow> map_sum ResolverDecode (\<lambda>s. if s = [] then [] else [s]) one
      | SequenceNode \<Rightarrow> map_sum ResolverDecode id many
      | OtherNode \<Rightarrow> Inl (ResolverKind line))"

text \<open>
  A reader holds bytes and may end in an error instead of the end of the file. The decoder of
  the YAML library is a parameter: the first document as a configuration, and what follows it.
\<close>

datatype 'e trailing_document = EndOfFile | AnotherDocument | TrailingError 'e

datatype 'e load_error =
    OpenFailed 'e | ReadFailed 'e | InputTooLong | ConfigTooLong | YAMLError 'e | MultipleDocuments
  | TrailingYAML 'e | Invalid config_error

record 'e byte_reader =
  rd_content :: string
  rd_error :: "'e option"

definition readBounded :: "'e byte_reader \<Rightarrow> nat \<Rightarrow> 'e load_error + string" where
  "readBounded r limit =
     (if limit < length (rd_content r) then Inl InputTooLong
      else case rd_error r of
        Some e \<Rightarrow> Inl (ReadFailed e)
      | None \<Rightarrow> Inr (rd_content r))"

definition parseConfig :: "(string \<Rightarrow> bool) \<Rightarrow> (string \<Rightarrow> string option) \<Rightarrow> (string list \<Rightarrow> string list) \<Rightarrow>
    (string \<Rightarrow> 'e + Config) \<Rightarrow> (string \<Rightarrow> 'e trailing_document) \<Rightarrow> string \<Rightarrow> 'e load_error + Config"
where
  "parseConfig parseKey toASCII rng decode trailing raw =
     (if maxConfigBytes < length raw then Inl ConfigTooLong
      else case decode raw of
        Inl e \<Rightarrow> Inl (YAMLError e)
      | Inr c \<Rightarrow>
          (case trailing raw of
             AnotherDocument \<Rightarrow> Inl MultipleDocuments
           | TrailingError e \<Rightarrow> Inl (TrailingYAML e)
           | EndOfFile \<Rightarrow> map_sum Invalid id (validate parseKey toASCII rng (config_normalize c))))"

definition LoadConfig :: "(string \<Rightarrow> bool) \<Rightarrow> (string \<Rightarrow> string option) \<Rightarrow> (string list \<Rightarrow> string list) \<Rightarrow>
    (string \<Rightarrow> 'e + Config) \<Rightarrow> (string \<Rightarrow> 'e trailing_document) \<Rightarrow> (string \<Rightarrow> 'e + 'e byte_reader) \<Rightarrow>
    string \<Rightarrow> 'e load_error + Config"
where
  "LoadConfig parseKey toASCII rng decode trailing open_file path =
     (case open_file path of
        Inl e \<Rightarrow> Inl (OpenFailed e)
      | Inr r \<Rightarrow>
          (case readBounded r maxConfigBytes of
             Inl e \<Rightarrow> Inl e
           | Inr raw \<Rightarrow> parseConfig parseKey toASCII rng decode trailing raw))"


section \<open>What the checks accept\<close>

named_theorems accept_iff \<open>when a check returns no error\<close>

lemma first_of_None [accept_iff]: "first_of cs = None \<longleftrightarrow> list_all (\<lambda>c. c = None) cs"
  by (induction cs rule: first_of.induct) auto

lemma require_None [accept_iff]: "require ok e = None \<longleftrightarrow> ok"
  by (simp add: require_def)

lemma each_None [accept_iff]: "each ok xs e = None \<longleftrightarrow> (\<forall>x\<in>set xs. ok x)"
  by (auto simp: each_def find_None_iff)

definition management_ok :: "Management \<Rightarrow> bool" where
  "management_ok m \<longleftrightarrow> mg_Disabled m \<or>
     ((if has_prefix ''unix:'' (mg_Listen m)
       then has_prefix ''/'' (trim_prefix ''unix:'' (mg_Listen m)) \<and> 2 \<le> length (trim_prefix ''unix:'' (mg_Listen m))
       else \<exists>host port ip. SplitHostPort (mg_Listen m) = Some (host, port) \<and> ParseIP host = Some ip \<and> IsLoopback ip) \<and>
      (\<forall>v\<in>{mg_ReadHeaderTimeout m, mg_WriteTimeout m, mg_IdleTimeout m, mg_ShutdownTimeout m}.
         0 < v \<and> v \<le> maxDurationSeconds) \<and>
      1024 \<le> mg_MaxHeaderBytes m \<and> mg_MaxHeaderBytes m \<le> maxConfiguredProtocolBytes)"

lemma check_management_None [accept_iff]:
  assumes "visits rng"
  shows "check_management rng m = None \<longleftrightarrow> management_ok m"
  by (auto simp: check_management_def management_ok_def Let_def accept_iff visits_set [OF assms] validSeconds_def
      split: option.splits)

definition tunnel_ok :: "(string \<Rightarrow> bool) \<Rightarrow> Tunnel \<Rightarrow> bool" where
  "tunnel_ok parseKey t \<longleftrightarrow>
     length (tun_Name t) \<le> 15 \<and> interfaceNameRE (tun_Name t) \<and>
     tun_PrivateKey t \<noteq> [] \<and> parseKey (tun_PrivateKey t) \<and> ipv4_prefix (tun_Address t) \<and> 0 \<le> tun_MTU t \<and>
     0 < tun_Fwmark t \<and> tun_Fwmark t < 2 ^ 32 \<and> 0 < tun_Table t \<and> tun_Table t < 2 ^ 31"

lemma not_ipv4_prefix_Nil: "\<not> ipv4_prefix []"
  by (simp add: ipv4_prefix_def ParsePrefix_def last_index_byte_def)

lemma check_tunnel_None [accept_iff]:
  "check_tunnel parseKey i t st = None \<longleftrightarrow>
     tunnel_ok parseKey t \<and> tun_Name t \<notin> seenName st \<and>
     seenMark st (tun_Fwmark t) = None \<and> seenTable st (tun_Table t) = None"
  using not_ipv4_prefix_Nil
  by (auto simp: check_tunnel_def tunnel_ok_def accept_iff interfaceNameRE_def)

definition peer_ok :: "(string \<Rightarrow> bool) \<Rightarrow> config_Peer \<Rightarrow> bool" where
  "peer_ok parseKey p \<longleftrightarrow>
     peer_PublicKey p \<noteq> [] \<and> parseKey (peer_PublicKey p) \<and>
     validateHostPort (peer_Endpoint p) False \<and> validSeconds (peer_Keepalive p) \<and>
     (\<forall>a\<in>set (peer_AllowedIPs p). ParseCIDR a \<noteq> None)"

lemma not_validateHostPort_Nil: "\<not> validateHostPort [] b"
  by (simp add: validateHostPort_def SplitHostPort_def last_index_byte_def)

lemma check_peer_None [accept_iff]: "check_peer parseKey name p = None \<longleftrightarrow> peer_ok parseKey p"
  using not_validateHostPort_Nil by (auto simp: check_peer_def peer_ok_def accept_iff)

definition masked_route :: "string \<Rightarrow> prefix" where
  "masked_route r = Masked (the (ParsePrefix r))"

definition tunnel_routes :: "Tunnel \<Rightarrow> (string \<times> prefix) list" where
  "tunnel_routes t = map (\<lambda>r. (tun_Name t, masked_route r)) (tun_Routes t)"

lemma route_loop_Inr:
  "route_loop name rs seen routes = Inr out \<longleftrightarrow>
     (\<forall>r\<in>set rs. ipv4_prefix r) \<and> distinct (map (prefix_string \<circ> masked_route) rs) \<and>
     (\<forall>r\<in>set rs. prefix_string (masked_route r) \<notin> seen) \<and>
     out = routes @ map (\<lambda>r. (name, masked_route r)) rs"
proof (induction rs arbitrary: seen routes)
  case (Cons r rs)
  show ?case
  proof (cases "ParsePrefix r")
    case (Some p)
    then have m: "masked_route r = Masked p" by (simp add: masked_route_def)
    show ?thesis using Some m by (auto simp: Let_def Cons.IH ipv4_prefix_def intro: rev_image_eqI)
  qed (simp add: ipv4_prefix_def)
qed auto

definition routes_ok :: "Tunnel \<Rightarrow> bool" where
  "routes_ok t \<longleftrightarrow> (\<forall>r\<in>set (tun_Routes t). ipv4_prefix r) \<and>
     distinct (map (prefix_string \<circ> masked_route) (tun_Routes t))"

text \<open>The state of the loop after the tunnels \<open>ts\<close>, in terms of its start.\<close>

definition scan_from :: "tunnel_scan \<Rightarrow> Tunnel list \<Rightarrow> tunnel_scan" where
  "scan_from st ts =
     \<lparr>seenName = seenName st \<union> tun_Name ` set ts,
      seenMark = seenMark st ++ map_of (rev (map (\<lambda>t. (tun_Fwmark t, tun_Name t)) ts)),
      seenTable = seenTable st ++ map_of (rev (map (\<lambda>t. (tun_Table t, tun_Name t)) ts)),
      allocations = allocations st @ map allocation_of ts,
      gatewayRoutes = gatewayRoutes st @ concat (map tunnel_routes ts)\<rparr>"

lemma scan_from_Nil [simp]: "scan_from st [] = st"
  by (simp add: scan_from_def)

definition fresh_in :: "tunnel_scan \<Rightarrow> Tunnel list \<Rightarrow> bool" where
  "fresh_in st ts \<longleftrightarrow>
     (\<forall>t\<in>set ts. tun_Name t \<notin> seenName st \<and> seenMark st (tun_Fwmark t) = None \<and> seenTable st (tun_Table t) = None) \<and>
     distinct (map tun_Name ts) \<and> distinct (map tun_Fwmark ts) \<and> distinct (map tun_Table ts)"

lemma map_add_upd_rev: "m(k \<mapsto> v) ++ map_of (rev kvs) = m ++ map_of (rev kvs @ [(k, v)])"
  by (rule ext) (auto simp: map_add_def split: option.splits)

lemma route_loop_tunnel:
  "route_loop (tun_Name t) (tun_Routes t) {} routes = Inr out \<longleftrightarrow> routes_ok t \<and> out = routes @ tunnel_routes t"
  by (auto simp: route_loop_Inr routes_ok_def tunnel_routes_def)

definition scan_step :: "Tunnel \<Rightarrow> tunnel_scan \<Rightarrow> tunnel_scan" where
  "scan_step t st =
     \<lparr>seenName = insert (tun_Name t) (seenName st), seenMark = (seenMark st)(tun_Fwmark t \<mapsto> tun_Name t),
      seenTable = (seenTable st)(tun_Table t \<mapsto> tun_Name t), allocations = allocations st @ [allocation_of t],
      gatewayRoutes = gatewayRoutes st @ tunnel_routes t\<rparr>"

lemma check_tunnels_Cons:
  "check_tunnels parseKey i (t # ts) st = Inr st' \<longleftrightarrow>
     check_tunnel parseKey i t st = None \<and> peer_ok parseKey (tun_Peer t) \<and> routes_ok t \<and>
     check_tunnels parseKey (i + 1) ts (scan_step t st) = Inr st'"
proof (cases "check_tunnel parseKey i t st = None \<and> check_peer parseKey (tun_Name t) (tun_Peer t) = None")
  case True
  then have f: "first_of [check_tunnel parseKey i t st, check_peer parseKey (tun_Name t) (tun_Peer t)] = None"
    by (simp add: first_of_None)
  show ?thesis
  proof (cases "route_loop (tun_Name t) (tun_Routes t) {} (gatewayRoutes st)")
    case (Inl e)
    then have "\<not> routes_ok t" using route_loop_tunnel [of t "gatewayRoutes st"] by auto
    with Inl f show ?thesis by simp
  next
    case (Inr out)
    then have "routes_ok t" "out = gatewayRoutes st @ tunnel_routes t"
      using route_loop_tunnel [of t "gatewayRoutes st"] by blast+
    moreover have "peer_ok parseKey (tun_Peer t)" using True by (simp only: check_peer_None)
    ultimately show ?thesis using Inr f True by (simp add: scan_step_def)
  qed
next
  case False
  then obtain e where "first_of [check_tunnel parseKey i t st, check_peer parseKey (tun_Name t) (tun_Peer t)] = Some e"
    using first_of_None [of "[check_tunnel parseKey i t st, check_peer parseKey (tun_Name t) (tun_Peer t)]"]
    by (cases "first_of [check_tunnel parseKey i t st, check_peer parseKey (tun_Name t) (tun_Peer t)]") auto
  with False show ?thesis by (simp add: check_peer_None) blast
qed

lemma fresh_in_Cons:
  "fresh_in st (t # ts) \<longleftrightarrow> tun_Name t \<notin> seenName st \<and> seenMark st (tun_Fwmark t) = None \<and>
     seenTable st (tun_Table t) = None \<and> fresh_in (scan_step t st) ts"
  unfolding fresh_in_def scan_step_def by (simp add: image_iff eq_commute [of "tun_Name t"] eq_commute [of "tun_Fwmark t"] eq_commute [of "tun_Table t"]) blast

lemma scan_from_step: "scan_from (scan_step t st) ts = scan_from st (t # ts)"
  unfolding scan_from_def scan_step_def
  by (simp only: tunnel_scan.simps list.map rev.simps list.set image_insert map_add_upd_rev append_assoc
      append_Cons append_Nil concat.simps Un_insert_right Un_insert_left)

lemma check_tunnels_Inr:
  "check_tunnels parseKey i ts st = Inr st' \<longleftrightarrow>
     (\<forall>t\<in>set ts. tunnel_ok parseKey t \<and> peer_ok parseKey (tun_Peer t) \<and> routes_ok t) \<and>
     fresh_in st ts \<and> st' = scan_from st ts"
proof (induction ts arbitrary: i st)
  case Nil
  then show ?case by (auto simp: fresh_in_def)
next
  case (Cons t ts)
  show ?case
    unfolding check_tunnels_Cons Cons.IH scan_from_step fresh_in_Cons check_tunnel_None
    by (simp only: list.set ball_simps) blast
qed

definition probe_ok :: "string set \<Rightarrow> HealthProbe \<Rightarrow> bool" where
  "probe_ok names h \<longleftrightarrow> hp_Enabled h \<longrightarrow>
     (\<exists>u. ParseRequestURI (hp_Endpoint h) = Some u \<and> http_url u \<and> \<not> url_HasUser u) \<and>
     (hp_Via h = [] \<or> hp_Via h \<in> names) \<and>
     5 \<le> hp_Interval h \<and> hp_Interval h \<le> maxDurationSeconds \<and>
     1 \<le> hp_Timeout h \<and> hp_Timeout h < hp_Interval h \<and>
     0 \<le> hp_JitterPercent h \<and> hp_JitterPercent h \<le> 100 \<and>
     1 \<le> hp_MaxConcurrent h \<and> hp_MaxConcurrent h \<le> 8 \<and>
     1 \<le> hp_FailAfter h \<and> hp_FailAfter h \<le> 10 \<and>
     1 \<le> hp_RecoverAfter h \<and> hp_RecoverAfter h \<le> 10 \<and>
     hp_MaxAge h \<le> maxDurationSeconds \<and> hp_Interval h + hp_Timeout h \<le> hp_MaxAge h"

lemma check_probe_None [accept_iff]: "check_probe names h = None \<longleftrightarrow> probe_ok names h"
  by (cases "ParseRequestURI (hp_Endpoint h)")
    (auto simp: check_probe_def probe_ok_def accept_iff validSeconds_def)

definition disjoint_routes :: "(string \<times> prefix) list \<Rightarrow> bool" where
  "disjoint_routes routes \<longleftrightarrow>
     (\<forall>(n, p)\<in>set routes. \<forall>(m, q)\<in>set routes. n \<noteq> m \<longrightarrow> \<not> Overlaps p q)"

lemma overlap_loop_None:
  "overlap_loop earlier rest = None \<and> disjoint_routes earlier \<longleftrightarrow> disjoint_routes (earlier @ rest)"
proof (induction earlier rest rule: overlap_loop.induct)
  case (2 earlier name prefix rest)
  have snoc: "disjoint_routes (earlier @ [(name, prefix)]) \<longleftrightarrow>
      disjoint_routes earlier \<and> (\<forall>(m, q)\<in>set earlier. name \<noteq> m \<longrightarrow> \<not> Overlaps prefix q)"
    unfolding disjoint_routes_def using Overlaps_commute by fastforce
  show ?case
  proof (cases "find (\<lambda>(other, q). name \<noteq> other \<and> Overlaps prefix q) earlier")
    case None
    then have "\<forall>(m, q)\<in>set earlier. name \<noteq> m \<longrightarrow> \<not> Overlaps prefix q"
      by (auto simp: find_None_iff)
    then show ?thesis using 2 [OF None] snoc None by simp
  next
    case (Some x)
    then obtain m q where "(m, q) \<in> set earlier" "name \<noteq> m" "Overlaps prefix q"
      by (metis (mono_tags, lifting) case_prodE find_Some_iff nth_mem)
    then have "\<not> disjoint_routes (earlier @ (name, prefix) # rest)"
      unfolding disjoint_routes_def by auto
    then show ?thesis using Some by (cases x) auto
  qed
qed simp

lemma overlap_loop_accepts [accept_iff]: "overlap_loop [] routes = None \<longleftrightarrow> disjoint_routes routes"
  using overlap_loop_None [of "[]" routes] by (simp add: disjoint_routes_def)

definition source_ok :: "string set \<Rightarrow> RouteSource \<Rightarrow> bool" where
  "source_ok names s \<longleftrightarrow> operationalNameRE (rsrc_Name s) \<and>
     (\<exists>u. ParseRequestURI (rsrc_URL s) = Some u \<and> http_url u) \<and>
     rsrc_Format s \<in> {''cidr-lines'', ''ripe-prefixes''} \<and>
     (rsrc_Via s = [] \<or> rsrc_Via s = ''direct'' \<or> rsrc_Via s \<in> names)"

lemma source_loop_Inr:
  "source_loop names tunnel ss seen = Inr seen' \<longleftrightarrow>
     (\<forall>s\<in>set ss. source_ok names s \<and> rsrc_Name s \<notin> seen) \<and> distinct (map rsrc_Name ss) \<and>
     seen' = seen \<union> rsrc_Name ` set ss"
proof (induction ss arbitrary: seen)
  case (Cons s ss)
  let ?cs = "[require (rsrc_Name s \<noteq> []) SourceNameRequired,
         require (operationalNameRE (rsrc_Name s)) SourceNameBad,
         require (rsrc_Name s \<notin> seen) SourceDuplicate,
         require (rsrc_URL s \<noteq> []) SourceURLRequired,
         (case ParseRequestURI (rsrc_URL s) of
            None \<Rightarrow> Some SourceURLBad | Some u \<Rightarrow> require (http_url u) SourceURLBad),
         require (rsrc_Format s = ''cidr-lines'' \<or> rsrc_Format s = ''ripe-prefixes'') (SourceFormat (rsrc_Format s)),
         require (rsrc_Via s = [] \<or> rsrc_Via s = ''direct'' \<or> rsrc_Via s \<in> names) (SourceViaUnknown (rsrc_Via s))]"
  have n: "ParseRequestURI [] = None" by (simp add: ParseRequestURI_def)
  have "first_of ?cs = None \<longleftrightarrow> source_ok names s \<and> rsrc_Name s \<notin> seen"
    using n by (cases "ParseRequestURI (rsrc_URL s)") (auto simp: accept_iff source_ok_def operationalNameRE_def)
  moreover have "source_loop names tunnel (s # ss) seen = Inr seen' \<longleftrightarrow>
      first_of ?cs = None \<and> source_loop names tunnel ss (insert (rsrc_Name s) seen) = Inr seen'"
    unfolding source_loop.simps(2) by (cases "first_of ?cs") (simp_all only: option.case simp_thms sum.distinct option.distinct)
  ultimately show ?case
    by (simp only: Cons.IH) (auto simp: image_iff)
qed auto

lemma image_disjoint_iff: "f ` A \<inter> f ` B = {} \<longleftrightarrow> (\<forall>s\<in>B. f s \<notin> f ` A)"
  unfolding disjoint_iff by (metis imageE imageI)

lemma check_sources_None:
  "check_sources names ts seen = None \<longleftrightarrow>
     (\<forall>s\<in>set (concat (map tun_RouteSources ts)). source_ok names s \<and> rsrc_Name s \<notin> seen) \<and>
     distinct (map rsrc_Name (concat (map tun_RouteSources ts)))"
proof (induction ts arbitrary: seen)
  case (Cons t ts)
  show ?case
  proof (cases "source_loop names (tun_Name t) (tun_RouteSources t) seen")
    case (Inl e)
    then show ?thesis using source_loop_Inr [of names "tun_Name t" "tun_RouteSources t" seen] by auto
  next
    case (Inr seen')
    then have s: "\<forall>s\<in>set (tun_RouteSources t). source_ok names s \<and> rsrc_Name s \<notin> seen"
      "distinct (map rsrc_Name (tun_RouteSources t))" "seen' = seen \<union> rsrc_Name ` set (tun_RouteSources t)"
      using source_loop_Inr [of names "tun_Name t" "tun_RouteSources t" seen] by blast+
    have "check_sources names (t # ts) seen = check_sources names ts seen'" using Inr by simp
    then show ?thesis
      using s(1,2) unfolding s(3)
      by (simp only: Cons.IH list.map concat.simps map_append distinct_append set_append set_map
          image_disjoint_iff ball_Un Un_iff de_Morgan_disj ball_conj_distrib simp_thms) fast
  qed
qed simp

definition gateway_ok :: "Gateway \<Rightarrow> bool" where
  "gateway_ok g \<longleftrightarrow> (\<forall>c\<in>set (gw_ClientCIDRs g). ipv4_prefix c) \<and>
     (gw_ListListen g = [] \<or> validateHostPort (gw_ListListen g) True)"

lemma check_gateway_None [accept_iff]: "check_gateway g = None \<longleftrightarrow> gateway_ok g"
  by (simp add: check_gateway_def gateway_ok_def accept_iff)

definition pfsync_ok :: "string set \<Rightarrow> PfSync \<Rightarrow> bool" where
  "pfsync_ok names p \<longleftrightarrow> pf_Enabled p \<longrightarrow>
     pf_SSHHost p \<noteq> [] \<and> pf_SSHUser p \<noteq> [] \<and> pf_SSHKey p \<noteq> [] \<and> pf_KnownHosts p \<noteq> [] \<and>
     0 \<le> pf_SSHPort p \<and> pf_SSHPort p \<le> 65535 \<and> pf_FromTunnel p \<in> names \<and>
     (\<forall>n\<in>set (pf_KeepNetworks p). ParseCIDR n \<noteq> None)"

lemma check_pfsync_None [accept_iff]: "check_pfsync names p = None \<longleftrightarrow> pfsync_ok names p"
  by (auto simp: check_pfsync_def pfsync_ok_def accept_iff)

lemma member_loop_None:
  "member_loop names ms seen = None \<longleftrightarrow> set ms \<subseteq> names \<and> distinct ms \<and> set ms \<inter> seen = {}"
  by (induction names ms seen rule: member_loop.induct) auto

definition group_ok :: "string set \<Rightarrow> config_Group \<Rightarrow> bool" where
  "group_ok names g \<longleftrightarrow> operationalNameRE (grp_Name g) \<and> grp_Name g \<notin> names \<and>
     grp_Members g \<noteq> [] \<and> set (grp_Members g) \<subseteq> names \<and> distinct (grp_Members g) \<and>
     validSeconds (grp_HealthyAfter g)"

lemma check_groups_Inr:
  "check_groups names i gs seen = Inr seen' \<longleftrightarrow>
     (\<forall>g\<in>set gs. group_ok names g \<and> grp_Name g \<notin> seen) \<and> distinct (map grp_Name gs) \<and>
     seen' = seen \<union> grp_Name ` set gs"
proof (induction gs arbitrary: i seen)
  case (Cons g gs)
  let ?cs = "[require (grp_Name g \<noteq> []) GroupNameRequired,
         require (operationalNameRE (grp_Name g)) GroupNameBad,
         require (grp_Name g \<notin> names) GroupTunnelClash,
         require (grp_Name g \<notin> seen) GroupDuplicate,
         require (grp_Members g \<noteq> []) GroupEmpty,
         require (validSeconds (grp_HealthyAfter g)) GroupHealthyAfter,
         member_loop names (grp_Members g) {}]"
  have "first_of ?cs = None \<longleftrightarrow> group_ok names g \<and> grp_Name g \<notin> seen"
    by (auto simp: accept_iff member_loop_None group_ok_def operationalNameRE_def)
  moreover have "check_groups names i (g # gs) seen = Inr seen' \<longleftrightarrow>
      first_of ?cs = None \<and> check_groups names (i + 1) gs (insert (grp_Name g) seen) = Inr seen'"
    unfolding check_groups.simps(2) by (cases "first_of ?cs") (simp_all only: option.case simp_thms sum.distinct option.distinct)
  ultimately show ?case
    by (simp only: Cons.IH) (auto simp: image_iff)
qed auto

lemma list_all_unroll: "list_all P [] \<longleftrightarrow> True" "list_all P (x # xs) \<longleftrightarrow> P x \<and> list_all P xs"
  by simp_all

definition proxy_timers_ok :: "Proxy \<Rightarrow> bool" where
  "proxy_timers_ok p \<longleftrightarrow>
     list_all validSeconds [px_DialTimeout p, px_HandshakeTimeout p, px_IdleTimeout p, px_ShutdownGrace p, px_DNSStaleWindow p] \<and>
     list_all (\<lambda>v. 0 < v \<and> v \<le> maxDurationSeconds)
       [px_DNSMinPositiveTTL p, px_DNSNegativeTTL p, px_DNSTransientFailureTTL p, px_DNSResolverTimeout p] \<and>
     px_DNSMinPositiveTTL p \<le> px_DNSCacheTTL p \<and> px_DNSCacheTTL p \<le> px_DNSMaxPositiveTTL p \<and>
     px_DNSMaxPositiveTTL p \<le> maxDurationSeconds"

lemma validSeconds_pos: "validSeconds v \<and> v \<noteq> 0 \<longleftrightarrow> 0 < v \<and> v \<le> maxDurationSeconds"
  by (auto simp: validSeconds_def)

lemma check_proxy_timers_None [accept_iff]: "check_proxy_timers p = None \<longleftrightarrow> proxy_timers_ok p"
proof -
  have ttl: "validSeconds c \<and> (0 < l \<and> l \<le> maxDurationSeconds) \<and> (validSeconds h \<and> l \<le> h) \<and> (l \<le> c \<and> c \<le> h) \<longleftrightarrow>
      (0 < l \<and> l \<le> maxDurationSeconds) \<and> l \<le> c \<and> c \<le> h \<and> h \<le> maxDurationSeconds" for c l h
    unfolding validSeconds_def by linarith
  show ?thesis
    unfolding check_proxy_timers_def proxy_timers_ok_def accept_iff list_all_unroll validSeconds_pos
    using ttl [of "px_DNSCacheTTL p" "px_DNSMinPositiveTTL p" "px_DNSMaxPositiveTTL p"] by fast
qed

definition proxy_limits_ok :: "Proxy \<Rightarrow> bool" where
  "proxy_limits_ok p \<longleftrightarrow>
     list_all (\<lambda>v. 1 \<le> v \<and> v \<le> maxDNSCapacity) [px_DNSPositiveCapacity p, px_DNSNegativeCapacity p, px_DNSMaxPending p] \<and>
     (px_DNSStalePolicy p = ''transient'' \<or> px_DNSStalePolicy p = ''never'') \<and>
     strategy_Valid (px_AddressFamilyStrategy p) \<and>
     1 \<le> px_ConnectAttemptCap p \<and> px_ConnectAttemptCap p \<le> maxConnectAttemptCap \<and>
     1 \<le> px_MaxConnections p \<and> px_MaxConnections p \<le> maxConfiguredConnections \<and>
     0 \<le> px_MaxConnectionsPerSource p \<and> px_MaxConnectionsPerSource p \<le> px_MaxConnections p \<and>
     list_all (\<lambda>v. 1 \<le> v \<and> v \<le> maxConfiguredProtocolBytes) [px_MaxClientHelloBytes p, px_MaxHTTPHeaderBytes p]"

lemma check_proxy_limits_None [accept_iff]: "check_proxy_limits p = None \<longleftrightarrow> proxy_limits_ok p"
proof -
  have "(s = ''interleave'' \<or> s = ''ipv4_first'' \<or> s = ''ipv6_first'') \<longleftrightarrow> strategy_Valid s" for s
    unfolding strategy_Valid_def IPv4First_def IPv6First_def Interleave_def by fast
  then show ?thesis
    unfolding check_proxy_limits_def proxy_limits_ok_def accept_iff list_all_unroll by (simp only: simp_thms conj_assoc)
qed

definition listener_ok :: "string \<Rightarrow> string list \<Rightarrow> bool" where
  "listener_ok listen acl \<longleftrightarrow> listen = [] \<or>
     (validateListener listen \<and> (listenerNeedsSourceACL listen \<longrightarrow> acl \<noteq> []))"

lemma check_listener_None [accept_iff]: "check_listener listen acl = None \<longleftrightarrow> listener_ok listen acl"
  by (auto simp: check_listener_def listener_ok_def accept_iff)

definition listeners_ok :: "Proxy \<Rightarrow> bool" where
  "listeners_ok p \<longleftrightarrow> (\<forall>cidr\<in>set (px_AllowedSourceCIDRs p). parsePolicyPrefix cidr \<noteq> None) \<and>
     listener_ok (px_HTTPSListen p) (px_AllowedSourceCIDRs p) \<and>
     listener_ok (px_HTTPListen p) (px_AllowedSourceCIDRs p)"

lemma check_listeners_None [accept_iff]: "check_listeners p = None \<longleftrightarrow> listeners_ok p"
  by (simp add: check_listeners_def listeners_ok_def accept_iff)

definition resolvers_ok :: "ResolverList \<Rightarrow> bool" where
  "resolvers_ok l \<longleftrightarrow> length l \<le> maxResolvers \<and> distinct l \<and> (\<forall>r\<in>set l. validateHostPort r False)"

lemma resolver_loop_None:
  "resolver_loop field seen rs = None \<longleftrightarrow>
     distinct rs \<and> set rs \<inter> seen = {} \<and> (\<forall>r\<in>set rs. validateHostPort r False)"
  by (induction field seen rs rule: resolver_loop.induct) auto

lemma validateResolvers_None [accept_iff]: "validateResolvers field l = None \<longleftrightarrow> resolvers_ok l"
  by (auto simp: validateResolvers_def resolvers_ok_def resolver_loop_None)

lemma check_resolvers_None [accept_iff]:
  "check_resolvers c = None \<longleftrightarrow>
     resolvers_ok (px_Resolver (cfg_Proxy c)) \<and> (\<forall>t\<in>set (cfg_Tunnels c). resolvers_ok (tun_Resolver t))"
  by (auto simp: check_resolvers_def accept_iff list_all_iff)

definition destinations_ok :: "string set \<Rightarrow> DestinationPolicy \<Rightarrow> bool" where
  "destinations_ok names dp \<longleftrightarrow>
     (\<forall>cidr\<in>set (dp_DirectAllowCIDRs dp). parsePolicyPrefix cidr \<noteq> None) \<and>
     (\<forall>name cidrs. map_of (dp_TunnelAllowCIDRs dp) name = Some cidrs \<longrightarrow>
        name \<in> names \<and> (\<forall>cidr\<in>set cidrs. parsePolicyPrefix cidr \<noteq> None))"

lemma check_destinations_None [accept_iff]:
  assumes "visits rng"
  shows "check_destinations rng names dp = None \<longleftrightarrow> destinations_ok names dp"
proof -
  let ?m = "map_of (dp_TunnelAllowCIDRs dp)"
  have "check_destinations rng names dp = None \<longleftrightarrow>
      (\<forall>cidr\<in>set (dp_DirectAllowCIDRs dp). parsePolicyPrefix cidr \<noteq> None) \<and>
      (\<forall>name\<in>dom ?m. name \<in> names \<and> (\<forall>cidr\<in>set (case ?m name of None \<Rightarrow> [] | Some cidrs \<Rightarrow> cidrs). parsePolicyPrefix cidr \<noteq> None))"
    by (simp add: check_destinations_def accept_iff list_all_iff visits_set [OF assms] dom_map_of_conv_image_fst)
  then show ?thesis unfolding destinations_ok_def dom_def by auto
qed

text \<open>The rules with their suffixes in canonical form.\<close>

definition rule_ok :: "(string \<Rightarrow> string option) \<Rightarrow> (string \<Rightarrow> bool) \<Rightarrow> ProxyRule \<Rightarrow> bool" where
  "rule_ok toASCII valid r \<longleftrightarrow> valid (rule_Via r) \<and>
     (\<forall>s\<in>set (rule_Suffixes r). \<exists>n. canonicalHost toASCII s False = Inr (n, False))"

definition canonical_suffix :: "(string \<Rightarrow> string option) \<Rightarrow> string \<Rightarrow> string" where
  "canonical_suffix toASCII s = fst (projr (canonicalHost toASCII s False))"

definition canonical_rule :: "(string \<Rightarrow> string option) \<Rightarrow> ProxyRule \<Rightarrow> ProxyRule" where
  "canonical_rule toASCII r = r\<lparr>rule_Suffixes := map (canonical_suffix toASCII) (rule_Suffixes r)\<rparr>"

lemma suffix_loop_Inr:
  "suffix_loop toASCII i j ss = Inr out \<longleftrightarrow>
     (\<forall>s\<in>set ss. \<exists>n. canonicalHost toASCII s False = Inr (n, False)) \<and> out = map (canonical_suffix toASCII) ss"
proof (induction ss arbitrary: j out)
  case (Cons s ss)
  show ?case
  proof (cases "canonicalHost toASCII s False")
    case (Inr r)
    then show ?thesis
      by (cases r) (auto simp: map_sum_Inr_iff Cons.IH canonical_suffix_def)
  qed simp
qed auto

lemma rule_loop_Inr:
  "rule_loop toASCII valid i rs = Inr out \<longleftrightarrow>
     (\<forall>r\<in>set rs. rule_ok toASCII valid r) \<and> out = map (canonical_rule toASCII) rs"
proof (induction rs arbitrary: i out)
  case (Cons r rs)
  show ?case
  proof (cases "suffix_loop toASCII i 0 (rule_Suffixes r)")
    case (Inl e)
    then have "\<not> (\<forall>s\<in>set (rule_Suffixes r). \<exists>n. canonicalHost toASCII s False = Inr (n, False))"
      using suffix_loop_Inr [of toASCII i 0 "rule_Suffixes r"] by auto
    with Inl show ?thesis by (simp add: rule_ok_def)
  next
    case (Inr out')
    then show ?thesis
      using suffix_loop_Inr [of toASCII i 0 "rule_Suffixes r" out']
      by (auto simp: rule_ok_def map_sum_Inr_iff Cons.IH canonical_rule_def)
  qed
qed auto

lemma check_rules_Inr:
  "check_rules toASCII names groups p = Inr rules \<longleftrightarrow>
     valid_via names groups (px_Default p) \<and>
     (\<forall>r\<in>set (px_Rules p). rule_ok toASCII (valid_via names groups) r) \<and>
     rules = map (canonical_rule toASCII) (px_Rules p)"
  by (auto simp: check_rules_def map_sum_Inr_iff rule_loop_Inr)


section \<open>The accepted configurations\<close>

definition tunnel_names :: "Config \<Rightarrow> string set" where
  "tunnel_names c = tun_Name ` set (cfg_Tunnels c)"

definition group_names :: "Config \<Rightarrow> string set" where
  "group_names c = grp_Name ` set (cfg_Groups c)"

definition tunnels_ok :: "(string \<Rightarrow> bool) \<Rightarrow> Config \<Rightarrow> bool" where
  "tunnels_ok parseKey c \<longleftrightarrow>
     (\<forall>t\<in>set (cfg_Tunnels c). tunnel_ok parseKey t \<and> peer_ok parseKey (tun_Peer t) \<and> routes_ok t) \<and>
     distinct (map tun_Name (cfg_Tunnels c)) \<and> distinct (map tun_Fwmark (cfg_Tunnels c)) \<and>
     distinct (map tun_Table (cfg_Tunnels c))"

definition routing_ok :: "Config \<Rightarrow> bool" where
  "routing_ok c \<longleftrightarrow>
     probe_ok (tunnel_names c) (cfg_HealthProbe c) \<and>
     ValidateAllocations (map allocation_of (cfg_Tunnels c)) = None \<and>
     (gw_Enabled (cfg_Gateway c) \<longrightarrow> disjoint_routes (concat (map tunnel_routes (cfg_Tunnels c)))) \<and>
     (\<forall>s\<in>set (concat (map tun_RouteSources (cfg_Tunnels c))). source_ok (tunnel_names c) s) \<and>
     distinct (map rsrc_Name (concat (map tun_RouteSources (cfg_Tunnels c)))) \<and>
     gateway_ok (cfg_Gateway c) \<and> pfsync_ok (tunnel_names c) (cfg_PfSync c)"

definition groups_ok :: "Config \<Rightarrow> bool" where
  "groups_ok c \<longleftrightarrow> (\<forall>g\<in>set (cfg_Groups c). group_ok (tunnel_names c) g) \<and> distinct (map grp_Name (cfg_Groups c))"

definition proxy_ok :: "Config \<Rightarrow> bool" where
  "proxy_ok c \<longleftrightarrow>
     proxy_timers_ok (cfg_Proxy c) \<and> proxy_limits_ok (cfg_Proxy c) \<and> listeners_ok (cfg_Proxy c) \<and>
     resolvers_ok (px_Resolver (cfg_Proxy c)) \<and> (\<forall>t\<in>set (cfg_Tunnels c). resolvers_ok (tun_Resolver t)) \<and>
     destinations_ok (tunnel_names c) (px_DestinationPolicy (cfg_Proxy c))"

definition rules_ok :: "(string \<Rightarrow> string option) \<Rightarrow> Config \<Rightarrow> bool" where
  "rules_ok toASCII c \<longleftrightarrow>
     valid_via (tunnel_names c) (group_names c) (px_Default (cfg_Proxy c)) \<and>
     (\<forall>r\<in>set (px_Rules (cfg_Proxy c)). rule_ok toASCII (valid_via (tunnel_names c) (group_names c)) r)"

definition wf_config :: "(string \<Rightarrow> bool) \<Rightarrow> (string \<Rightarrow> string option) \<Rightarrow> Config \<Rightarrow> bool" where
  "wf_config parseKey toASCII c \<longleftrightarrow>
     validSeconds (cfg_RouteRefresh c) \<and> validSeconds (cfg_HealthInterval c) \<and> management_ok (cfg_Management c) \<and>
     tunnels_ok parseKey c \<and> routing_ok c \<and> groups_ok c \<and> proxy_ok c \<and> rules_ok toASCII c"

definition canonical_config :: "(string \<Rightarrow> string option) \<Rightarrow> Config \<Rightarrow> Config" where
  "canonical_config toASCII c =
     c\<lparr>cfg_Proxy := (cfg_Proxy c)\<lparr>px_Rules := map (canonical_rule toASCII) (px_Rules (cfg_Proxy c))\<rparr>\<rparr>"

lemma option_case_Inr: "(case x of Some e \<Rightarrow> Inl e | None \<Rightarrow> y) = Inr z \<longleftrightarrow> x = None \<and> y = Inr z"
  by (cases x) auto

lemma sum_case_Inr: "(case x of Inl e \<Rightarrow> Inl e | Inr y \<Rightarrow> f y) = Inr z \<longleftrightarrow> (\<exists>y. x = Inr y \<and> f y = Inr z)"
  by (cases x) auto

lemma scan_all:
  "check_tunnels parseKey 0 (cfg_Tunnels c) no_tunnels = Inr st \<longleftrightarrow>
     tunnels_ok parseKey c \<and> st = scan_from no_tunnels (cfg_Tunnels c)"
  by (simp add: check_tunnels_Inr fresh_in_def no_tunnels_def tunnels_ok_def)

lemma scan_fields:
  "seenName (scan_from no_tunnels (cfg_Tunnels c)) = tunnel_names c"
  "allocations (scan_from no_tunnels (cfg_Tunnels c)) = map allocation_of (cfg_Tunnels c)"
  "gatewayRoutes (scan_from no_tunnels (cfg_Tunnels c)) = concat (map tunnel_routes (cfg_Tunnels c))"
  by (simp_all add: scan_from_def no_tunnels_def tunnel_names_def)

lemma routing_checks_None:
  "first_of [check_probe (tunnel_names c) (cfg_HealthProbe c),
     map_option InAllocations (ValidateAllocations (map allocation_of (cfg_Tunnels c))),
     (if gw_Enabled (cfg_Gateway c) then overlap_loop [] (concat (map tunnel_routes (cfg_Tunnels c))) else None),
     check_sources (tunnel_names c) (cfg_Tunnels c) {}, check_gateway (cfg_Gateway c),
     check_pfsync (tunnel_names c) (cfg_PfSync c)] = None \<longleftrightarrow> routing_ok c"
  unfolding accept_iff list_all_unroll routing_ok_def check_sources_None
  by (simp add: overlap_loop_accepts)

lemma groups_all:
  "check_groups (tunnel_names c) 0 (cfg_Groups c) {} = Inr seen \<longleftrightarrow> groups_ok c \<and> seen = group_names c"
  by (simp add: check_groups_Inr groups_ok_def group_names_def)

lemma validate_Inr:
  assumes "visits rng"
  shows "validate parseKey toASCII rng c = Inr c' \<longleftrightarrow>
    wf_config parseKey toASCII c \<and> c' = canonical_config toASCII c"
proof -
  have proxy: "first_of [check_proxy_timers (cfg_Proxy c), check_proxy_limits (cfg_Proxy c), check_listeners (cfg_Proxy c),
      check_resolvers c, check_destinations rng (tunnel_names c) (px_DestinationPolicy (cfg_Proxy c))] = None \<longleftrightarrow> proxy_ok c"
    by (simp add: accept_iff check_destinations_None [OF assms] proxy_ok_def)
  have front: "first_of [require (validSeconds (cfg_RouteRefresh c)) BadRouteRefresh,
      require (validSeconds (cfg_HealthInterval c)) BadHealthInterval, check_management rng (cfg_Management c)] = None \<longleftrightarrow>
      validSeconds (cfg_RouteRefresh c) \<and> validSeconds (cfg_HealthInterval c) \<and> management_ok (cfg_Management c)"
    by (simp add: accept_iff check_management_None [OF assms])
  show ?thesis
    by (simp only: validate_def option_case_Inr sum_case_Inr scan_all groups_all conj_assoc ex_simps simp_thms
        scan_fields front proxy routing_checks_None check_rules_Inr sum.inject)
      (auto simp: wf_config_def canonical_config_def rules_ok_def)
qed


section \<open>Defaults and the parser: lemmas\<close>

lemma default_int_idem [simp]: "default_int d (default_int d x) = default_int d x"
  by (simp add: default_int_def)

lemma normalize_tunnel_idem [simp]: "normalize_tunnel i (normalize_tunnel i t) = normalize_tunnel i t"
  by (simp add: normalize_tunnel_def FullMarkMask_def comp_def)

lemma normalize_tunnels_idem: "normalize_tunnels i (normalize_tunnels i ts) = normalize_tunnels i ts"
  by (induction ts arbitrary: i) simp_all

lemma normalize_probe_idem: "normalize_probe (normalize_probe h) = normalize_probe h"
  by (simp add: normalize_probe_def Let_def)

lemma normalize_management_idem: "normalize_management (normalize_management m) = normalize_management m"
  by (simp add: normalize_management_def)

lemma orDefault_idem [simp]: "orDefault (orDefault l) = orDefault l"
  by (simp add: orDefault_def)

lemma normalize_proxy_stable:
  assumes "\<forall>r\<in>set rules. \<forall>s\<in>set (rule_Suffixes r). trim_prefix ''.'' s = s"
  shows "normalize_proxy ((normalize_proxy p)\<lparr>px_Rules := rules\<rparr>) = (normalize_proxy p)\<lparr>px_Rules := rules\<rparr>"
proof -
  have "r\<lparr>rule_Suffixes := map (trim_prefix ''.'') (rule_Suffixes r)\<rparr> = r" if "r \<in> set rules" for r
    using assms that by (cases r) (simp add: map_idI)
  then have "map (\<lambda>r. r\<lparr>rule_Suffixes := map (trim_prefix ''.'') (rule_Suffixes r)\<rparr>) rules = rules"
    by (simp add: map_idI)
  then show ?thesis by (simp add: normalize_proxy_def Let_def)
qed

lemma trim_prefix_dns_name:
  assumes "dns_name n"
  shows "trim_prefix ''.'' n = n"
proof -
  have "n \<noteq> []" using assms by (simp add: dns_name_def)
  then show ?thesis
    using dns_name_chars(2) [OF assms]
    by (cases n) (auto simp: trim_prefix_def has_prefix_def isAlphaNum_def Let_def)
qed

lemma canonical_suffix_Inr:
  "canonicalHost toASCII s False = Inr (n, False) \<Longrightarrow> canonical_suffix toASCII s = n"
  by (simp add: canonical_suffix_def)

lemma rule_ok_canonical:
  assumes "rule_ok toASCII valid r"
  shows "rule_ok toASCII valid (canonical_rule toASCII r)"
    and "canonical_rule toASCII (canonical_rule toASCII r) = canonical_rule toASCII r"
    and "\<forall>s\<in>set (rule_Suffixes (canonical_rule toASCII r)). trim_prefix ''.'' s = s"
proof -
  have f: "canonicalHost toASCII (canonical_suffix toASCII s) False = Inr (canonical_suffix toASCII s, False) \<and>
      dns_name (canonical_suffix toASCII s)"
    if "s \<in> set (rule_Suffixes r)" for s
  proof -
    obtain n where n: "canonicalHost toASCII s False = Inr (n, False)"
      using assms \<open>s \<in> set (rule_Suffixes r)\<close> by (auto simp: rule_ok_def)
    then show ?thesis
      using canonicalHost_again [OF n] canonicalHost_Inr_name [OF n] by (simp add: canonical_suffix_Inr [OF n])
  qed
  then show "rule_ok toASCII valid (canonical_rule toASCII r)"
    using assms by (auto simp: rule_ok_def canonical_rule_def)
  show "canonical_rule toASCII (canonical_rule toASCII r) = canonical_rule toASCII r"
    using f by (auto simp: canonical_rule_def canonical_suffix_Inr)
  show "\<forall>s\<in>set (rule_Suffixes (canonical_rule toASCII r)). trim_prefix ''.'' s = s"
    using f by (auto simp: canonical_rule_def trim_prefix_dns_name)
qed

lemma wf_config_canonical:
  assumes "wf_config parseKey toASCII c"
  shows "wf_config parseKey toASCII (canonical_config toASCII c)"
    and "canonical_config toASCII (canonical_config toASCII c) = canonical_config toASCII c"
proof -
  have r: "\<forall>r\<in>set (px_Rules (cfg_Proxy c)). rule_ok toASCII (valid_via (tunnel_names c) (group_names c)) r"
    using assms by (simp add: wf_config_def rules_ok_def)
  have n: "tunnel_names (canonical_config toASCII c) = tunnel_names c" "group_names (canonical_config toASCII c) = group_names c"
    by (simp_all add: canonical_config_def tunnel_names_def group_names_def)
  have t: "tunnels_ok parseKey (canonical_config toASCII c) = tunnels_ok parseKey c"
    "routing_ok (canonical_config toASCII c) = routing_ok c"
    "groups_ok (canonical_config toASCII c) = groups_ok c"
    "proxy_ok (canonical_config toASCII c) = proxy_ok c"
    unfolding tunnels_ok_def routing_ok_def groups_ok_def proxy_ok_def n
    by (simp_all add: canonical_config_def proxy_timers_ok_def proxy_limits_ok_def listeners_ok_def)
  have "rules_ok toASCII (canonical_config toASCII c)"
    using assms r rule_ok_canonical(1) unfolding wf_config_def rules_ok_def n
    by (simp add: canonical_config_def)
  then show "wf_config parseKey toASCII (canonical_config toASCII c)"
    using assms unfolding wf_config_def t by (simp add: canonical_config_def)
  show "canonical_config toASCII (canonical_config toASCII c) = canonical_config toASCII c"
  proof -
    have "map (\<lambda>x. canonical_rule toASCII (canonical_rule toASCII x)) (px_Rules (cfg_Proxy c)) =
        map (canonical_rule toASCII) (px_Rules (cfg_Proxy c))"
      using r rule_ok_canonical(2) by (auto intro: map_cong)
    then show ?thesis by (simp add: canonical_config_def comp_def)
  qed
qed

lemma normalize_canonical:
  assumes "wf_config parseKey toASCII (config_normalize c)"
  shows "config_normalize (canonical_config toASCII (config_normalize c)) = canonical_config toASCII (config_normalize c)"
proof -
  let ?rules = "map (canonical_rule toASCII) (px_Rules (normalize_proxy (cfg_Proxy c)))"
  have "\<forall>r\<in>set ?rules. \<forall>s\<in>set (rule_Suffixes r). trim_prefix ''.'' s = s"
    using assms rule_ok_canonical(3) by (fastforce simp: wf_config_def rules_ok_def config_normalize_def)
  from normalize_proxy_stable [OF this, of "cfg_Proxy c"] show ?thesis
    by (simp add: config_normalize_def canonical_config_def normalize_tunnels_idem normalize_probe_idem
        normalize_management_idem comp_def)
qed


section \<open>Loading\<close>

text \<open>
  (C7) \<open>validate\<close> accepts exactly the well-formed configurations, and returns them with the routing
  suffixes in canonical form. Well-formed spells out, without loops or seen-sets, what the rest
  of the daemon relies on: interface names that fit the kernel, unique names, marks in 32 bits and
  tables, non-aliasing allocations, IPv4 routes that do not overlap across tunnels behind the
  gateway, groups of known and distinct members whose names clash with no tunnel, timeouts that
  fit a duration, a source ACL for every listener off loopback, and rules and the default that
  name a known egress. Whether a configuration passes does not depend on the order in which Go
  visits the maps (only which of several errors is reported does).
\<close>

theorem validate_accepts_iff:
  assumes "visits rng"
  shows "validate parseKey toASCII rng c = Inr c' \<longleftrightarrow>
    wf_config parseKey toASCII c \<and> c' = canonical_config toASCII c"
  using assms by (rule validate_Inr)

text \<open>
  (C26) What \<open>parseConfig\<close> returns is a fixed point of loading: filling in the defaults again
  changes nothing, and validating it again accepts it unchanged, in any order of the maps. A
  configuration that was accepted once can be compared, kept and reloaded without drift.
\<close>

theorem parseConfig_stable:
  assumes "visits rng" "visits rng'"
    and "parseConfig parseKey toASCII rng decode trailing raw = Inr c"
  shows "config_normalize c = c \<and> validate parseKey toASCII rng' c = Inr c"
proof -
  obtain d where d: "validate parseKey toASCII rng (config_normalize d) = Inr c"
    using assms(3) by (auto simp: parseConfig_def map_sum_Inr_iff split: if_splits sum.splits trailing_document.splits)
  then have wf: "wf_config parseKey toASCII (config_normalize d)" and c: "c = canonical_config toASCII (config_normalize d)"
    using validate_Inr [OF assms(1)] by blast+
  show ?thesis
    using normalize_canonical [OF wf] wf_config_canonical [OF wf] validate_Inr [OF assms(2)] by (simp add: c)
qed

definition sample_tunnel :: "string \<Rightarrow> int \<Rightarrow> string \<Rightarrow> Tunnel" where
  "sample_tunnel name mark route =
     \<lparr>tun_Name = name, tun_PrivateKey = ''k'', tun_Address = ''10.0.0.2/32'', tun_MTU = 0,
      tun_Fwmark = mark, tun_FwmarkMask = 0, tun_Table = 0, tun_RulePriority = 0, tun_AdoptExisting = False,
      tun_Routes = [route], tun_RouteSources = [],
      tun_Peer = \<lparr>peer_PublicKey = ''p'', peer_Endpoint = ''vpn.test:51820'', peer_AllowedIPs = [], peer_Keepalive = 25\<rparr>,
      tun_Resolver = []\<rparr>"

definition sample_proxy :: Proxy where
  "sample_proxy =
     \<lparr>px_HTTPSListen = ''127.0.0.1:443'', px_HTTPListen = [], px_Default = [], px_AllowedSourceCIDRs = [],
      px_MaxConnections = 0, px_MaxConnectionsPerSource = 0, px_HandshakeTimeout = 0, px_DialTimeout = 0,
      px_IdleTimeout = 0, px_ShutdownGrace = 0, px_MaxClientHelloBytes = 0, px_MaxHTTPHeaderBytes = 0,
      px_DestinationPolicy = \<lparr>dp_DirectAllowCIDRs = [], dp_TunnelAllowCIDRs = []\<rparr>, px_Resolver = [],
      px_DNSCacheTTL = 0, px_DNSPositiveCapacity = 0, px_DNSNegativeCapacity = 0, px_DNSMaxPending = 0,
      px_DNSMinPositiveTTL = 0, px_DNSMaxPositiveTTL = 0, px_DNSNegativeTTL = 0, px_DNSTransientFailureTTL = 0,
      px_DNSStaleWindow = 0, px_DNSStalePolicy = [], px_DNSResolverTimeout = 0, px_AddressFamilyStrategy = [],
      px_ConnectAttemptCap = 0, px_Rules = [\<lparr>rule_Via = ''both'', rule_Suffixes = [''.Test'']\<rparr>]\<rparr>"

definition sample_config :: Config where
  "sample_config =
     \<lparr>cfg_Tunnels = [sample_tunnel ''wg0'' 100 ''10.1.0.0/16'', sample_tunnel ''wg1'' 101 ''10.2.0.0/16''],
      cfg_Groups = [\<lparr>grp_Name = ''both'', grp_Members = [''wg0'', ''wg1''], grp_HealthyAfter = 0\<rparr>],
      cfg_Proxy = sample_proxy,
      cfg_Gateway = \<lparr>gw_Enabled = True, gw_ClientCIDRs = [''10.8.0.0/24''], gw_ListListen = []\<rparr>,
      cfg_RouteRefresh = 0, cfg_HealthInterval = 0,
      cfg_PfSync = \<lparr>pf_Enabled = False, pf_SSHHost = [], pf_SSHPort = 0, pf_SSHUser = [], pf_SSHKey = [],
        pf_KnownHosts = [], pf_FromTunnel = [], pf_KeepNetworks = []\<rparr>,
      cfg_Management = \<lparr>mg_Disabled = True, mg_Listen = [], mg_ReadHeaderTimeout = 0, mg_WriteTimeout = 0,
        mg_IdleTimeout = 0, mg_ShutdownTimeout = 0, mg_MaxHeaderBytes = 0, mg_Pprof = False\<rparr>,
      cfg_HealthProbe = \<lparr>hp_Enabled = False, hp_Endpoint = [], hp_Via = [], hp_Interval = 0, hp_Timeout = 0,
        hp_JitterPercent = 0, hp_MaxConcurrent = 0, hp_FailAfter = 0, hp_RecoverAfter = 0, hp_MaxAge = 0\<rparr>\<rparr>"

lemmas config_defaults =
  defaultMaxConnections_def defaultHandshakeTimeout_def defaultShutdownGrace_def defaultMaxClientHelloBytes_def
  defaultMaxHTTPHeaderBytes_def defaultDNSPositiveCapacity_def defaultDNSNegativeCapacity_def defaultDNSMaxPending_def
  defaultDNSMinPositiveTTL_def defaultDNSMaxPositiveTTL_def defaultDNSNegativeTTL_def defaultDNSTransientTTL_def
  defaultDNSStaleWindow_def defaultDNSResolverTimeout_def defaultConnectAttemptCap_def maxConfiguredConnections_def
  maxConfiguredProtocolBytes_def maxDNSCapacity_def maxConnectAttemptCap_def maxDurationSeconds_def
  maxInt64_def second_def default_int_def

lemma sample_routes:
  "ParsePrefix ''10.0.0.2/32'' = Some (Pfx (V4 0x0A000002) 32)" "ParsePrefix ''10.8.0.0/24'' = Some (Pfx (V4 0x0A080000) 24)"
  "ParsePrefix ''10.1.0.0/16'' = Some (Pfx (V4 0x0A010000) 16)" "ParsePrefix ''10.2.0.0/16'' = Some (Pfx (V4 0x0A020000) 16)"
  "ParseCIDR ''0.0.0.0/0'' \<noteq> None"
  by (simp_all add: netip_eval)

lemma sample_hosts:
  "validateHostPort ''vpn.test:51820'' False" "validateHostPort ''1.1.1.1:53'' False"
  "validateListener ''127.0.0.1:443''" "\<not> listenerNeedsSourceACL ''127.0.0.1:443''"
  "canonicalHost Some ''Test'' False = Inr (''test'', False)"
  by (simp_all add: validateHostPort_def validateListener_def listenerNeedsSourceACL_def canonicalHost_def canonical_name_def
      strip_port_def netip_eval go_string_simps utf8_valid_def ambiguousIPName_def isAlphaNum_def)

lemma sample_wf: "wf_config (\<lambda>_. True) Some (config_normalize sample_config)"
proof -
  let ?c = "config_normalize sample_config"
  have t: "cfg_Tunnels ?c = map (\<lambda>(i, t). normalize_tunnel i t)
      [(0, sample_tunnel ''wg0'' 100 ''10.1.0.0/16''), (1, sample_tunnel ''wg1'' 101 ''10.2.0.0/16'')]"
    by (simp add: config_normalize_def sample_config_def)
  have n: "tunnel_names ?c = {''wg0'', ''wg1''}" "group_names ?c = {''both''}"
    by (simp_all add: tunnel_names_def group_names_def t normalize_tunnel_def sample_tunnel_def)
      (simp add: config_normalize_def sample_config_def)
  have "tunnels_ok (\<lambda>_. True) ?c"
    using sample_routes sample_hosts unfolding tunnels_ok_def t
    by (simp add: normalize_tunnel_def sample_tunnel_def tunnel_ok_def peer_ok_def routes_ok_def ipv4_prefix_def
        config_defaults interfaceNameRE_def name_set_char_def go_string_simps validSeconds_def)
  moreover have "routing_ok ?c"
    using sample_routes unfolding routing_ok_def t n
    by (simp add: normalize_tunnel_def sample_tunnel_def probe_ok_def pfsync_ok_def gateway_ok_def config_normalize_def
        sample_config_def normalize_probe_def Let_def ValidateAllocations_def allocation_of_def RulePriorityMin_def
        RulePriorityMax_def FullMarkMask_def default_int_def tunnel_routes_def masked_route_def disjoint_routes_def
        ipv4_prefix_def keep_bits_def mask_eq_exp_minus_1)
  moreover have "groups_ok ?c"
    unfolding groups_ok_def n
    by (simp add: config_normalize_def sample_config_def group_ok_def operationalNameRE_def name_set_char_def go_string_simps
        config_defaults validSeconds_def)
  moreover have "proxy_ok ?c"
    using sample_hosts unfolding proxy_ok_def t n
    by (simp add: config_normalize_def sample_config_def sample_proxy_def normalize_proxy_def Let_def config_defaults validSeconds_def
        proxy_timers_ok_def proxy_limits_ok_def listeners_ok_def listener_ok_def resolvers_ok_def orDefault_def
        defaultResolver_def maxResolvers_def destinations_ok_def strategy_Valid_def Interleave_def normalize_tunnel_def sample_tunnel_def)
  moreover have "rules_ok Some ?c"
    using sample_hosts unfolding rules_ok_def n
    by (simp add: config_normalize_def sample_config_def sample_proxy_def normalize_proxy_def Let_def valid_via_def rule_ok_def
        go_string_simps)
  ultimately show ?thesis
    unfolding wf_config_def
    by (simp add: config_normalize_def sample_config_def management_ok_def normalize_management_def config_defaults validSeconds_def)
qed

theorem validate_accepts_iff_witness:
  "validate (\<lambda>_. True) Some rev (config_normalize sample_config) = Inr (canonical_config Some (config_normalize sample_config))"
  using validate_accepts_iff [OF visits_rev, of "\<lambda>_. True" Some "config_normalize sample_config"] sample_wf by blast

theorem parseConfig_stable_witness:
  "\<exists>c. config_normalize c = c \<and> validate (\<lambda>_. True) Some id c = Inr c \<and> length (cfg_Tunnels c) = 2"
proof -
  let ?c = "canonical_config Some (config_normalize sample_config)"
  have v: "visits id" by (simp add: visits_def)
  have "parseConfig (\<lambda>_. True) Some rev (\<lambda>_. Inr sample_config) (\<lambda>_. EndOfFile :: unit trailing_document) [] = Inr ?c"
    using validate_Inr [OF visits_rev, of "\<lambda>_. True" Some "config_normalize sample_config" ?c] sample_wf
    by (simp add: parseConfig_def)
  from parseConfig_stable [OF visits_rev v this] show ?thesis
    by (intro exI [of _ ?c]) (simp add: canonical_config_def config_normalize_def sample_config_def)
qed

end
