(* ===== verification/Dns_Cache.thy ===== *)
theory Dns_Cache
  imports Netip "HOL-Library.AList"
begin

unbundle bit_operations_syntax

text \<open>
  The bounded DNS cache, \<open>src/internal/dns\<close>: the types and the policy, the counters, the sharded
  cache with its two capacities, the flights that collapse equal look-ups, and the stale answers.

  Every operation that runs under a mutex is one function on the state; \<open>Resolve\<close> and \<open>runFlight\<close>,
  which take several locks one after the other, are cut into the parts between them, and a step
  relation interleaves the parts of any number of callers and flights. The upstream resolver, the
  clock and the order in which Go visits a map are arguments of the steps that read them. The
  lemmas show that no interleaving breaks the accounting: the entries of each class stay within
  the configured capacity, a key has at most one resolution in flight, an egress at most its
  limit, and no caller waits on a flight that nobody will finish.
\<close>

section \<open>Types and policy\<close>

text \<open>An answer code other than the four of the source is \<open>RCodeInvalid\<close>.\<close>

datatype RCode = RCodeSuccess | RCodeNXDOMAIN | RCodeNODATA | RCodeTransient | RCodeInvalid

fun rcode_String :: "RCode \<Rightarrow> string" where
  "rcode_String RCodeSuccess = ''positive''"
| "rcode_String RCodeNXDOMAIN = ''nxdomain''"
| "rcode_String RCodeNODATA = ''nodata''"
| "rcode_String RCodeTransient = ''transient''"
| "rcode_String RCodeInvalid = ''unknown''"

type_synonym Family = "8 word"

definition FamilyAny :: Family where "FamilyAny = 0"
definition FamilyIPv4 :: Family where "FamilyIPv4 = 1"
definition FamilyIPv6 :: Family where "FamilyIPv6 = 2"

text \<open>The zero \<open>time.Time\<close>, the first of January of year 1, in nanoseconds from 1970.\<close>

definition zero_time :: gotime where
  "zero_time = - 62135596800 * second"

record dns_Result =
  res_Addrs :: "addr list"
  res_ExpiresAt :: gotime
  res_RCode :: RCode

definition zero_Result :: dns_Result where
  "zero_Result = \<lparr>res_Addrs = [], res_ExpiresAt = zero_time, res_RCode = RCodeSuccess\<rparr>"

record Query =
  q_Host :: string
  q_Family :: Family
  q_Egress :: string
  q_Resolver :: string
  q_Generation :: "64 word"

record dns_key =
  k_host :: string
  k_family :: Family
  k_egress :: string
  k_resolver :: string
  k_generation :: "64 word"

datatype 'e resolver_failure = ResolverErr 'e | ResolverPanicked | InvalidResponseClass

datatype 'e dns_error =
    NilResolver | InvalidHostname | InvalidFamily Family | ErrPendingLimit
  | ResolveError "'e resolver_failure" | ContextErr 'e

definition makeKey :: "Query \<Rightarrow> 'e dns_error + dns_key" where
  "makeKey q =
     (let host = to_lower (trim_suffix ''.'' (q_Host q))
      in if host = [] \<or> trim_space host \<noteq> host then Inl InvalidHostname
         else if FamilyIPv6 < q_Family q then Inl (InvalidFamily (q_Family q))
         else Inr \<lparr>k_host = host, k_family = q_Family q, k_egress = q_Egress q,
                   k_resolver = q_Resolver q, k_generation = q_Generation q\<rparr>)"

definition StaleNever :: string where "StaleNever = ''never''"
definition StaleTransient :: string where "StaleTransient = ''transient''"

record dns_Policy =
  PositiveCapacity :: int
  NegativeCapacity :: int
  MaxPending :: int
  MinPositiveTTL :: duration
  MaxPositiveTTL :: duration
  NegativeTTL :: duration
  TransientFailureTTL :: duration
  StaleWindow :: duration
  StalePolicy :: string
  ResolverTimeout :: duration

datatype policy_error =
    PositiveCapacityNotPositive | NegativeCapacityNotPositive | MaxPendingNotPositive
  | MinTTLNotPositive | MaxTTLBelowMin | NegativeTTLNotPositive | TransientTTLNotPositive
  | StaleWindowNegative | StalePolicyUnsupported string | ResolverTimeoutNotPositive

definition policy_Validate :: "dns_Policy \<Rightarrow> policy_error option" where
  "policy_Validate p =
     (if PositiveCapacity p \<le> 0 then Some PositiveCapacityNotPositive
      else if NegativeCapacity p \<le> 0 then Some NegativeCapacityNotPositive
      else if MaxPending p \<le> 0 then Some MaxPendingNotPositive
      else if MinPositiveTTL p \<le> 0 then Some MinTTLNotPositive
      else if MaxPositiveTTL p < MinPositiveTTL p then Some MaxTTLBelowMin
      else if NegativeTTL p \<le> 0 then Some NegativeTTLNotPositive
      else if TransientFailureTTL p \<le> 0 then Some TransientTTLNotPositive
      else if StaleWindow p < 0 then Some StaleWindowNegative
      else if StalePolicy p \<noteq> StaleNever \<and> StalePolicy p \<noteq> StaleTransient
      then Some (StalePolicyUnsupported (StalePolicy p))
      else if ResolverTimeout p \<le> 0 then Some ResolverTimeoutNotPositive
      else None)"


section \<open>Counters\<close>

datatype request_kind =
  requestHit | requestMiss | requestStale | requestNegative | requestRefresh | requestRejected

datatype entry_class = classPositive | classNegative

definition maxResolutionLabels :: nat where "maxResolutionLabels = 16"
definition egressDirect :: string where "egressDirect = ''direct''"

text \<open>The resolution counters: the number of resolutions and their total nanoseconds per key.\<close>

type_synonym resolution_metrics = "(string \<times> 64 word \<times> 64 word) list"

record dns_metrics =
  m_entries :: "entry_class \<Rightarrow> int"
  m_evictions :: "entry_class \<Rightarrow> 64 word"
  m_requests :: "request_kind \<Rightarrow> 64 word"
  m_pending :: int
  m_rejected :: "64 word"
  m_resolution :: resolution_metrics

definition zero_metrics :: dns_metrics where
  "zero_metrics = \<lparr>m_entries = (\<lambda>_. 0), m_evictions = (\<lambda>_. 0), m_requests = (\<lambda>_. 0), m_pending = 0,
     m_rejected = 0, m_resolution = []\<rparr>"

definition count_request :: "request_kind \<Rightarrow> dns_metrics \<Rightarrow> dns_metrics" where
  "count_request kind m = m\<lparr>m_requests := (m_requests m)(kind := m_requests m kind + 1)\<rparr>"

definition resolution_add :: "string \<Rightarrow> duration \<Rightarrow> resolution_metrics \<Rightarrow> resolution_metrics" where
  "resolution_add key elapsed r =
     (let (count, nanos) = (case map_of r key of None \<Rightarrow> (0, 0) | Some cn \<Rightarrow> cn)
      in AList.update key (count + 1, nanos + word_of_int (max elapsed 0)) r)"

definition recordResolution :: "RCode \<Rightarrow> string \<Rightarrow> duration \<Rightarrow> dns_metrics \<Rightarrow> dns_metrics" where
  "recordResolution rcode0 egress0 elapsed m =
     (let rcode = (if rcode0 = RCodeInvalid then RCodeTransient else rcode0);
          egress = (if egress0 = [] then egressDirect else egress0);
          key = rcode_String rcode @ ''|'' @ egress;
          r = m_resolution m
      in m\<lparr>m_resolution :=
             (if map_of r key = None \<and> maxResolutionLabels * 4 \<le> length r
              then resolution_add (rcode_String rcode @ ''|other'') elapsed r
              else resolution_add key elapsed r)\<rparr>)"

record ResolutionStats =
  rs_Count :: "64 word"
  rs_TotalDuration :: duration

record MetricsSnapshot =
  ms_EntriesPositive :: int
  ms_EntriesNegative :: int
  ms_EvictionsPositive :: "64 word"
  ms_EvictionsNegative :: "64 word"
  ms_Requests :: "string \<rightharpoonup> 64 word"
  ms_Pending :: int
  ms_RejectedPending :: "64 word"
  ms_Resolutions :: "string \<rightharpoonup> ResolutionStats"

definition metrics_snapshot :: "dns_metrics \<Rightarrow> MetricsSnapshot" where
  "metrics_snapshot m =
     \<lparr>ms_EntriesPositive = m_entries m classPositive, ms_EntriesNegative = m_entries m classNegative,
      ms_EvictionsPositive = m_evictions m classPositive, ms_EvictionsNegative = m_evictions m classNegative,
      ms_Requests = [''hit'' \<mapsto> m_requests m requestHit, ''miss'' \<mapsto> m_requests m requestMiss,
        ''stale'' \<mapsto> m_requests m requestStale, ''negative'' \<mapsto> m_requests m requestNegative,
        ''refresh'' \<mapsto> m_requests m requestRefresh, ''rejection'' \<mapsto> m_requests m requestRejected],
      ms_Pending = m_pending m, ms_RejectedPending = m_rejected m,
      ms_Resolutions = map_option (\<lambda>(count, nanos). \<lparr>rs_Count = count, rs_TotalDuration = sint nanos\<rparr>) \<circ>
        map_of (m_resolution m)\<rparr>"

section \<open>The cache\<close>

definition defaultShardCount :: int where "defaultShardCount = 16"

record 'e cacheEntry =
  ce_result :: dns_Result
  ce_err :: "'e dns_error option"
  ce_stale :: dns_Result
  ce_staleUntil :: gotime

definition zero_entry :: "'e cacheEntry" where
  "zero_entry = \<lparr>ce_result = zero_Result, ce_err = None, ce_stale = zero_Result, ce_staleUntil = zero_time\<rparr>"

definition entry_class_of :: "'e cacheEntry \<Rightarrow> entry_class" where
  "entry_class_of e = (if res_RCode (ce_result e) = RCodeSuccess then classPositive else classNegative)"

text \<open>The entries of a shard, with distinct keys.\<close>

record 'e cacheShard =
  sh_entries :: "(dns_key \<times> 'e cacheEntry) list"
  sh_counts :: "entry_class \<Rightarrow> int"
  sh_positiveCap :: int
  sh_negativeCap :: int

fun shard_capacity :: "'e cacheShard \<Rightarrow> entry_class \<Rightarrow> int" where
  "shard_capacity s classPositive = sh_positiveCap s"
| "shard_capacity s classNegative = sh_negativeCap s"

text \<open>
  A flight; closing its channel sets \<open>fl_done\<close>. The flights of the process, finished ones
  included, are a list, and a pointer to a flight is its index.
\<close>

record 'e flight =
  fl_done :: bool
  fl_result :: dns_Result
  fl_err :: "'e dns_error option"
  fl_stale :: dns_Result
  fl_serveStale :: bool

record 'e Cache =
  c_policy :: dns_Policy
  c_shards :: "'e cacheShard list"
  c_flights :: "dns_key \<rightharpoonup> nat"
  c_pendingByEgress :: "string \<rightharpoonup> int"
  c_metrics :: dns_metrics
  c_heap :: "'e flight list"

definition distributedCapacity :: "int \<Rightarrow> int \<Rightarrow> int \<Rightarrow> int" where
  "distributedCapacity capacity shards index =
     capacity div shards + (if index < capacity mod shards then 1 else 0)"

definition new_shard :: "dns_Policy \<Rightarrow> int \<Rightarrow> nat \<Rightarrow> 'e cacheShard" where
  "new_shard p n i =
     \<lparr>sh_entries = [], sh_counts = (\<lambda>_. 0), sh_positiveCap = distributedCapacity (PositiveCapacity p) n (int i),
      sh_negativeCap = distributedCapacity (NegativeCapacity p) n (int i)\<rparr>"

definition NewCache :: "dns_Policy \<Rightarrow> policy_error + 'e Cache" where
  "NewCache policy =
     (case policy_Validate policy of
        Some e \<Rightarrow> Inl e
      | None \<Rightarrow>
          let shardCount = min defaultShardCount (min (PositiveCapacity policy) (NegativeCapacity policy))
          in Inr \<lparr>c_policy = policy, c_shards = map (new_shard policy shardCount) [0..<nat shardCount],
                  c_flights = Map.empty, c_pendingByEgress = Map.empty, c_metrics = zero_metrics, c_heap = []\<rparr>)"

text \<open>FNV-1a over the fields of the key picks the shard.\<close>

definition fnv64a :: "nat list \<Rightarrow> 64 word" where
  "fnv64a bytes = foldl (\<lambda>h b. (h XOR word_of_nat b) * 1099511628211) 14695981039346656037 bytes"

definition key_bytes :: "dns_key \<Rightarrow> nat list" where
  "key_bytes k =
     map of_char (k_host k) @ [unat (k_family k)] @ map of_char (k_egress k) @ map of_char (k_resolver k) @
     map (\<lambda>i. unat (k_generation k) div 2 ^ (8 * i) mod 256) [0..<8]"

definition shardFor :: "'e Cache \<Rightarrow> dns_key \<Rightarrow> nat" where
  "shardFor c k = unat (fnv64a (key_bytes k)) mod length (c_shards c)"

text \<open>An operation on the shard of a key, with the counters of the cache.\<close>

definition on_shard :: "dns_key \<Rightarrow> ('e cacheShard \<times> dns_metrics \<Rightarrow> 'e cacheShard \<times> dns_metrics) \<Rightarrow> 'e Cache \<Rightarrow> 'e Cache" where
  "on_shard k f c =
     (let i = shardFor c k; (s, m) = f (c_shards c ! i, c_metrics c)
      in c\<lparr>c_shards := (c_shards c)[i := s], c_metrics := m\<rparr>)"

definition entry_at :: "'e Cache \<Rightarrow> dns_key \<Rightarrow> 'e cacheEntry option" where
  "entry_at c k = map_of (sh_entries (c_shards c ! shardFor c k)) k"

fun deleteLocked :: "dns_key \<Rightarrow> 'e cacheEntry \<Rightarrow> 'e cacheShard \<times> dns_metrics \<Rightarrow> 'e cacheShard \<times> dns_metrics" where
  "deleteLocked k entry (s, m) =
     (let cls = entry_class_of entry
      in (s\<lparr>sh_entries := AList.delete k (sh_entries s),
            sh_counts := (sh_counts s)(cls := sh_counts s cls - 1)\<rparr>,
          m\<lparr>m_entries := (m_entries m)(cls := m_entries m cls - 1)\<rparr>))"

text \<open>
  The sweep looks at the first keys of the visiting order. A deletion during the visit does not
  disturb the entries that are still to come.
\<close>

fun sweep_loop :: "gotime \<Rightarrow> nat \<Rightarrow> dns_key list \<Rightarrow> 'e cacheShard \<times> dns_metrics \<Rightarrow> 'e cacheShard \<times> dns_metrics" where
  "sweep_loop now limit [] sm = sm"
| "sweep_loop now 0 (k # ks) sm = sm"
| "sweep_loop now (Suc limit) (k # ks) sm =
     sweep_loop now limit ks
       (case map_of (sh_entries (fst sm)) k of
          None \<Rightarrow> sm
        | Some entry \<Rightarrow>
            if res_ExpiresAt (ce_result entry) \<le> now \<and> ce_staleUntil entry \<le> now
            then deleteLocked k entry sm else sm)"

definition sweepLocked :: "(dns_key list \<Rightarrow> dns_key list) \<Rightarrow> gotime \<Rightarrow> nat \<Rightarrow>
    'e cacheShard \<times> dns_metrics \<Rightarrow> 'e cacheShard \<times> dns_metrics"
where
  "sweepLocked rng now limit sm = sweep_loop now limit (rng (map fst (sh_entries (fst sm)))) sm"

definition evict :: "(dns_key list \<Rightarrow> dns_key list) \<Rightarrow> entry_class \<Rightarrow>
    'e cacheShard \<times> dns_metrics \<Rightarrow> 'e cacheShard \<times> dns_metrics"
where
  "evict rng cls sm =
     (case find (\<lambda>k. case map_of (sh_entries (fst sm)) k of None \<Rightarrow> False | Some v \<Rightarrow> entry_class_of v = cls)
             (rng (map fst (sh_entries (fst sm)))) of
        None \<Rightarrow> sm
      | Some k \<Rightarrow>
          let (s, m) = deleteLocked k (the (map_of (sh_entries (fst sm)) k)) sm
          in (s, m\<lparr>m_evictions := (m_evictions m)(cls := m_evictions m cls + 1)\<rparr>))"

fun put_entry :: "dns_key \<Rightarrow> 'e cacheEntry \<Rightarrow> 'e cacheShard \<times> dns_metrics \<Rightarrow> 'e cacheShard \<times> dns_metrics" where
  "put_entry k entry (s, m) =
     (let cls = entry_class_of entry
      in (s\<lparr>sh_entries := AList.update k entry (sh_entries s),
            sh_counts := (sh_counts s)(cls := sh_counts s cls + 1)\<rparr>,
          m\<lparr>m_entries := (m_entries m)(cls := m_entries m cls + 1)\<rparr>))"

definition insert_locked :: "(dns_key list \<Rightarrow> dns_key list) \<Rightarrow> (dns_key list \<Rightarrow> dns_key list) \<Rightarrow> dns_key \<Rightarrow> 'e cacheEntry \<Rightarrow>
    gotime \<Rightarrow> 'e cacheShard \<times> dns_metrics \<Rightarrow> 'e cacheShard \<times> dns_metrics"
where
  "insert_locked rng rng' k entry now sm0 =
     (let sm1 = sweepLocked rng now 4 sm0;
          sm2 = (case map_of (sh_entries (fst sm1)) k of
                   None \<Rightarrow> sm1 | Some previous \<Rightarrow> deleteLocked k previous sm1);
          cls = entry_class_of entry;
          sm3 = (if shard_capacity (fst sm2) cls \<le> sh_counts (fst sm2) cls then evict rng' cls sm2 else sm2)
      in put_entry k entry sm3)"

definition cache_insert :: "(dns_key list \<Rightarrow> dns_key list) \<Rightarrow> (dns_key list \<Rightarrow> dns_key list) \<Rightarrow> dns_key \<Rightarrow> 'e cacheEntry \<Rightarrow>
    gotime \<Rightarrow> 'e Cache \<Rightarrow> 'e Cache"
where
  "cache_insert rng rng' k entry now c = on_shard k (insert_locked rng rng' k entry now) c"

definition canServeStale :: "'e Cache \<Rightarrow> 'e cacheEntry \<Rightarrow> gotime \<Rightarrow> bool" where
  "canServeStale c entry now \<longleftrightarrow>
     StalePolicy (c_policy c) = StaleTransient \<and> res_Addrs (ce_stale entry) \<noteq> [] \<and> now < ce_staleUntil entry"

definition takeEntry :: "dns_key \<Rightarrow> gotime \<Rightarrow> 'e Cache \<Rightarrow> ('e cacheEntry \<times> bool) \<times> 'e Cache" where
  "takeEntry k now c =
     (case entry_at c k of
        None \<Rightarrow> ((zero_entry, False), c)
      | Some entry \<Rightarrow>
          if now < res_ExpiresAt (ce_result entry) then ((entry, True), c)
          else if res_RCode (ce_result entry) = RCodeTransient \<and> canServeStale c entry now
          then ((entry, False), c)
          else ((entry, False), on_shard k (deleteLocked k entry) c))"

definition peekFresh :: "dns_key \<Rightarrow> gotime \<Rightarrow> 'e Cache \<Rightarrow> 'e cacheEntry option" where
  "peekFresh k now c =
     (case entry_at c k of
        None \<Rightarrow> None | Some entry \<Rightarrow> if now < res_ExpiresAt (ce_result entry) then Some entry else None)"

definition Invalidate :: "Query \<Rightarrow> 'e Cache \<Rightarrow> 'e Cache" where
  "Invalidate query c =
     (case makeKey query :: 'e dns_error + dns_key of
        Inl e \<Rightarrow> c
      | Inr k \<Rightarrow>
          (case entry_at c k of
             None \<Rightarrow> c
           | Some entry \<Rightarrow>
               let c' = on_shard k (deleteLocked k entry) c; cls = entry_class_of entry; m = c_metrics c'
               in c'\<lparr>c_metrics := m\<lparr>m_evictions := (m_evictions m)(cls := m_evictions m cls + 1)\<rparr>\<rparr>))"


section \<open>Answers\<close>

fun addr_loop :: "addr list \<Rightarrow> addr set \<Rightarrow> addr list \<Rightarrow> addr list" where
  "addr_loop [] seen out = out"
| "addr_loop (a # as) seen out =
     (if \<not> IsValid a \<or> Zone a \<noteq> [] then addr_loop as seen out
      else if Unmap a \<in> seen then addr_loop as seen out
      else addr_loop as (insert (Unmap a) seen) (out @ [Unmap a]))"

definition normalizeAddrs :: "addr list \<Rightarrow> addr list" where
  "normalizeAddrs input = addr_loop input {} []"

definition transient_Result :: "dns_Policy \<Rightarrow> gotime \<Rightarrow> dns_Result" where
  "transient_Result p now =
     \<lparr>res_Addrs = [], res_ExpiresAt = now + TransientFailureTTL p, res_RCode = RCodeTransient\<rparr>"

definition normalizeResult :: "dns_Policy \<Rightarrow> 'e resolver_failure + dns_Result \<Rightarrow> gotime \<Rightarrow> dns_Result \<times> 'e dns_error option" where
  "normalizeResult p answer now =
     (case answer of
        Inl e \<Rightarrow> (transient_Result p now, Some (ResolveError e))
      | Inr r0 \<Rightarrow>
          let addrs = normalizeAddrs (res_Addrs r0);
              rcode = (if res_RCode r0 = RCodeSuccess \<and> addrs = [] then RCodeNODATA else res_RCode r0)
          in case rcode of
               RCodeSuccess \<Rightarrow>
                 let ttl0 = time_sub (res_ExpiresAt r0) now;
                     ttl1 = (if ttl0 < MinPositiveTTL p then MinPositiveTTL p else ttl0);
                     ttl = (if MaxPositiveTTL p < ttl1 then MaxPositiveTTL p else ttl1)
                 in (\<lparr>res_Addrs = addrs, res_ExpiresAt = now + ttl, res_RCode = RCodeSuccess\<rparr>, None)
             | RCodeNXDOMAIN \<Rightarrow> (\<lparr>res_Addrs = [], res_ExpiresAt = now + NegativeTTL p, res_RCode = RCodeNXDOMAIN\<rparr>, None)
             | RCodeNODATA \<Rightarrow> (\<lparr>res_Addrs = [], res_ExpiresAt = now + NegativeTTL p, res_RCode = RCodeNODATA\<rparr>, None)
             | _ \<Rightarrow> (transient_Result p now, Some (ResolveError InvalidResponseClass)))"

text \<open>\<open>callResolver\<close>: a resolver returns an answer, fails or panics.\<close>

datatype 'e resolver_outcome = Answered dns_Result | Failed 'e | Panicked

fun callResolver :: "'e resolver_outcome \<Rightarrow> 'e resolver_failure + dns_Result" where
  "callResolver (Answered r) = Inr r"
| "callResolver (Failed e) = Inl (ResolverErr e)"
| "callResolver Panicked = Inl ResolverPanicked"

text \<open>\<open>NetResolver.Resolve\<close> on the result of the look-up; \<open>lookup_not_found\<close> is a DNS error that says so.\<close>

datatype 'e lookup_outcome = lookup_addrs "addr list" | lookup_not_found | lookup_error 'e

definition lookup_network :: "Family \<Rightarrow> string" where
  "lookup_network f = (if f = FamilyIPv4 then ''ip4'' else if f = FamilyIPv6 then ''ip6'' else ''ip'')"

definition NetResolver_Resolve :: "(string \<Rightarrow> string \<Rightarrow> 'e lookup_outcome) \<Rightarrow> duration \<Rightarrow> gotime \<Rightarrow> Query \<Rightarrow> 'e resolver_outcome" where
  "NetResolver_Resolve lookup localTTL now query =
     (case lookup (lookup_network (q_Family query)) (q_Host query) of
        lookup_not_found \<Rightarrow> Answered (zero_Result\<lparr>res_RCode := RCodeNXDOMAIN\<rparr>)
      | lookup_error e \<Rightarrow> Failed e
      | lookup_addrs addrs \<Rightarrow>
          if addrs = [] then Answered (zero_Result\<lparr>res_RCode := RCodeNODATA\<rparr>)
          else Answered \<lparr>res_Addrs = addrs, res_ExpiresAt = now + localTTL, res_RCode = RCodeSuccess\<rparr>)"

section \<open>Flights\<close>

text \<open>A caller of \<open>Resolve\<close> has returned, is about to start a flight, or waits for one.\<close>

datatype 'e caller =
    Returned dns_Result "'e dns_error option"
  | Starting dns_key Query dns_Result gotime bool
  | Waiting nat

text \<open>The goroutine of a flight, before and after it has inserted its result.\<close>

record running =
  r_key :: dns_key
  r_query :: Query
  r_stale :: dns_Result
  r_staleUntil :: gotime
  r_flight :: nat
  r_inserted :: bool

definition cached_flight :: "'e Cache \<Rightarrow> 'e cacheEntry \<Rightarrow> gotime \<Rightarrow> 'e flight" where
  "cached_flight c entry now =
     (let f = \<lparr>fl_done = True, fl_result = zero_Result, fl_err = None, fl_stale = zero_Result, fl_serveStale = False\<rparr>
      in if res_RCode (ce_result entry) = RCodeTransient \<and> canServeStale c entry now
         then f\<lparr>fl_result := ce_stale entry\<rparr>
         else if res_RCode (ce_result entry) = RCodeTransient
         then f\<lparr>fl_result := ce_result entry, fl_err := ce_err entry\<rparr>
         else f\<lparr>fl_result := ce_result entry\<rparr>)"

definition pending_of :: "'e Cache \<Rightarrow> string \<Rightarrow> int" where
  "pending_of c egress = (case c_pendingByEgress c egress of None \<Rightarrow> 0 | Some n \<Rightarrow> n)"

text \<open>
  The two clock readings of \<open>startFlight\<close> are \<open>now\<close> and \<open>now'\<close>. The result is the flight or an
  error, and the goroutine it started, if any.
\<close>

definition startFlight :: "dns_key \<Rightarrow> Query \<Rightarrow> dns_Result \<Rightarrow> gotime \<Rightarrow> bool \<Rightarrow> gotime \<Rightarrow> gotime \<Rightarrow> 'e Cache \<Rightarrow>
    ('e dns_error + nat) \<times> running option \<times> 'e Cache"
where
  "startFlight k query stale staleUntil serveStale now now' c =
     (case c_flights c k of
        Some f \<Rightarrow> (Inr f, None, c)
      | None \<Rightarrow>
          (case peekFresh k now c of
             Some entry \<Rightarrow> (Inr (length (c_heap c)), None, c\<lparr>c_heap := c_heap c @ [cached_flight c entry now']\<rparr>)
           | None \<Rightarrow>
               if MaxPending (c_policy c) \<le> pending_of c (k_egress k)
               then (Inl ErrPendingLimit, None,
                     c\<lparr>c_metrics := count_request requestRejected
                          ((c_metrics c)\<lparr>m_rejected := m_rejected (c_metrics c) + 1\<rparr>)\<rparr>)
               else
                 let f = length (c_heap c)
                 in (Inr f,
                     Some \<lparr>r_key = k, r_query = query, r_stale = stale, r_staleUntil = staleUntil,
                           r_flight = f, r_inserted = False\<rparr>,
                     c\<lparr>c_heap := c_heap c @ [\<lparr>fl_done = False, fl_result = zero_Result, fl_err = None,
                                               fl_stale = stale, fl_serveStale = serveStale\<rparr>],
                       c_flights := (c_flights c)(k \<mapsto> f),
                       c_pendingByEgress := (c_pendingByEgress c)(k_egress k \<mapsto> pending_of c (k_egress k) + 1),
                       c_metrics := (c_metrics c)\<lparr>m_pending := m_pending (c_metrics c) + 1\<rparr>\<rparr>)))"

definition count_in :: "request_kind \<Rightarrow> 'e Cache \<Rightarrow> 'e Cache" where
  "count_in kind c = c\<lparr>c_metrics := count_request kind (c_metrics c)\<rparr>"

text \<open>\<open>Resolve\<close> up to the point where it asks for a flight.\<close>

definition resolve_take :: "bool \<Rightarrow> Query \<Rightarrow> gotime \<Rightarrow> 'e Cache \<Rightarrow> 'e caller \<times> 'e Cache" where
  "resolve_take has_resolver query now c =
     (if \<not> has_resolver then (Returned zero_Result (Some NilResolver), c)
      else case makeKey query of
        Inl e \<Rightarrow> (Returned zero_Result (Some e), c)
      | Inr k \<Rightarrow>
          let ((entry, found), c1) = takeEntry k now c; rcode = res_RCode (ce_result entry)
          in if found \<and> rcode = RCodeSuccess then (Returned (ce_result entry) None, count_in requestHit c1)
             else if found \<and> (rcode = RCodeNXDOMAIN \<or> rcode = RCodeNODATA)
             then (Returned (ce_result entry) None, count_in requestNegative c1)
             else if found \<and> rcode = RCodeTransient \<and> canServeStale c1 entry now
             then (Returned (ce_stale entry) None, count_in requestStale c1)
             else if found \<and> rcode = RCodeTransient
             then (Returned (ce_result entry) (ce_err entry), count_in requestNegative c1)
             else if rcode = RCodeSuccess \<and> now < ce_staleUntil entry
             then (Starting k query (ce_result entry) (ce_staleUntil entry) False, c1)
             else if rcode = RCodeTransient \<and> canServeStale c1 entry now
             then (Starting k query (ce_stale entry) (ce_staleUntil entry) True, c1)
             else (Starting k query zero_Result zero_time False, c1))"

text \<open>The rest of \<open>Resolve\<close>, up to its wait; \<open>refresh\<close> tells its two calls of \<open>startFlight\<close> apart.\<close>

definition resolve_start :: "dns_key \<Rightarrow> Query \<Rightarrow> dns_Result \<Rightarrow> gotime \<Rightarrow> bool \<Rightarrow> gotime \<Rightarrow> gotime \<Rightarrow> 'e Cache \<Rightarrow>
    'e caller \<times> running option \<times> 'e Cache"
where
  "resolve_start k query stale staleUntil refresh now now' c =
     (let c0 = (if refresh then c else count_in requestMiss c)
      in case startFlight k query stale staleUntil refresh now now' c0 of
           (Inl e, g, c1) \<Rightarrow> (Returned zero_Result (Some e), g, c1)
         | (Inr f, g, c1) \<Rightarrow>
             let fl = c_heap c1 ! f
             in if fl_done fl then (Returned (fl_result fl) (fl_err fl), g, c1)
                else if refresh then (Returned stale None, g, count_in requestStale (count_in requestRefresh c1))
                else if fl_serveStale fl \<and> res_Addrs (fl_stale fl) \<noteq> []
                then (Returned (fl_stale fl) None, g, count_in requestStale c1)
                else (Waiting f, g, c1))"

text \<open>\<open>waitForFlight\<close>: the flight is done, or the caller's context is.\<close>

fun waitForFlight :: "'e option \<Rightarrow> 'e flight \<Rightarrow> 'e caller option" where
  "waitForFlight (Some e) f = Some (Returned zero_Result (Some (ContextErr e)))"
| "waitForFlight None f = (if fl_done f then Some (Returned (fl_result f) (fl_err f)) else None)"

text \<open>\<open>runFlight\<close> up to the lock of the flights: it inserts the answer and fills the flight.\<close>

definition flight_entry :: "'e Cache \<Rightarrow> running \<Rightarrow> dns_Result \<Rightarrow> 'e dns_error option \<Rightarrow> gotime \<Rightarrow> 'e cacheEntry" where
  "flight_entry c r result err now =
     (let entry = zero_entry\<lparr>ce_result := result, ce_err := err\<rparr>
      in if res_RCode result = RCodeSuccess
         then entry\<lparr>ce_staleUntil := res_ExpiresAt result + StaleWindow (c_policy c)\<rparr>
         else if res_RCode result = RCodeTransient \<and> res_Addrs (r_stale r) \<noteq> [] \<and> now < r_staleUntil r
         then entry\<lparr>ce_stale := r_stale r, ce_staleUntil := r_staleUntil r\<rparr>
         else entry)"

definition flight_insert :: "(dns_key list \<Rightarrow> dns_key list) \<Rightarrow> (dns_key list \<Rightarrow> dns_key list) \<Rightarrow> 'e resolver_outcome \<Rightarrow>
    duration \<Rightarrow> gotime \<Rightarrow> running \<Rightarrow> 'e Cache \<Rightarrow> 'e Cache"
where
  "flight_insert rng rng' outcome elapsed now r c =
     (let (result, err) = normalizeResult (c_policy c) (callResolver outcome) now;
          c1 = c\<lparr>c_metrics := recordResolution (res_RCode result) (q_Egress (r_query r)) elapsed (c_metrics c)\<rparr>;
          entry = flight_entry c r result err now;
          c2 = cache_insert rng rng' (r_key r) entry now c1;
          serve = (res_RCode result = RCodeTransient \<and> canServeStale c2 entry now);
          fl = (c_heap c2 ! r_flight r)\<lparr>fl_result := (if serve then ce_stale entry else result),
                                           fl_err := (if serve then None else err)\<rparr>;
          c3 = c2\<lparr>c_heap := (c_heap c2)[r_flight r := fl]\<rparr>
      in if serve then count_in requestStale c3 else c3)"

definition flight_finish :: "running \<Rightarrow> 'e Cache \<Rightarrow> 'e Cache" where
  "flight_finish r c =
     (let egress = k_egress (r_key r); left = pending_of c egress - 1
      in c\<lparr>c_flights := (c_flights c)(r_key r := None),
           c_pendingByEgress := (c_pendingByEgress c)(egress := (if left \<le> 0 then None else Some left)),
           c_metrics := (c_metrics c)\<lparr>m_pending := m_pending (c_metrics c) - 1\<rparr>,
           c_heap := (c_heap c)[r_flight r := (c_heap c ! r_flight r)\<lparr>fl_done := True\<rparr>]\<rparr>)"


section \<open>Interleaving\<close>

record 'e dns_system =
  s_cache :: "'e Cache"
  s_callers :: "'e caller list"
  s_running :: "running list"

definition remove_at :: "nat \<Rightarrow> 'a list \<Rightarrow> 'a list" where
  "remove_at i xs = take i xs @ drop (Suc i) xs"

inductive dns_step :: "'e dns_system \<Rightarrow> 'e dns_system \<Rightarrow> bool" where
  call: "resolve_take has_resolver query now (s_cache s) = (caller, c) \<Longrightarrow>
    dns_step s (s\<lparr>s_cache := c, s_callers := s_callers s @ [caller]\<rparr>)"
| start: "i < length (s_callers s) \<Longrightarrow> s_callers s ! i = Starting k query stale staleUntil refresh \<Longrightarrow>
    resolve_start k query stale staleUntil refresh now now' (s_cache s) = (caller, g, c) \<Longrightarrow>
    dns_step s (s\<lparr>s_cache := c, s_callers := (s_callers s)[i := caller],
      s_running := s_running s @ (case g of None \<Rightarrow> [] | Some r \<Rightarrow> [r])\<rparr>)"
| answer: "j < length (s_running s) \<Longrightarrow> r = s_running s ! j \<Longrightarrow> \<not> r_inserted r \<Longrightarrow> visits rng \<Longrightarrow> visits rng' \<Longrightarrow>
    dns_step s (s\<lparr>s_cache := flight_insert rng rng' outcome elapsed now r (s_cache s),
      s_running := (s_running s)[j := r\<lparr>r_inserted := True\<rparr>]\<rparr>)"
| finish: "j < length (s_running s) \<Longrightarrow> r = s_running s ! j \<Longrightarrow> r_inserted r \<Longrightarrow>
    dns_step s (s\<lparr>s_cache := flight_finish r (s_cache s), s_running := remove_at j (s_running s)\<rparr>)"
| wait: "i < length (s_callers s) \<Longrightarrow> s_callers s ! i = Waiting f \<Longrightarrow>
    waitForFlight ctx (c_heap (s_cache s) ! f) = Some caller \<Longrightarrow>
    dns_step s (s\<lparr>s_callers := (s_callers s)[i := caller]\<rparr>)"
| invalidate: "dns_step s (s\<lparr>s_cache := Invalidate query (s_cache s)\<rparr>)"

definition dns_reachable :: "dns_Policy \<Rightarrow> 'e dns_system \<Rightarrow> bool" where
  "dns_reachable p s \<longleftrightarrow>
     (\<exists>c. NewCache p = Inr c \<and> dns_step\<^sup>*\<^sup>* \<lparr>s_cache = c, s_callers = [], s_running = []\<rparr> s)"

section \<open>The accounting of a shard\<close>

definition class_count :: "entry_class \<Rightarrow> (dns_key \<times> 'e cacheEntry) list \<Rightarrow> int" where
  "class_count cls es = int (length (filter (\<lambda>(k, e). entry_class_of e = cls) es))"

definition shard_inv :: "'e cacheShard \<Rightarrow> bool" where
  "shard_inv s \<longleftrightarrow> distinct (map fst (sh_entries s)) \<and> (\<forall>cls. sh_counts s cls = class_count cls (sh_entries s))"

text \<open>The gauge of the cache moves with the counts of the shard; nothing else it reads changes.\<close>

definition balanced :: "'e cacheShard \<times> dns_metrics \<Rightarrow> 'e cacheShard \<times> dns_metrics \<Rightarrow> bool" where
  "balanced sm sm' \<longleftrightarrow>
     (\<forall>cls. m_entries (snd sm') cls - m_entries (snd sm) cls = sh_counts (fst sm') cls - sh_counts (fst sm) cls) \<and>
     (\<forall>cls. shard_capacity (fst sm') cls = shard_capacity (fst sm) cls) \<and>
     m_pending (snd sm') = m_pending (snd sm)"

lemma balanced_refl [simp]: "balanced sm sm"
  by (simp add: balanced_def)

lemma balanced_trans: "balanced a b \<Longrightarrow> balanced b c \<Longrightarrow> balanced a c"
  unfolding balanced_def by (metis (no_types, lifting) diff_add_cancel add_diff_eq diff_diff_eq2)

text \<open>A step that only removes entries.\<close>

definition removes :: "'e cacheShard \<times> dns_metrics \<Rightarrow> 'e cacheShard \<times> dns_metrics \<Rightarrow> bool" where
  "removes sm sm' \<longleftrightarrow> (shard_inv (fst sm) \<longrightarrow>
     shard_inv (fst sm') \<and> balanced sm sm' \<and> set (sh_entries (fst sm')) \<subseteq> set (sh_entries (fst sm)) \<and>
     (\<forall>cls. sh_counts (fst sm') cls \<le> sh_counts (fst sm) cls))"

lemma removes_refl [simp]: "removes sm sm"
  by (simp add: removes_def)

lemma removes_trans: "removes a b \<Longrightarrow> removes b c \<Longrightarrow> removes a c"
  unfolding removes_def by (meson balanced_trans order_trans subset_trans)

lemma class_count_delete:
  "distinct (map fst es) \<Longrightarrow> map_of es k = Some e \<Longrightarrow>
   class_count cls (AList.delete k es) = class_count cls es - (if entry_class_of e = cls then 1 else 0)"
proof (induction es)
  case (Cons x es)
  obtain k' e' where x: "x = (k', e')" by (cases x)
  show ?case
  proof (cases "k' = k")
    case True
    then have "AList.delete k es = es"
      using Cons.prems(1) by (intro delete_id) (simp add: x)
    with True Cons.prems show ?thesis by (auto simp: x class_count_def)
  next
    case False
    with Cons show ?thesis by (auto simp: x class_count_def)
  qed
qed simp

lemma set_delete_subset: "set (AList.delete k es) \<subseteq> set es"
  by (auto simp: AList.delete_eq)

lemma deleteLocked_removes:
  assumes "map_of (sh_entries (fst sm)) k = Some e"
  shows "removes sm (deleteLocked k e sm)"
    and "sh_counts (fst (deleteLocked k e sm)) (entry_class_of e) = sh_counts (fst sm) (entry_class_of e) - 1"
    and "map_of (sh_entries (fst (deleteLocked k e sm))) k = None"
proof -
  obtain s m where sm: "sm = (s, m)" by (cases sm)
  have c: "shard_capacity (s\<lparr>sh_entries := a, sh_counts := b\<rparr>) cls = shard_capacity s cls" for a b cls
    by (cases cls) simp_all
  show "removes sm (deleteLocked k e sm)"
    using assms set_delete_subset [of k "sh_entries s"]
    by (auto simp: sm removes_def shard_inv_def balanced_def Let_def class_count_delete c distinct_delete)
  show "sh_counts (fst (deleteLocked k e sm)) (entry_class_of e) = sh_counts (fst sm) (entry_class_of e) - 1"
    by (simp add: sm Let_def)
  show "map_of (sh_entries (fst (deleteLocked k e sm))) k = None"
    by (simp add: sm Let_def delete_conv)
qed

lemma sweep_loop_removes: "removes sm (sweep_loop now limit ks sm)"
proof (induction now limit ks sm rule: sweep_loop.induct)
  case (3 now limit k ks sm)
  let ?sm = "case map_of (sh_entries (fst sm)) k of None \<Rightarrow> sm
     | Some entry \<Rightarrow> if res_ExpiresAt (ce_result entry) \<le> now \<and> ce_staleUntil entry \<le> now
         then deleteLocked k entry sm else sm"
  have "removes sm ?sm"
    by (cases "map_of (sh_entries (fst sm)) k") (simp_all add: deleteLocked_removes(1))
  then show ?case using 3 removes_trans by simp
qed simp_all

lemma class_count_pos:
  assumes "0 < class_count cls es" "distinct (map fst es)"
  shows "\<exists>k e. (k, e) \<in> set es \<and> map_of es k = Some e \<and> entry_class_of e = cls"
proof -
  have "filter (\<lambda>(k, e). entry_class_of e = cls) es \<noteq> []"
    using assms(1) by (auto simp: class_count_def)
  then obtain k e where "(k, e) \<in> set es" "entry_class_of e = cls"
    by (auto simp: filter_empty_conv)
  with assms(2) show ?thesis by (metis map_of_is_SomeI)
qed

lemma evict_removes: "removes sm (evict rng cls sm)"
proof (cases "find (\<lambda>k. case map_of (sh_entries (fst sm)) k of None \<Rightarrow> False | Some v \<Rightarrow> entry_class_of v = cls)
     (rng (map fst (sh_entries (fst sm))))")
  case (Some k)
  then obtain v where v: "map_of (sh_entries (fst sm)) k = Some v"
    by (auto simp: find_Some_iff split: option.splits)
  obtain s m where d: "deleteLocked k v sm = (s, m)" by fastforce
  have "removes sm (s, m)" using deleteLocked_removes(1) [OF v] by (simp add: d)
  then show ?thesis using Some v d by (simp add: evict_def removes_def balanced_def)
qed (simp add: evict_def)

lemma evict_makes_room:
  assumes "shard_inv (fst sm)" "visits rng" "0 < sh_counts (fst sm) cls"
  shows "sh_counts (fst (evict rng cls sm)) cls = sh_counts (fst sm) cls - 1"
proof -
  let ?es = "sh_entries (fst sm)"
  let ?P = "\<lambda>k. case map_of ?es k of None \<Rightarrow> False | Some v \<Rightarrow> entry_class_of v = cls"
  have "0 < class_count cls ?es" "distinct (map fst ?es)" using assms by (simp_all add: shard_inv_def)
  then obtain k e where ke: "(k, e) \<in> set ?es" "map_of ?es k = Some e" "entry_class_of e = cls"
    using class_count_pos [of cls ?es] by blast
  have "k \<in> set (rng (map fst ?es))"
    unfolding visits_set [OF assms(2)] using ke(1) by (auto intro: rev_image_eqI)
  then have "find ?P (rng (map fst ?es)) \<noteq> None"
    using ke by (auto simp: find_None_iff)
  then obtain k' where k': "find ?P (rng (map fst ?es)) = Some k'" by auto
  then obtain v where v: "map_of ?es k' = Some v" "entry_class_of v = cls"
    by (auto simp: find_Some_iff split: option.splits)
  obtain s m where d: "deleteLocked k' v sm = (s, m)" by fastforce
  have "sh_counts s cls = sh_counts (fst sm) cls - 1"
    using deleteLocked_removes(2) [OF v(1)] v(2) by (simp add: d)
  then show ?thesis using k' v d by (simp add: evict_def)
qed

definition shard_ok :: "'e cacheShard \<Rightarrow> bool" where
  "shard_ok s \<longleftrightarrow> shard_inv s \<and> (\<forall>cls. sh_counts s cls \<le> shard_capacity s cls \<and> 0 < shard_capacity s cls)"

definition shard_all :: "('e cacheEntry \<Rightarrow> bool) \<Rightarrow> 'e cacheShard \<Rightarrow> bool" where
  "shard_all P s \<longleftrightarrow> (\<forall>(k, e)\<in>set (sh_entries s). P e)"

lemma removes_keeps:
  assumes "removes sm sm'" "shard_ok (fst sm)" "shard_all P (fst sm)"
  shows "shard_ok (fst sm') \<and> shard_all P (fst sm') \<and> balanced sm sm'"
proof -
  have r: "shard_inv (fst sm')" "balanced sm sm'" "set (sh_entries (fst sm')) \<subseteq> set (sh_entries (fst sm))"
    "\<forall>cls. sh_counts (fst sm') cls \<le> sh_counts (fst sm) cls"
    using assms(1,2) by (simp_all add: removes_def shard_ok_def)
  have "sh_counts (fst sm') cls \<le> shard_capacity (fst sm') cls \<and> 0 < shard_capacity (fst sm') cls" for cls
    using assms(2) r(2,4) unfolding shard_ok_def balanced_def by (metis order.trans)
  then show ?thesis using r assms(3) by (auto simp: shard_ok_def shard_all_def)
qed

lemma update_new: "map_of es k = None \<Longrightarrow> AList.update k v es = es @ [(k, v)]"
  by (induction es) (auto split: if_splits)

lemma put_entry_keeps:
  assumes "map_of (sh_entries (fst sm)) k = None" "shard_ok (fst sm)" "shard_all P (fst sm)" "P entry"
    and "sh_counts (fst sm) (entry_class_of entry) < shard_capacity (fst sm) (entry_class_of entry)"
  shows "shard_ok (fst (put_entry k entry sm)) \<and> shard_all P (fst (put_entry k entry sm)) \<and> balanced sm (put_entry k entry sm)"
proof -
  obtain s m where sm: "sm = (s, m)" by (cases sm)
  have c: "shard_capacity (s\<lparr>sh_entries := a, sh_counts := b\<rparr>) cls = shard_capacity s cls" for a b cls
    by (cases cls) simp_all
  have k: "k \<notin> fst ` set (sh_entries s)" using assms(1) by (simp add: sm map_of_eq_None_iff)
  have "shard_inv (s\<lparr>sh_entries := sh_entries s @ [(k, entry)],
      sh_counts := (sh_counts s)(entry_class_of entry := sh_counts s (entry_class_of entry) + 1)\<rparr>)"
    using assms(2) k by (auto simp: sm shard_ok_def shard_inv_def class_count_def)
  with assms show ?thesis
    by (auto simp: sm Let_def update_new shard_ok_def shard_all_def balanced_def c)
qed

lemma map_of_subset_None:
  "set es' \<subseteq> set es \<Longrightarrow> map_of es k = None \<Longrightarrow> map_of es' k = None"
  unfolding map_of_eq_None_iff by blast

lemma insert_locked_keeps:
  assumes "shard_ok (fst sm)" "shard_all P (fst sm)" "P entry" "visits rng'"
  shows "shard_ok (fst (insert_locked rng rng' k entry now sm)) \<and>
         shard_all P (fst (insert_locked rng rng' k entry now sm)) \<and>
         balanced sm (insert_locked rng rng' k entry now sm)"
proof -
  define sm1 where "sm1 = sweepLocked rng now 4 sm"
  define sm2 where "sm2 = (case map_of (sh_entries (fst sm1)) k of None \<Rightarrow> sm1 | Some previous \<Rightarrow> deleteLocked k previous sm1)"
  define cls where "cls = entry_class_of entry"
  define sm3 where "sm3 = (if shard_capacity (fst sm2) cls \<le> sh_counts (fst sm2) cls then evict rng' cls sm2 else sm2)"
  have r1: "removes sm sm1" by (simp add: sm1_def sweepLocked_def sweep_loop_removes)
  have r2: "removes sm1 sm2" "map_of (sh_entries (fst sm2)) k = None"
    unfolding sm2_def by (cases "map_of (sh_entries (fst sm1)) k"; simp add: deleteLocked_removes del: deleteLocked.simps)+
  have k2: "shard_ok (fst sm2)" "shard_all P (fst sm2)"
    using removes_keeps [OF removes_trans [OF r1 r2(1)] assms(1,2)] by simp_all
  have r3: "removes sm2 sm3" by (simp add: sm3_def evict_removes)
  have n3: "map_of (sh_entries (fst sm3)) k = None"
    using r3 k2(1) map_of_subset_None [OF _ r2(2)] by (auto simp: removes_def shard_ok_def)
  have k3: "shard_ok (fst sm3)" "shard_all P (fst sm3)" "balanced sm2 sm3"
    using removes_keeps [OF r3 k2] by simp_all
  have room: "sh_counts (fst sm3) cls < shard_capacity (fst sm3) cls"
  proof (cases "shard_capacity (fst sm2) cls \<le> sh_counts (fst sm2) cls")
    case True
    have "0 < shard_capacity (fst sm2) cls" "sh_counts (fst sm2) cls \<le> shard_capacity (fst sm2) cls"
      using k2(1) by (simp_all add: shard_ok_def)
    moreover have "sh_counts (fst sm3) cls = sh_counts (fst sm2) cls - 1"
      using evict_makes_room [OF _ assms(4), of sm2 cls] k2(1) True calculation by (simp add: sm3_def shard_ok_def)
    moreover have "shard_capacity (fst sm3) cls = shard_capacity (fst sm2) cls"
      using k3(3) by (simp add: balanced_def)
    ultimately show ?thesis by linarith
  qed (simp add: sm3_def)
  have p: "shard_ok (fst (put_entry k entry sm3)) \<and> shard_all P (fst (put_entry k entry sm3)) \<and> balanced sm3 (put_entry k entry sm3)"
    using put_entry_keeps [OF n3 k3(1,2) assms(3)] room by (simp add: cls_def)
  have "insert_locked rng rng' k entry now sm = put_entry k entry sm3"
    unfolding insert_locked_def Let_def sm3_def sm2_def sm1_def cls_def by (rule refl)
  moreover have "balanced sm sm3"
    using removes_keeps [OF removes_trans [OF removes_trans [OF r1 r2(1)] r3] assms(1,2)] by simp
  ultimately show ?thesis using p balanced_trans by metis
qed

section \<open>The accounting of the cache\<close>

definition class_total :: "entry_class \<Rightarrow> 'e Cache \<Rightarrow> int" where
  "class_total cls c = sum_list (map (\<lambda>s. class_count cls (sh_entries s)) (c_shards c))"

definition cache_ok :: "('e cacheEntry \<Rightarrow> bool) \<Rightarrow> 'e Cache \<Rightarrow> bool" where
  "cache_ok P c \<longleftrightarrow> c_shards c \<noteq> [] \<and> (\<forall>s\<in>set (c_shards c). shard_ok s \<and> shard_all P s) \<and>
     (\<forall>cls. m_entries (c_metrics c) cls = sum_list (map (\<lambda>s. sh_counts s cls) (c_shards c)))"

definition total_capacity :: "entry_class \<Rightarrow> 'e Cache \<Rightarrow> int" where
  "total_capacity cls c = sum_list (map (\<lambda>s. shard_capacity s cls) (c_shards c))"

lemma sum_list_map_update:
  fixes g :: "'a \<Rightarrow> int"
  assumes "i < length xs"
  shows "sum_list (map g (xs[i := y])) = sum_list (map g xs) - g (xs ! i) + g y"
  using assms by (induction xs arbitrary: i) (auto split: nat.splits simp: less_Suc_eq_0_disj)

lemma shardFor_less: "c_shards c \<noteq> [] \<Longrightarrow> shardFor c k < length (c_shards c)"
  by (simp add: shardFor_def)

text \<open>What an operation on one shard leaves of the rest.\<close>

definition same_flights :: "'e Cache \<Rightarrow> 'e Cache \<Rightarrow> bool" where
  "same_flights c c' \<longleftrightarrow> c_policy c' = c_policy c \<and> c_flights c' = c_flights c \<and>
     c_pendingByEgress c' = c_pendingByEgress c \<and> c_heap c' = c_heap c \<and>
     m_pending (c_metrics c') = m_pending (c_metrics c) \<and> (\<forall>cls. total_capacity cls c' = total_capacity cls c)"

lemma same_flights_refl [simp]: "same_flights c c"
  by (simp add: same_flights_def)

lemma same_flights_trans: "same_flights a b \<Longrightarrow> same_flights b c \<Longrightarrow> same_flights a c"
  by (simp add: same_flights_def)

lemma on_shard_keeps:
  assumes c: "cache_ok P c"
    and f: "\<And>s m. s = c_shards c ! shardFor c k \<Longrightarrow> shard_ok s \<Longrightarrow> shard_all P s \<Longrightarrow>
       shard_ok (fst (f (s, m))) \<and> shard_all P (fst (f (s, m))) \<and> balanced (s, m) (f (s, m))"
  shows "cache_ok P (on_shard k f c) \<and> same_flights c (on_shard k f c)"
proof -
  let ?i = "shardFor c k"
  let ?s = "c_shards c ! ?i"
  have i: "?i < length (c_shards c)" using c by (simp add: cache_ok_def shardFor_less)
  obtain s m where sm: "f (?s, c_metrics c) = (s, m)" by fastforce
  have old: "shard_ok ?s" "shard_all P ?s" using c i by (simp_all add: cache_ok_def)
  have new: "shard_ok s" "shard_all P s" "balanced (?s, c_metrics c) (s, m)"
    using f [OF refl old, of "c_metrics c"] by (simp_all add: sm)
  have o: "on_shard k f c = c\<lparr>c_shards := (c_shards c)[?i := s], c_metrics := m\<rparr>"
    by (simp add: on_shard_def Let_def sm)
  have bal: "m_entries m cls = m_entries (c_metrics c) cls - sh_counts ?s cls + sh_counts s cls"
    "shard_capacity s cls = shard_capacity ?s cls" for cls
    using new(3) unfolding balanced_def by (simp_all add: algebra_simps)
  have "cache_ok P (on_shard k f c)"
    using c new(1,2) i unfolding o cache_ok_def
    by (auto simp: sum_list_map_update bal(1) dest!: set_update_subset_insert [THEN subsetD])
  moreover have "same_flights c (on_shard k f c)"
    using i new(3) unfolding o same_flights_def total_capacity_def by (simp add: sum_list_map_update bal(2) balanced_def)
  ultimately show ?thesis ..
qed

section \<open>Entries\<close>

definition stale_ok :: "dns_Policy \<Rightarrow> dns_Result \<Rightarrow> gotime \<Rightarrow> bool" where
  "stale_ok p r until \<longleftrightarrow>
     res_Addrs r \<noteq> [] \<longrightarrow> res_RCode r = RCodeSuccess \<and> until = res_ExpiresAt r + StaleWindow p"

definition answer_ok :: "dns_Result \<Rightarrow> 'e dns_error option \<Rightarrow> bool" where
  "answer_ok r err \<longleftrightarrow>
     res_RCode r \<noteq> RCodeInvalid \<and> (res_RCode r = RCodeTransient \<longleftrightarrow> err \<noteq> None) \<and>
     (res_RCode r = RCodeSuccess \<longleftrightarrow> res_Addrs r \<noteq> [])"

definition entry_ok :: "dns_Policy \<Rightarrow> 'e cacheEntry \<Rightarrow> bool" where
  "entry_ok p e \<longleftrightarrow>
     answer_ok (ce_result e) (ce_err e) \<and>
     stale_ok p (ce_result e) (ce_staleUntil e) \<and> stale_ok p (ce_stale e) (ce_staleUntil e)"

lemma zero_Result_simps [simp]: "res_Addrs zero_Result = []" "res_RCode zero_Result = RCodeSuccess"
  by (simp_all add: zero_Result_def)

lemma normalizeResult_ok: "normalizeResult p answer now = (r, err) \<Longrightarrow> answer_ok r err"
  by (auto simp: normalizeResult_def transient_Result_def answer_ok_def Let_def
      split: sum.splits RCode.splits if_splits)

lemma flight_entry_ok:
  assumes "answer_ok result err" "stale_ok (c_policy c) (r_stale r) (r_staleUntil r)"
  shows "entry_ok (c_policy c) (flight_entry c r result err now)"
  using assms by (auto simp: flight_entry_def entry_ok_def stale_ok_def answer_ok_def zero_entry_def Let_def)

lemma entry_at_ok:
  assumes "cache_ok P c" "entry_at c k = Some e"
  shows "P e"
proof -
  have "c_shards c ! shardFor c k \<in> set (c_shards c)"
    using assms(1) by (simp add: cache_ok_def shardFor_less)
  then have "shard_all P (c_shards c ! shardFor c k)" using assms(1) by (simp add: cache_ok_def)
  then show ?thesis using map_of_SomeD [OF assms(2) [unfolded entry_at_def]] by (auto simp: shard_all_def)
qed

lemma delete_on_shard_keeps:
  assumes "cache_ok P c" "entry_at c k = Some e"
  shows "cache_ok P (on_shard k (deleteLocked k e) c) \<and> same_flights c (on_shard k (deleteLocked k e) c)"
proof (rule on_shard_keeps [OF assms(1)])
  fix s m assume s: "s = c_shards c ! shardFor c k" "shard_ok s" "shard_all P s"
  have "removes (s, m) (deleteLocked k e (s, m))"
    using assms(2) s(1) by (intro deleteLocked_removes(1)) (simp add: entry_at_def)
  from removes_keeps [OF this, of P] s(2,3)
  show "shard_ok (fst (deleteLocked k e (s, m))) \<and> shard_all P (fst (deleteLocked k e (s, m))) \<and>
      balanced (s, m) (deleteLocked k e (s, m))" by (simp del: deleteLocked.simps)
qed

lemma takeEntry_keeps:
  assumes "cache_ok P c" "takeEntry k now c = ((e, found), c')"
  shows "cache_ok P c'" "same_flights c c'" "e = zero_entry \<and> \<not> found \<or> P e"
    "found \<Longrightarrow> now < res_ExpiresAt (ce_result e)"
  using assms delete_on_shard_keeps [OF assms(1)] entry_at_ok [OF assms(1)]
  by (auto simp: takeEntry_def split: option.splits if_splits)

lemma cache_insert_keeps:
  assumes "cache_ok P c" "P entry" "visits rng'"
  shows "cache_ok P (cache_insert rng rng' k entry now c) \<and> same_flights c (cache_insert rng rng' k entry now c)"
  unfolding cache_insert_def
  using assms by (intro on_shard_keeps) (simp_all add: insert_locked_keeps)

text \<open>Changes of the other counters touch neither the accounting nor the flights.\<close>

lemma metrics_keep:
  assumes "\<forall>cls. m_entries m cls = m_entries (c_metrics c) cls"
  shows "cache_ok P (c\<lparr>c_metrics := m\<rparr>) = cache_ok P c"
  using assms by (simp add: cache_ok_def)

lemma cache_ok_other:
  "cache_ok P (c\<lparr>c_heap := h\<rparr>) = cache_ok P c" "cache_ok P (c\<lparr>c_flights := f\<rparr>) = cache_ok P c"
  "cache_ok P (c\<lparr>c_pendingByEgress := g\<rparr>) = cache_ok P c"
  by (simp_all add: cache_ok_def)

lemma count_in_keeps [simp]:
  "cache_ok P (count_in kind c) = cache_ok P c" "same_flights c (count_in kind c)"
  "c_policy (count_in kind c) = c_policy c" "c_heap (count_in kind c) = c_heap c"
  "c_flights (count_in kind c) = c_flights c" "pending_of (count_in kind c) = pending_of c"
  "m_pending (c_metrics (count_in kind c)) = m_pending (c_metrics c)"
  "total_capacity cls (count_in kind c) = total_capacity cls c"
  by (simp_all add: count_in_def count_request_def cache_ok_def same_flights_def total_capacity_def pending_of_def fun_eq_iff)

lemma Invalidate_keeps:
  assumes "cache_ok P c"
  shows "cache_ok P (Invalidate query c) \<and> same_flights c (Invalidate query c)"
proof (cases "makeKey query :: 'a dns_error + dns_key")
  case (Inr k)
  show ?thesis
  proof (cases "entry_at c k")
    case (Some e)
    from delete_on_shard_keeps [OF assms Some] show ?thesis
      using Inr Some
      by (auto simp: Invalidate_def Let_def metrics_keep same_flights_def total_capacity_def simp del: deleteLocked.simps)
  qed (use assms Inr in \<open>simp add: Invalidate_def\<close>)
qed (use assms in \<open>simp add: Invalidate_def\<close>)

section \<open>The accounting of the flights\<close>

definition egress_count :: "string \<Rightarrow> running list \<Rightarrow> int" where
  "egress_count e rs = int (length (filter (\<lambda>r. k_egress (r_key r) = e) rs))"

text \<open>
  Every flight of the table belongs to one goroutine and the other way round; the counters are
  those of the goroutines; and a flight that is not done has a goroutine that will finish it.
\<close>

definition table_inv :: "'e Cache \<Rightarrow> running list \<Rightarrow> bool" where
  "table_inv c rs \<longleftrightarrow>
     distinct (map r_key rs) \<and> distinct (map r_flight rs) \<and>
     (\<forall>k f. c_flights c k = Some f \<longleftrightarrow> (k, f) \<in> (\<lambda>r. (r_key r, r_flight r)) ` set rs)"

definition pending_inv :: "'e Cache \<Rightarrow> running list \<Rightarrow> bool" where
  "pending_inv c rs \<longleftrightarrow>
     (\<forall>e. pending_of c e = egress_count e rs \<and> egress_count e rs \<le> MaxPending (c_policy c)) \<and>
     m_pending (c_metrics c) = int (length rs)"

definition heap_inv :: "'e Cache \<Rightarrow> running list \<Rightarrow> bool" where
  "heap_inv c rs \<longleftrightarrow>
     (\<forall>f. f \<in> r_flight ` set rs \<longleftrightarrow> f < length (c_heap c) \<and> \<not> fl_done (c_heap c ! f)) \<and>
     (\<forall>f\<in>set (c_heap c). res_Addrs (fl_stale f) \<noteq> [] \<longrightarrow> res_RCode (fl_stale f) = RCodeSuccess) \<and>
     (\<forall>r\<in>set rs. stale_ok (c_policy c) (r_stale r) (r_staleUntil r))"

definition flights_inv :: "'e Cache \<Rightarrow> running list \<Rightarrow> bool" where
  "flights_inv c rs \<longleftrightarrow> table_inv c rs \<and> pending_inv c rs \<and> heap_inv c rs"

lemma same_flights_inv: "same_flights c c' \<Longrightarrow> flights_inv c' rs = flights_inv c rs"
  by (simp add: flights_inv_def table_inv_def pending_inv_def heap_inv_def same_flights_def pending_of_def)

lemma stale_not_empty: "stale_ok p stale until \<Longrightarrow> res_Addrs stale \<noteq> [] \<Longrightarrow> res_RCode stale = RCodeSuccess"
  by (simp add: stale_ok_def)

lemma flights_inv_cached:
  assumes "flights_inv c rs"
  shows "flights_inv (c\<lparr>c_heap := c_heap c @ [cached_flight c entry now]\<rparr>) rs"
proof -
  have f: "fl_done (cached_flight c entry now)" "res_Addrs (fl_stale (cached_flight c entry now)) = []"
    by (simp_all add: cached_flight_def Let_def)
  have "heap_inv (c\<lparr>c_heap := c_heap c @ [cached_flight c entry now]\<rparr>) rs"
    using assms f by (auto simp: flights_inv_def heap_inv_def nth_append less_Suc_eq)
  with assms show ?thesis
    by (simp add: flights_inv_def table_inv_def pending_inv_def pending_of_def)
qed

definition opened :: "dns_key \<Rightarrow> Query \<Rightarrow> dns_Result \<Rightarrow> gotime \<Rightarrow> bool \<Rightarrow> 'e Cache \<Rightarrow> running \<times> 'e Cache" where
  "opened k query stale staleUntil serveStale c =
     (\<lparr>r_key = k, r_query = query, r_stale = stale, r_staleUntil = staleUntil, r_flight = length (c_heap c), r_inserted = False\<rparr>,
      c\<lparr>c_heap := c_heap c @ [\<lparr>fl_done = False, fl_result = zero_Result, fl_err = None, fl_stale = stale, fl_serveStale = serveStale\<rparr>],
        c_flights := (c_flights c)(k \<mapsto> length (c_heap c)),
        c_pendingByEgress := (c_pendingByEgress c)(k_egress k \<mapsto> pending_of c (k_egress k) + 1),
        c_metrics := (c_metrics c)\<lparr>m_pending := m_pending (c_metrics c) + 1\<rparr>\<rparr>)"

lemma flights_inv_opened:
  assumes inv: "flights_inv c rs" and new: "c_flights c k = None"
    and room: "pending_of c (k_egress k) < MaxPending (c_policy c)" and stale: "stale_ok (c_policy c) stale staleUntil"
    and o: "opened k query stale staleUntil serveStale c = (r, c')"
  shows "flights_inv c' (rs @ [r])"
proof -
  have r: "r_key r = k" "r_flight r = length (c_heap c)" "r_stale r = stale" "r_staleUntil r = staleUntil"
    and c': "c_policy c' = c_policy c" "c_flights c' = (c_flights c)(k \<mapsto> length (c_heap c))"
      "m_pending (c_metrics c') = m_pending (c_metrics c) + 1"
      "c_heap c' = c_heap c @ [\<lparr>fl_done = False, fl_result = zero_Result, fl_err = None, fl_stale = stale, fl_serveStale = serveStale\<rparr>]"
      "pending_of c' e = (if e = k_egress k then pending_of c e + 1 else pending_of c e)" for e
    using o by (auto simp: opened_def pending_of_def)
  have h: "heap_inv c rs" and t: "table_inv c rs" and p: "pending_inv c rs" using inv by (simp_all add: flights_inv_def)
  have fresh: "length (c_heap c) \<notin> r_flight ` set rs" using h by (auto simp: heap_inv_def)
  have "k \<notin> r_key ` set rs" using t new by (force simp: table_inv_def)
  then have "table_inv c' (rs @ [r])"
    using t fresh unfolding table_inv_def c' by (auto simp: r)
  moreover have "pending_inv c' (rs @ [r])"
    using p room unfolding pending_inv_def c' by (auto simp: r egress_count_def)
  moreover have "heap_inv c' (rs @ [r])"
    using h stale stale_not_empty [OF stale] unfolding heap_inv_def c'
    by (auto simp: r nth_append less_Suc_eq)
  ultimately show ?thesis by (simp add: flights_inv_def)
qed

lemma startFlight_keeps:
  assumes inv: "flights_inv c rs" "cache_ok P c" "stale_ok (c_policy c) stale staleUntil"
    and s: "startFlight k query stale staleUntil serveStale now now' c = (res, g, c')"
  shows "flights_inv c' (rs @ (case g of None \<Rightarrow> [] | Some r \<Rightarrow> [r])) \<and> cache_ok P c' \<and> c_policy c' = c_policy c \<and>
    length (c_heap c) \<le> length (c_heap c') \<and> (\<forall>cls. total_capacity cls c' = total_capacity cls c) \<and>
    (\<forall>f. res = Inr f \<longrightarrow> f < length (c_heap c'))"
proof (cases "c_flights c k")
  case (Some f)
  then have "f \<in> r_flight ` set rs" using inv(1) by (force simp: flights_inv_def table_inv_def)
  then have "f < length (c_heap c)" using inv(1) by (simp add: flights_inv_def heap_inv_def)
  with Some s inv show ?thesis by (auto simp: startFlight_def)
next
  case None
  show ?thesis
  proof (cases "peekFresh k now c")
    case (Some entry)
    with None s inv show ?thesis
      by (auto simp: startFlight_def flights_inv_cached cache_ok_other total_capacity_def)
  next
    case peek: None
    show ?thesis
    proof (cases "MaxPending (c_policy c) \<le> pending_of c (k_egress k)")
      case True
      with None peek s have c': "res = Inl ErrPendingLimit" "g = None"
        "c' = c\<lparr>c_metrics := count_request requestRejected ((c_metrics c)\<lparr>m_rejected := m_rejected (c_metrics c) + 1\<rparr>)\<rparr>"
        by (auto simp: startFlight_def)
      have "same_flights c c'" by (simp add: c'(3) same_flights_def count_request_def total_capacity_def)
      then show ?thesis
        using inv same_flights_inv [of c c' rs] by (auto simp: c' same_flights_def cache_ok_def count_request_def)
    next
      case False
      obtain r c1 where o: "opened k query stale staleUntil serveStale c = (r, c1)" by fastforce
      then have "res = Inr (length (c_heap c))" "g = Some r" "c' = c1"
        using None peek False s by (auto simp: startFlight_def opened_def Let_def)
      with flights_inv_opened [OF inv(1) None _ inv(3) o] False inv(2) o show ?thesis
        by (auto simp: opened_def cache_ok_def total_capacity_def)
    qed
  qed
qed

lemma remove_at_split: "j < length xs \<Longrightarrow> xs = take j xs @ xs ! j # drop (Suc j) xs"
  by (rule id_take_nth_drop)

text \<open>The phase of a goroutine is not part of the accounting.\<close>

definition unphased :: "running \<Rightarrow> running" where
  "unphased r = r\<lparr>r_inserted := False\<rparr>"

lemma unphased_simps [simp]:
  "r_key (unphased r) = r_key r" "r_flight (unphased r) = r_flight r" "r_stale (unphased r) = r_stale r"
  "r_staleUntil (unphased r) = r_staleUntil r"
  by (simp_all add: unphased_def)

lemma flights_inv_unphased: "flights_inv c (map unphased rs) = flights_inv c rs"
  by (simp add: flights_inv_def table_inv_def pending_inv_def heap_inv_def egress_count_def comp_def filter_map image_image)

lemma flights_inv_phase: "flights_inv c (rs[j := (rs ! j)\<lparr>r_inserted := b\<rparr>]) = flights_inv c rs"
proof (cases "j < length rs")
  case True
  have "map unphased (rs[j := (rs ! j)\<lparr>r_inserted := b\<rparr>]) = map unphased rs"
    using True by (simp add: map_update unphased_def) (metis list_update_id map_update unphased_def)
  then show ?thesis by (metis flights_inv_unphased)
qed (simp add: list_update_beyond)

lemma flights_inv_filled:
  assumes "flights_inv c rs" "f < length (c_heap c)"
    and "fl_done fl = fl_done (c_heap c ! f)" "fl_stale fl = fl_stale (c_heap c ! f)"
  shows "flights_inv (c\<lparr>c_heap := (c_heap c)[f := fl]\<rparr>) rs"
proof -
  have "heap_inv (c\<lparr>c_heap := (c_heap c)[f := fl]\<rparr>) rs"
    using assms unfolding heap_inv_def flights_inv_def
    by (auto simp: nth_list_update dest!: set_update_subset_insert [THEN subsetD])
  with assms(1) show ?thesis by (simp add: flights_inv_def table_inv_def pending_inv_def pending_of_def)
qed

lemma flight_insert_keeps:
  assumes inv: "flights_inv c rs" "cache_ok (entry_ok (c_policy c)) c" and r: "r \<in> set rs" and rng: "visits rng'"
    and c': "c' = flight_insert rng rng' outcome elapsed now r c"
  shows "flights_inv c' rs \<and> cache_ok (entry_ok (c_policy c)) c' \<and> c_policy c' = c_policy c \<and>
    length (c_heap c') = length (c_heap c) \<and> (\<forall>cls. total_capacity cls c' = total_capacity cls c)"
proof -
  obtain result err where n: "normalizeResult (c_policy c) (callResolver outcome) now = (result, err)" by fastforce
  define c1 where "c1 = c\<lparr>c_metrics := recordResolution (res_RCode result) (q_Egress (r_query r)) elapsed (c_metrics c)\<rparr>"
  define entry where "entry = flight_entry c r result err now"
  define c2 where "c2 = cache_insert rng rng' (r_key r) entry now c1"
  have c1: "same_flights c c1" "cache_ok (entry_ok (c_policy c)) c1"
    using inv(2) by (simp_all add: c1_def same_flights_def recordResolution_def Let_def total_capacity_def cache_ok_def)
  have "stale_ok (c_policy c) (r_stale r) (r_staleUntil r)" using inv(1) r by (simp add: flights_inv_def heap_inv_def)
  then have "entry_ok (c_policy c) entry"
    unfolding entry_def using normalizeResult_ok [OF n] by (intro flight_entry_ok)
  then have c2: "cache_ok (entry_ok (c_policy c)) c2" "same_flights c c2"
    using cache_insert_keeps [OF c1(2) _ rng] c1(1) same_flights_trans by (simp_all add: c2_def) blast
  have f: "r_flight r < length (c_heap c2)"
    using inv(1) r c2(2) by (auto simp: flights_inv_def heap_inv_def same_flights_def)
  define serve where "serve = (res_RCode result = RCodeTransient \<and> canServeStale c2 entry now)"
  define fl where "fl = (c_heap c2 ! r_flight r)\<lparr>fl_result := (if serve then ce_stale entry else result),
      fl_err := (if serve then None else err)\<rparr>"
  define c3 where "c3 = c2\<lparr>c_heap := (c_heap c2)[r_flight r := fl]\<rparr>"
  have "flights_inv c3 rs"
    unfolding c3_def using same_flights_inv [OF c2(2)] inv(1) f by (intro flights_inv_filled) (simp_all add: fl_def)
  moreover have "cache_ok (entry_ok (c_policy c)) c3" "c_policy c3 = c_policy c" "length (c_heap c3) = length (c_heap c)"
    "\<forall>cls. total_capacity cls c3 = total_capacity cls c"
    using c2 by (simp_all add: c3_def cache_ok_other same_flights_def total_capacity_def)
  moreover have "c' = (if serve then count_in requestStale c3 else c3)"
    unfolding c' flight_insert_def n Let_def c3_def fl_def serve_def c2_def entry_def c1_def by simp
  ultimately show ?thesis
    using same_flights_inv [OF count_in_keeps(2), of requestStale c3 rs] by simp
qed

lemma flight_finish_keeps:
  assumes inv: "flights_inv c rs" "cache_ok P c" and j: "j < length rs"
  shows "flights_inv (flight_finish (rs ! j) c) (remove_at j rs) \<and> cache_ok P (flight_finish (rs ! j) c) \<and>
    c_policy (flight_finish (rs ! j) c) = c_policy c \<and> length (c_heap (flight_finish (rs ! j) c)) = length (c_heap c) \<and>
    (\<forall>cls. total_capacity cls (flight_finish (rs ! j) c) = total_capacity cls c)"
proof -
  define xs r ys where "xs = take j rs" and "r = rs ! j" and "ys = drop (Suc j) rs"
  have rs: "rs = xs @ r # ys" using remove_at_split [OF j] by (simp add: xs_def r_def ys_def)
  have rem: "remove_at j rs = xs @ ys" by (simp add: remove_at_def xs_def ys_def)
  let ?c = "flight_finish r c" and ?e = "k_egress (r_key r)"
  have t: "table_inv c rs" and p: "pending_inv c rs" and h: "heap_inv c rs" using inv(1) by (simp_all add: flights_inv_def)
  have f: "r_flight r < length (c_heap c)" using h by (auto simp: heap_inv_def rs)
  have flights: "c_flights ?c = (c_flights c)(r_key r := None)" by (simp add: flight_finish_def Let_def)
  have "table_inv ?c (xs @ ys)"
    using t unfolding table_inv_def flights rs by (auto simp: image_iff)
  moreover have "pending_inv ?c (xs @ ys)"
  proof -
    have cnt: "egress_count e rs = egress_count e (xs @ ys) + (if e = ?e then 1 else 0)" for e
      by (simp add: rs egress_count_def)
    have nonneg: "0 \<le> egress_count e (xs @ ys)" for e by (simp add: egress_count_def)
    have "pending_of ?c e = egress_count e (xs @ ys)" for e
      using p cnt [of e] nonneg [of e] unfolding pending_inv_def
      by (auto simp: flight_finish_def Let_def pending_of_def split: option.splits if_splits)
    moreover have "egress_count e (xs @ ys) \<le> MaxPending (c_policy c)" for e
      using p cnt [of e] unfolding pending_inv_def by (smt (verit))
    moreover have "c_policy ?c = c_policy c" "m_pending (c_metrics ?c) = int (length (xs @ ys))"
      using p by (simp_all add: pending_inv_def flight_finish_def Let_def rs)
    ultimately show ?thesis by (simp only: pending_inv_def simp_thms)
  qed
  moreover have "heap_inv ?c (xs @ ys)"
  proof -
    have d: "r_flight r \<notin> r_flight ` set (xs @ ys)" using t by (auto simp: table_inv_def rs)
    have "g \<in> r_flight ` set (xs @ ys) \<longleftrightarrow> g < length (c_heap ?c) \<and> \<not> fl_done (c_heap ?c ! g)" for g
      using h d f unfolding heap_inv_def rs by (auto simp: flight_finish_def Let_def nth_list_update)
    moreover have "\<forall>g\<in>set (c_heap ?c). res_Addrs (fl_stale g) \<noteq> [] \<longrightarrow> res_RCode (fl_stale g) = RCodeSuccess"
      using h f by (auto simp: heap_inv_def flight_finish_def Let_def dest!: set_update_subset_insert [THEN subsetD])
    ultimately show ?thesis using h by (simp add: heap_inv_def rs flight_finish_def Let_def)
  qed
  ultimately show ?thesis
    using inv(2) unfolding rem r_def [symmetric]
    by (simp add: flights_inv_def flight_finish_def Let_def cache_ok_def total_capacity_def)
qed

section \<open>The invariant of the system\<close>

fun policy_capacity :: "dns_Policy \<Rightarrow> entry_class \<Rightarrow> int" where
  "policy_capacity p classPositive = PositiveCapacity p"
| "policy_capacity p classNegative = NegativeCapacity p"

fun caller_ok :: "dns_Policy \<Rightarrow> nat \<Rightarrow> 'e caller \<Rightarrow> bool" where
  "caller_ok p n (Waiting f) \<longleftrightarrow> f < n"
| "caller_ok p n (Starting k query stale until refresh) \<longleftrightarrow> stale_ok p stale until"
| "caller_ok p n (Returned r e) \<longleftrightarrow> True"

definition system_inv :: "dns_Policy \<Rightarrow> 'e dns_system \<Rightarrow> bool" where
  "system_inv p s \<longleftrightarrow>
     c_policy (s_cache s) = p \<and> cache_ok (entry_ok p) (s_cache s) \<and> flights_inv (s_cache s) (s_running s) \<and>
     (\<forall>x\<in>set (s_callers s). caller_ok p (length (c_heap (s_cache s))) x) \<and>
     (\<forall>cls. total_capacity cls (s_cache s) = policy_capacity p cls)"

lemma caller_ok_mono: "caller_ok p n x \<Longrightarrow> n \<le> m \<Longrightarrow> caller_ok p m x"
  by (cases x) auto

lemma sum_distributed:
  assumes "0 < n" "0 \<le> t"
  shows "sum_list (map (\<lambda>i. distributedCapacity t (int n) (int i)) [0..<n]) = t"
proof -
  define q where "q = nat (t mod int n)"
  have q: "int q = t mod int n" "q < n" using assms by (simp_all add: q_def nat_less_iff)
  have "sum_list (map (\<lambda>i. distributedCapacity t (int n) (int i)) [0..<n]) =
      (\<Sum>i<n. t div int n + (if i < q then 1 else 0))"
    by (simp add: sum_list_distinct_conv_sum_set atLeast0LessThan distributedCapacity_def flip: q(1))
  also have "\<dots> = int n * (t div int n) + int (card ({..<n} \<inter> {i. i < q}))"
    by (simp add: sum.distrib sum.If_cases)
  also have "{..<n} \<inter> {i. i < q} = {..<q}" using q(2) by auto
  finally show ?thesis using q(1) by (simp add: mult_div_mod_eq)
qed

lemma distributed_pos: "0 < n \<Longrightarrow> n \<le> t \<Longrightarrow> 0 < distributedCapacity t n i"
  using pos_imp_zdiv_pos_iff [of n t] by (simp add: distributedCapacity_def)

lemma NewCache_inv:
  fixes c :: "'a Cache"
  assumes "NewCache p = Inr c"
  shows "system_inv p \<lparr>s_cache = c, s_callers = [], s_running = []\<rparr>"
proof -
  let ?n = "min defaultShardCount (min (PositiveCapacity p) (NegativeCapacity p))"
  have v: "policy_Validate p = None" using assms by (auto simp: NewCache_def split: option.splits)
  then have pos: "0 < PositiveCapacity p" "0 < NegativeCapacity p" "0 < MaxPending p"
    by (auto simp: policy_Validate_def split: if_splits)
  then have n: "0 < ?n" "?n \<le> PositiveCapacity p" "?n \<le> NegativeCapacity p" "int (nat ?n) = ?n"
    by (simp_all add: defaultShardCount_def)
  have c: "c = \<lparr>c_policy = p, c_shards = map (new_shard p ?n) [0..<nat ?n],
      c_flights = Map.empty, c_pendingByEgress = Map.empty, c_metrics = zero_metrics, c_heap = []\<rparr>"
    using assms v by (simp add: NewCache_def Let_def)
  have cap: "0 < shard_capacity (new_shard p ?n i :: 'a cacheShard) cls" for i cls
    using distributed_pos [OF n(1) n(2)] distributed_pos [OF n(1) n(3)] by (cases cls) (simp_all add: new_shard_def)
  have "shard_ok (new_shard p ?n i :: 'a cacheShard) \<and> shard_all (entry_ok p) (new_shard p ?n i :: 'a cacheShard)" for i
    using cap [of i, THEN less_imp_le] cap [of i]
    by (simp add: shard_ok_def shard_inv_def shard_all_def class_count_def new_shard_def)
  then have "cache_ok (entry_ok p) c"
    using n(1) by (auto simp: cache_ok_def c zero_metrics_def new_shard_def comp_def sum_list_0)
  moreover have "total_capacity cls c = policy_capacity p cls" for cls
    using sum_distributed [of "nat ?n" "PositiveCapacity p"] sum_distributed [of "nat ?n" "NegativeCapacity p"] pos n(1,4)
    by (cases cls) (simp_all add: total_capacity_def c new_shard_def comp_def)
  moreover have "flights_inv c []"
    using pos(3) by (simp add: flights_inv_def table_inv_def pending_inv_def heap_inv_def c pending_of_def egress_count_def zero_metrics_def)
  ultimately show ?thesis by (simp add: system_inv_def) (simp add: c)
qed

lemma resolve_take_keeps:
  assumes c: "cache_ok (entry_ok p) c" "c_policy c = p" and r: "resolve_take b query now c = (x, c')"
  shows "cache_ok (entry_ok p) c'" "same_flights c c'" "caller_ok p n x"
proof -
  have "cache_ok (entry_ok p) c' \<and> same_flights c c' \<and> caller_ok p n x"
  proof (cases "b \<and> (\<exists>k. (makeKey query :: 'a dns_error + dns_key) = Inr k)")
    case False
    with c r show ?thesis by (cases "makeKey query :: 'a dns_error + dns_key") (auto simp: resolve_take_def split: if_splits)
  next
    case True
    then obtain k where k: "b" "(makeKey query :: 'a dns_error + dns_key) = Inr k" by blast
    obtain e found c1 where t: "takeEntry k now c = ((e, found), c1)" by (metis prod.collapse)
    note f = takeEntry_keeps [OF c(1) t]
    have s: "stale_ok p (ce_result e) (ce_staleUntil e) \<and> stale_ok p (ce_stale e) (ce_staleUntil e)"
      using f(3) by (auto simp: entry_ok_def stale_ok_def zero_entry_def)
    have z: "stale_ok p zero_Result zero_time" by (simp add: stale_ok_def)
    have q: "same_flights c (count_in kind c1)" for kind
      using f(2) by (simp add: same_flights_trans [OF f(2)])
    show ?thesis
      using r k t f(1,2) s z q by (auto simp: resolve_take_def Let_def split: if_splits)
  qed
  then show "cache_ok (entry_ok p) c'" "same_flights c c'" "caller_ok p n x" by blast+
qed

lemma resolve_start_keeps:
  assumes inv: "flights_inv c rs" "cache_ok P c" "stale_ok (c_policy c) stale staleUntil"
    and s: "resolve_start k query stale staleUntil refresh now now' c = (x, g, c')"
  shows "flights_inv c' (rs @ (case g of None \<Rightarrow> [] | Some r \<Rightarrow> [r])) \<and> cache_ok P c' \<and> c_policy c' = c_policy c \<and>
    length (c_heap c) \<le> length (c_heap c') \<and> (\<forall>cls. total_capacity cls c' = total_capacity cls c) \<and>
    caller_ok p (length (c_heap c')) x"
proof -
  define c0 where "c0 = (if refresh then c else count_in requestMiss c)"
  have c0: "flights_inv c0 rs" "cache_ok P c0" "c_policy c0 = c_policy c" "c_heap c0 = c_heap c"
    "\<forall>cls. total_capacity cls c0 = total_capacity cls c"
    using inv same_flights_inv [OF count_in_keeps(2), of requestMiss c rs] by (simp_all add: c0_def)
  obtain res g' c1 where f: "startFlight k query stale staleUntil refresh now now' c0 = (res, g', c1)" by (metis prod.collapse)
  note k = startFlight_keeps [OF c0(1,2) inv(3) [folded c0(3)] f]
  have same: "flights_inv (count_in kind d) rs' = flights_inv d rs'" for kind d rs'
    by (rule same_flights_inv) simp
  show ?thesis
  proof (cases res)
    case (Inl e)
    then have "x = Returned zero_Result (Some e)" "g = g'" "c' = c1"
      using s f by (auto simp: resolve_start_def c0_def Let_def)
    with k c0 show ?thesis by simp
  next
    case (Inr fl)
    then have "g = g'" "c' \<in> {c1, count_in requestStale (count_in requestRefresh c1), count_in requestStale c1}"
      "x = Waiting fl \<or> (\<exists>r e. x = Returned r e)"
      using s f unfolding resolve_start_def Let_def c0_def [symmetric] by (auto split: if_splits)
    with k c0 Inr show ?thesis by (auto simp: same)
  qed
qed

lemma dns_step_inv:
  assumes "dns_step s s'" "system_inv p s"
  shows "system_inv p s'"
  using assms
proof (induction rule: dns_step.induct)
  case (call has_resolver query now s x c)
  have c: "cache_ok (entry_ok p) (s_cache s)" "c_policy (s_cache s) = p"
    using call.prems by (simp_all add: system_inv_def)
  note k = resolve_take_keeps [OF c call.hyps]
  have "flights_inv c (s_running s)" using call.prems same_flights_inv [OF k(2)] by (simp add: system_inv_def)
  then show ?case
    using call.prems k(1) k(2) k(3) [of "length (c_heap (s_cache s))"] by (auto simp: system_inv_def same_flights_def)
next
  case (start i s k query stale staleUntil refresh now now' x g c)
  have st: "stale_ok (c_policy (s_cache s)) stale staleUntil"
    using start.prems start.hyps(1,2) unfolding system_inv_def by (metis caller_ok.simps(2) nth_mem)
  have inv: "flights_inv (s_cache s) (s_running s)" "cache_ok (entry_ok p) (s_cache s)"
    using start.prems by (simp_all add: system_inv_def)
  note k = resolve_start_keeps [OF inv st start.hyps(3), of p]
  have "\<forall>y\<in>set ((s_callers s)[i := x]). caller_ok p (length (c_heap c)) y"
    using k start.prems unfolding system_inv_def
    by (auto dest!: set_update_subset_insert [THEN subsetD] intro: caller_ok_mono)
  then show ?case using k start.prems by (simp add: system_inv_def)
next
  case (answer j s r rng rng' outcome elapsed now)
  have inv: "flights_inv (s_cache s) (s_running s)" "cache_ok (entry_ok (c_policy (s_cache s))) (s_cache s)"
    using answer.prems by (simp_all add: system_inv_def)
  have "r \<in> set (s_running s)" using answer.hyps by simp
  note k = flight_insert_keeps [OF inv this answer.hyps(5) refl, of rng outcome elapsed now]
  then show ?case
    using answer.prems answer.hyps(2) by (simp add: system_inv_def flights_inv_phase)
next
  case (finish j s r)
  have inv: "flights_inv (s_cache s) (s_running s)" "cache_ok (entry_ok p) (s_cache s)"
    using finish.prems by (simp_all add: system_inv_def)
  from flight_finish_keeps [OF inv finish.hyps(1)] show ?case
    using finish.prems finish.hyps(2) by (simp add: system_inv_def)
next
  case (wait i s f ctx x)
  have "caller_ok p n x" for n
    using wait.hyps(3) by (cases ctx) (auto split: if_splits)
  then show ?case
    using wait.prems by (auto simp: system_inv_def dest!: set_update_subset_insert [THEN subsetD])
next
  case (invalidate s query)
  have "cache_ok (entry_ok p) (s_cache s)" using invalidate by (simp add: system_inv_def)
  note k = Invalidate_keeps [OF this, of query]
  then have "flights_inv (Invalidate query (s_cache s)) (s_running s)"
    using invalidate same_flights_inv by (simp add: system_inv_def) blast
  then show ?case using k invalidate by (simp add: system_inv_def same_flights_def)
qed

lemma dns_reachable_inv:
  assumes "dns_reachable p s"
  shows "system_inv p s"
proof -
  obtain c where c: "NewCache p = Inr c" "dns_step\<^sup>*\<^sup>* \<lparr>s_cache = c, s_callers = [], s_running = []\<rparr> s"
    using assms by (auto simp: dns_reachable_def)
  from c(2) show ?thesis
    by (induction rule: rtranclp_induct) (use NewCache_inv [OF c(1)] dns_step_inv in auto)
qed

lemma shard_ok_counts:
  "shard_ok s \<Longrightarrow> sh_counts s cls = class_count cls (sh_entries s)"
  "shard_ok s \<Longrightarrow> sh_counts s cls \<le> shard_capacity s cls"
  unfolding shard_ok_def shard_inv_def by blast+

text \<open>
  (C9) The cache never outgrows its policy. However callers, resolver answers, expiry and
  invalidation interleave, the positive entries of all shards together stay within the positive
  capacity and the others within the negative capacity, and the entry gauges show exactly these
  numbers.
\<close>

theorem dns_cache_bounded:
  assumes "dns_reachable p s"
  shows "class_total cls (s_cache s) \<le> policy_capacity p cls \<and>
         m_entries (c_metrics (s_cache s)) cls = class_total cls (s_cache s)"
proof -
  let ?c = "s_cache s"
  have inv: "cache_ok (entry_ok p) ?c" "total_capacity cls ?c = policy_capacity p cls"
    using dns_reachable_inv [OF assms] by (simp_all add: system_inv_def)
  have n: "sh_counts x cls = class_count cls (sh_entries x)" "sh_counts x cls \<le> shard_capacity x cls" if "x \<in> set (c_shards ?c)" for x
    using shard_ok_counts [of x] inv(1) that by (simp_all add: cache_ok_def)
  have "class_total cls ?c = sum_list (map (\<lambda>x. sh_counts x cls) (c_shards ?c))"
    unfolding class_total_def by (intro arg_cong [of _ _ sum_list] map_cong refl) (simp add: n(1))
  moreover have "sum_list (map (\<lambda>x. sh_counts x cls) (c_shards ?c)) \<le> total_capacity cls ?c"
    unfolding total_capacity_def using n(2) by (intro sum_list_mono)
  ultimately show ?thesis using inv by (simp add: cache_ok_def)
qed

text \<open>
  (C10) Equal look-ups collapse and no egress starves another: at every moment each key has at most
  one resolution in flight, the flight table lists exactly the running ones, each egress has at
  most \<open>MaxPending\<close> of them, and the pending gauge is their number.
\<close>

theorem dns_single_flight:
  assumes "dns_reachable p s"
  shows "distinct (map r_key (s_running s)) \<and>
         dom (c_flights (s_cache s)) = r_key ` set (s_running s) \<and>
         egress_count e (s_running s) \<le> MaxPending p \<and>
         m_pending (c_metrics (s_cache s)) = int (length (s_running s))"
proof -
  have "table_inv (s_cache s) (s_running s)" "pending_inv (s_cache s) (s_running s)" "c_policy (s_cache s) = p"
    using dns_reachable_inv [OF assms] by (simp_all add: system_inv_def flights_inv_def)
  then show ?thesis by (fastforce simp: table_inv_def pending_inv_def dom_def)
qed

lemma visits_id [simp]: "visits id"
  by (simp add: visits_def)

lemma waiter_wakes:
  assumes "i < length (s_callers s)" "s_callers s ! i = Waiting f" "fl_done (c_heap (s_cache s) ! f)"
  shows "dns_step s (s\<lparr>s_callers := (s_callers s)[i := Returned (fl_result (c_heap (s_cache s) ! f)) (fl_err (c_heap (s_cache s) ! f))]\<rparr>)"
  by (rule dns_step.wait [OF assms(1,2), where ctx = None]) (simp add: assms(3))

lemma flight_lands:
  assumes inv: "system_inv p s" and j: "j < length (s_running s)"
  shows "\<exists>s'. dns_step\<^sup>*\<^sup>* s s' \<and> s_callers s' = s_callers s \<and> fl_done (c_heap (s_cache s') ! r_flight (s_running s ! j))"
proof -
  have finish: "\<exists>s'. dns_step t s' \<and> s_callers s' = s_callers t \<and> fl_done (c_heap (s_cache s') ! r_flight (s_running t ! j))"
    if "system_inv p t" "j < length (s_running t)" "r_inserted (s_running t ! j)" for t :: "'a dns_system"
  proof -
    let ?t = "t\<lparr>s_cache := flight_finish (s_running t ! j) (s_cache t), s_running := remove_at j (s_running t)\<rparr>"
    have "r_flight (s_running t ! j) < length (c_heap (s_cache t))"
      using that(1,2) by (auto simp: system_inv_def flights_inv_def heap_inv_def)
    then have "fl_done (c_heap (s_cache ?t) ! r_flight (s_running t ! j))"
      by (simp add: flight_finish_def Let_def)
    moreover have "dns_step t ?t" by (rule dns_step.finish [OF that(2) refl that(3)])
    ultimately show ?thesis by (intro exI [of _ ?t]) simp
  qed
  show ?thesis
  proof (cases "r_inserted (s_running s ! j)")
    case True
    then show ?thesis using finish [OF inv j] by blast
  next
    case False
    let ?t = "s\<lparr>s_cache := flight_insert id id Panicked 0 0 (s_running s ! j) (s_cache s),
        s_running := (s_running s)[j := (s_running s ! j)\<lparr>r_inserted := True\<rparr>]\<rparr>"
    have step: "dns_step s ?t" by (rule dns_step.answer [OF j refl False visits_id visits_id])
    have "system_inv p ?t" using dns_step_inv [OF step inv] .
    from finish [OF this] j obtain s' where "dns_step ?t s'" "s_callers s' = s_callers s"
      "fl_done (c_heap (s_cache s') ! r_flight (s_running s ! j))" by auto
    then show ?thesis using step by (meson converse_rtranclp_into_rtranclp r_into_rtranclp)
  qed
qed

text \<open>
  (C34) No caller is left behind: a caller that waits for a flight, in whatever reachable state, can
  still be given the result of that very flight. The flight is done, or its goroutine is still
  there, and running it to its end (even if the resolver panics) wakes the caller with what the
  flight holds. No interleaving loses the wake-up.
\<close>

theorem dns_no_lost_waiter:
  assumes "dns_reachable p s" "i < length (s_callers s)" "s_callers s ! i = Waiting f"
  shows "\<exists>s'. dns_step\<^sup>*\<^sup>* s s' \<and> fl_done (c_heap (s_cache s') ! f) \<and>
    s_callers s' ! i = Returned (fl_result (c_heap (s_cache s') ! f)) (fl_err (c_heap (s_cache s') ! f))"
proof -
  have inv: "system_inv p s" using assms(1) by (rule dns_reachable_inv)
  have "caller_ok p (length (c_heap (s_cache s))) (s_callers s ! i)"
    using inv assms(2) by (simp add: system_inv_def)
  then have f: "f < length (c_heap (s_cache s))" by (simp add: assms(3))
  have "\<exists>t. dns_step\<^sup>*\<^sup>* s t \<and> s_callers t = s_callers s \<and> fl_done (c_heap (s_cache t) ! f)"
  proof (cases "fl_done (c_heap (s_cache s) ! f)")
    case False
    then have "f \<in> r_flight ` set (s_running s)"
      using inv f by (simp add: system_inv_def flights_inv_def heap_inv_def)
    then obtain j where "j < length (s_running s)" "r_flight (s_running s ! j) = f"
      by (metis imageE in_set_conv_nth)
    then show ?thesis using flight_lands [OF inv, of j] by simp
  qed blast
  then obtain t where t: "dns_step\<^sup>*\<^sup>* s t" "s_callers t = s_callers s" "fl_done (c_heap (s_cache t) ! f)" by blast
  let ?t = "t\<lparr>s_callers := (s_callers t)[i := Returned (fl_result (c_heap (s_cache t) ! f)) (fl_err (c_heap (s_cache t) ! f))]\<rparr>"
  have "dns_step t ?t" using assms(2,3) t by (intro waiter_wakes) simp_all
  then have "dns_step\<^sup>*\<^sup>* s ?t" using t(1) by (rule rtranclp.rtrancl_into_rtrancl [rotated])
  then show ?thesis using t(2,3) assms(2) by (intro exI [of _ ?t]) simp
qed


section \<open>A run of a small cache\<close>

definition sample_policy :: dns_Policy where
  "sample_policy = \<lparr>PositiveCapacity = 1, NegativeCapacity = 1, MaxPending = 1, MinPositiveTTL = 10, MaxPositiveTTL = 50,
     NegativeTTL = 5, TransientFailureTTL = 5, StaleWindow = 20, StalePolicy = ''transient'', ResolverTimeout = 5\<rparr>"

definition sample_query :: Query where
  "sample_query = \<lparr>q_Host = ''a.io'', q_Family = 0, q_Egress = ''direct'', q_Resolver = [], q_Generation = 0\<rparr>"

definition sample_key :: dns_key where
  "sample_key = \<lparr>k_host = ''a.io'', k_family = 0, k_egress = ''direct'', k_resolver = [], k_generation = 0\<rparr>"

definition sample_cache :: "string Cache" where
  "sample_cache = \<lparr>c_policy = sample_policy,
     c_shards = [\<lparr>sh_entries = [], sh_counts = (\<lambda>_. 0), sh_positiveCap = 1, sh_negativeCap = 1\<rparr>],
     c_flights = Map.empty, c_pendingByEgress = Map.empty, c_metrics = zero_metrics, c_heap = []\<rparr>"

definition sample_idle :: "string dns_system" where
  "sample_idle = \<lparr>s_cache = sample_cache, s_callers = [], s_running = []\<rparr>"

definition sample_running :: running where
  "sample_running = \<lparr>r_key = sample_key, r_query = sample_query, r_stale = zero_Result, r_staleUntil = zero_time,
     r_flight = 0, r_inserted = False\<rparr>"

definition sample_called :: "string dns_system" where
  "sample_called = \<lparr>s_cache = sample_cache,
     s_callers = [Starting sample_key sample_query zero_Result zero_time False], s_running = []\<rparr>"

definition sample_flying :: "string dns_system" where
  "sample_flying = \<lparr>s_cache = sample_cache\<lparr>c_flights := [sample_key \<mapsto> 0], c_pendingByEgress := [''direct'' \<mapsto> 1],
       c_metrics := (count_request requestMiss zero_metrics)\<lparr>m_pending := 1\<rparr>,
       c_heap := [\<lparr>fl_done = False, fl_result = zero_Result, fl_err = None, fl_stale = zero_Result, fl_serveStale = False\<rparr>]\<rparr>,
     s_callers = [Waiting 0], s_running = [sample_running]\<rparr>"

definition sample_landed :: "string dns_system" where
  "sample_landed = sample_flying
     \<lparr>s_cache := flight_insert id id (Answered \<lparr>res_Addrs = [V4 1], res_ExpiresAt = 100, res_RCode = RCodeSuccess\<rparr>) 3 60
        sample_running (s_cache sample_flying),
      s_running := [sample_running\<lparr>r_inserted := True\<rparr>]\<rparr>"

lemma sample_key_of: "makeKey sample_query = Inr sample_key"
proof -
  have "trim_space ''a.io'' = ''a.io''" "to_lower (trim_suffix ''.'' ''a.io'') = ''a.io''"
    by (simp_all add: trim_space_def trim_left_of.simps go_string_simps)
  then show ?thesis by (simp add: makeKey_def sample_query_def sample_key_def FamilyIPv6_def Let_def)
qed

lemma sample_new: "NewCache sample_policy = Inr sample_cache"
  by (simp add: NewCache_def policy_Validate_def sample_policy_def sample_cache_def defaultShardCount_def
      new_shard_def distributedCapacity_def StaleNever_def StaleTransient_def)

lemma one_shard: "length (c_shards c) = 1 \<Longrightarrow> shardFor c k = 0"
  by (simp add: shardFor_def)

lemma sample_call: "dns_step sample_idle sample_called"
proof -
  have "resolve_take True sample_query 0 sample_cache =
      (Starting sample_key sample_query zero_Result zero_time False, sample_cache)"
    by (simp add: resolve_take_def sample_key_of takeEntry_def entry_at_def shardFor_def sample_cache_def
        zero_entry_def zero_time_def)
  from dns_step.call [of True sample_query 0 sample_idle] this show ?thesis
    by (simp add: sample_idle_def sample_called_def)
qed

lemma sample_start: "dns_step sample_called sample_flying"
proof -
  have "resolve_start sample_key sample_query zero_Result zero_time False 0 0 sample_cache =
      (Waiting 0, Some sample_running, s_cache sample_flying)"
    by (simp add: resolve_start_def startFlight_def count_in_def peekFresh_def entry_at_def shardFor_def pending_of_def
        sample_cache_def sample_flying_def sample_running_def sample_policy_def sample_key_def count_request_def
        zero_metrics_def Let_def)
  from dns_step.start [of 0 sample_called sample_key sample_query zero_Result zero_time False 0 0] this show ?thesis
    by (simp add: sample_called_def sample_flying_def)
qed

lemma sample_answer: "dns_step sample_flying sample_landed"
  using dns_step.answer [of 0 sample_flying sample_running id id] by (simp add: sample_flying_def sample_landed_def sample_running_def)

lemma sample_reachable: "dns_reachable sample_policy sample_flying" "dns_reachable sample_policy sample_landed"
proof -
  have "dns_step\<^sup>*\<^sup>* sample_idle sample_flying" using sample_call sample_start by (meson converse_rtranclp_into_rtranclp r_into_rtranclp)
  then show "dns_reachable sample_policy sample_flying" "dns_reachable sample_policy sample_landed"
    using sample_new sample_answer unfolding dns_reachable_def sample_idle_def by (meson rtranclp.rtrancl_into_rtrancl)+
qed

theorem dns_cache_bounded_witness:
  "dns_reachable sample_policy sample_landed \<and> class_total classPositive (s_cache sample_landed) \<le> policy_capacity sample_policy classPositive"
  using dns_cache_bounded [OF sample_reachable(2), of classPositive] sample_reachable(2) by blast

theorem dns_single_flight_witness:
  "dns_reachable sample_policy sample_flying \<and> s_running sample_flying = [sample_running] \<and>
   egress_count ''direct'' (s_running sample_flying) \<le> 1"
  using dns_single_flight [OF sample_reachable(1), of "''direct''"] sample_reachable(1)
  by (simp add: sample_flying_def sample_policy_def)

theorem dns_no_lost_waiter_witness:
  "s_callers sample_flying = [Waiting 0] \<and>
   (\<exists>s'. dns_step\<^sup>*\<^sup>* sample_flying s' \<and> fl_done (c_heap (s_cache s') ! 0))"
  using dns_no_lost_waiter [OF sample_reachable(1), of 0 0] by (auto simp: sample_flying_def)


end
