(* ===== verification/Tunnel_Dns.thy ===== *)
theory Tunnel_Dns
  imports Proxy_Dial
begin

text \<open>
  The resolver of a tunnel, \<open>src/cmd/sakhtar-wg/tunneldns.go\<close>: every server over UDP and, when that
  times out or brings only denied addresses, over TCP, each within its slice of the budget. The
  look-ups of Go's \<open>net.Resolver\<close> and the clock are operations on the state of the world. The
  lemmas show that a poisoned answer wins only when no server gave a clean one, and that a single
  server that answers cleanly over TCP is enough.
\<close>

section \<open>Contexts and errors\<close>

text \<open>The errors of the network library, as far as the source tells them apart.\<close>

datatype 'x net_error =
    DeadlineExceeded | Canceled | DNSError bool bool | NetOther 'x | JoinedErr "'x net_error list"

text \<open>\<open>errors.As\<close> with a \<open>*net.DNSError\<close>: its flags \<open>IsTimeout\<close> and \<open>IsNotFound\<close>, depth first.\<close>

fun as_DNSError :: "'x net_error \<Rightarrow> (bool \<times> bool) option"
and as_DNSErrors :: "'x net_error list \<Rightarrow> (bool \<times> bool) option" where
  "as_DNSError (DNSError t n) = Some (t, n)"
| "as_DNSError (JoinedErr es) = as_DNSErrors es"
| "as_DNSError _ = None"
| "as_DNSErrors [] = None"
| "as_DNSErrors (e # es) = (case as_DNSError e of Some f \<Rightarrow> Some f | None \<Rightarrow> as_DNSErrors es)"

fun is_deadline :: "'x net_error \<Rightarrow> bool"
and any_deadline :: "'x net_error list \<Rightarrow> bool" where
  "is_deadline DeadlineExceeded \<longleftrightarrow> True"
| "is_deadline (JoinedErr es) \<longleftrightarrow> any_deadline es"
| "is_deadline _ \<longleftrightarrow> False"
| "any_deadline [] \<longleftrightarrow> False"
| "any_deadline (e # es) \<longleftrightarrow> is_deadline e \<or> any_deadline es"

definition isDNSTimeout :: "'x net_error \<Rightarrow> bool" where
  "isDNSTimeout e \<longleftrightarrow> (case as_DNSError e of Some (t, n) \<Rightarrow> t | None \<Rightarrow> False) \<or> is_deadline e"

definition isDNSNotFound :: "'x net_error \<Rightarrow> bool" where
  "isDNSNotFound e \<longleftrightarrow> (case as_DNSError e of Some (t, n) \<Rightarrow> n | None \<Rightarrow> False)"

text \<open>\<open>context.WithTimeout\<close>.\<close>

type_synonym ('w, 'x) net_context = "('w, 'x net_error) dial_context"

definition WithTimeout :: "('w, 'x) net_context \<Rightarrow> duration \<Rightarrow> 'w \<Rightarrow> ('w, 'x) net_context" where
  "WithTimeout ctx d w =
     (let t = ctx_now ctx w + d;
          deadline = (case ctx_deadline ctx of None \<Rightarrow> t | Some old \<Rightarrow> min old t)
      in ctx\<lparr>ctx_deadline := Some deadline,
             ctx_Err := (\<lambda>w'. case ctx_Err ctx w' of
                Some e \<Rightarrow> Some e
              | None \<Rightarrow> if deadline \<le> ctx_now ctx w' then Some DeadlineExceeded else None)\<rparr>)"


section \<open>The look-up\<close>

text \<open>
  A look-up goes to one server over one transport, marked for the tunnel. \<open>LookupNetIP\<close> of
  \<open>net.Resolver\<close> returns a slice, never nil, or an error.
\<close>

datatype transport = UDP | TCP

type_synonym ('w, 'x) net_lookup =
  "transport \<Rightarrow> string \<Rightarrow> int \<Rightarrow> ('w, 'x) net_context \<Rightarrow> string \<Rightarrow> string \<Rightarrow> 'w \<Rightarrow> ('x net_error + addr list) \<times> 'w"

record tunnelResolver =
  tr_servers :: "string list"
  tr_mark :: int
  tr_timeout :: duration
  tr_allowed :: "(addr \<Rightarrow> bool) option"

definition newTunnelResolver :: "string list \<Rightarrow> int \<Rightarrow> duration \<Rightarrow> (addr \<Rightarrow> bool) option \<Rightarrow> tunnelResolver" where
  "newTunnelResolver servers mark timeout allowed =
     \<lparr>tr_servers = servers, tr_mark = mark, tr_timeout = timeout, tr_allowed = allowed\<rparr>"

definition acceptable :: "tunnelResolver \<Rightarrow> addr list \<Rightarrow> bool" where
  "acceptable r addrs \<longleftrightarrow> (case tr_allowed r of None \<Rightarrow> True | Some ok \<Rightarrow> list_ex ok addrs)"

definition sliceOf :: "('w, 'x) net_context \<Rightarrow> int \<Rightarrow> 'w \<Rightarrow> ('w, 'x) net_context" where
  "sliceOf ctx attemptsLeft w =
     (case ctx_deadline ctx of
        None \<Rightarrow> ctx
      | Some deadline \<Rightarrow> WithTimeout ctx (BudgetSlice (time_sub deadline (ctx_now ctx w)) attemptsLeft) w)"

definition lookupServer :: "('w, 'x) net_lookup \<Rightarrow> tunnelResolver \<Rightarrow> ('w, 'x) net_context \<Rightarrow> string \<Rightarrow> string \<Rightarrow> string \<Rightarrow>
    'w \<Rightarrow> ('x net_error + addr list) \<times> 'w"
where
  "lookupServer lookup r ctx server network host w =
     (let (answer, w1) = lookup UDP server (tr_mark r) (sliceOf ctx 2 w) network host w;
          retry = (case answer of Inl e \<Rightarrow> isDNSTimeout e | Inr addrs \<Rightarrow> \<not> acceptable r addrs)
      in if \<not> retry \<or> ctx_Err ctx w1 \<noteq> None then (answer, w1)
         else let (answer', w2) = lookup TCP server (tr_mark r) ctx network host w1
              in (case (answer', answer) of (Inl e, Inr addrs) \<Rightarrow> Inr addrs | _ \<Rightarrow> answer', w2))"

text \<open>
  What is left when no server gave an acceptable answer: the last denied answer rather than an
  error, so that the proxy invalidates it and moves on. \<open>errors.Join\<close> of no error is nil.
\<close>

fun give_up :: "'x net_error list \<Rightarrow> addr list option \<Rightarrow> 'x net_error + addr list" where
  "give_up errs (Some addrs) = Inr addrs"
| "give_up [] None = Inr []"
| "give_up [e] None = Inl e"
| "give_up (e # e' # es) None = Inl (JoinedErr (e # e' # es))"

fun server_loop :: "('w, 'x) net_lookup \<Rightarrow> tunnelResolver \<Rightarrow> ('w, 'x) net_context \<Rightarrow> string \<Rightarrow> string \<Rightarrow> string list \<Rightarrow>
    'x net_error list \<Rightarrow> addr list option \<Rightarrow> 'w \<Rightarrow> ('x net_error + addr list) \<times> 'w"
where
  "server_loop lookup r ctx network host [] errs poisoned w = (give_up errs poisoned, w)"
| "server_loop lookup r ctx network host (server # servers) errs poisoned w =
     (case ctx_Err ctx w of
        Some e \<Rightarrow> (give_up (errs @ [e]) poisoned, w)
      | None \<Rightarrow>
          (case lookupServer lookup r (sliceOf ctx (int (length (server # servers))) w) server network host w of
             (Inr addrs, w') \<Rightarrow>
               if acceptable r addrs then (Inr addrs, w')
               else server_loop lookup r ctx network host servers errs (Some addrs) w'
           | (Inl e, w') \<Rightarrow>
               if isDNSNotFound e then (Inl e, w')
               else server_loop lookup r ctx network host servers (errs @ [e]) poisoned w'))"

definition LookupNetIP :: "('w, 'x) net_lookup \<Rightarrow> tunnelResolver \<Rightarrow> ('w, 'x) net_context \<Rightarrow> string \<Rightarrow> string \<Rightarrow> 'w \<Rightarrow>
    ('x net_error + addr list) \<times> 'w"
where
  "LookupNetIP lookup r ctx network host w =
     server_loop lookup r (WithTimeout ctx (tr_timeout r) w)
       (if network = ''ip'' then ''ip4'' else network) host (tr_servers r) [] None w"

section \<open>A clean server is enough\<close>

lemma div_share:
  assumes "int n * s \<le> rem" "0 < n"
  shows "s \<le> rem div int n" and "int (n - 1) * s \<le> rem - rem div int n"
proof -
  have "(int n * s) div int n \<le> rem div int n" using assms by (intro zdiv_mono1) simp_all
  then show *: "s \<le> rem div int n" using assms(2) by simp
  have "int (n - 1) * s \<le> int (n - 1) * (rem div int n)" using * by (intro mult_left_mono) simp_all
  also have "\<dots> = int n * (rem div int n) - rem div int n"
    using assms(2) by (simp add: of_nat_diff algebra_simps)
  also have "\<dots> \<le> rem - rem div int n" using assms(2) by (simp add: minus_mod_eq_mult_div [symmetric])
  finally show "int (n - 1) * s \<le> rem - rem div int n" .
qed

text \<open>
  A context with a deadline that is not done before it, and look-ups that do not turn the clock
  back and return by the deadline of their context.
\<close>

definition alive_until :: "('w \<Rightarrow> gotime) \<Rightarrow> gotime \<Rightarrow> ('w, 'x) net_context \<Rightarrow> bool" where
  "alive_until clock D ctx \<longleftrightarrow>
     ctx_deadline ctx = Some D \<and> ctx_now ctx = clock \<and> (\<forall>w. clock w < D \<longrightarrow> ctx_Err ctx w = None)"

definition timely_lookup :: "('w \<Rightarrow> gotime) \<Rightarrow> ('w, 'x) net_lookup \<Rightarrow> bool" where
  "timely_lookup clock lookup \<longleftrightarrow>
     (\<forall>tr s m ctx net h w d. ctx_deadline ctx = Some d \<and> clock w \<le> d \<longrightarrow>
        clock w \<le> clock (snd (lookup tr s m ctx net h w)) \<and> clock (snd (lookup tr s m ctx net h w)) \<le> d)"

text \<open>A server that answers acceptably over TCP within a second, whatever happens to its UDP.\<close>

definition clean_server :: "('w \<Rightarrow> gotime) \<Rightarrow> ('w, 'x) net_lookup \<Rightarrow> tunnelResolver \<Rightarrow> string \<Rightarrow> bool" where
  "clean_server clock lookup r s \<longleftrightarrow>
     (\<forall>ctx net h w d. ctx_deadline ctx = Some d \<and> clock w + second \<le> d \<longrightarrow>
        (\<exists>addrs. fst (lookup TCP s (tr_mark r) ctx net h w) = Inr addrs \<and> acceptable r addrs) \<and>
        (\<forall>e. fst (lookup UDP s (tr_mark r) ctx net h w) = Inl e \<longrightarrow> isDNSTimeout e))"

lemma WithTimeout_alive:
  "alive_until clock D ctx \<Longrightarrow> alive_until clock (min D (clock w + d)) (WithTimeout ctx d w)"
  by (auto simp: alive_until_def WithTimeout_def Let_def)

lemma sliceOf_alive:
  assumes "alive_until clock D ctx" "int n * second \<le> D - clock w" "0 < n" "D - clock w \<le> maxInt64"
  shows "alive_until clock (clock w + (D - clock w) div int n) (sliceOf ctx (int n) w)"
proof -
  have f: "BudgetSlice (D - clock w) (int n) = (D - clock w) div int n" "int (n - 1) * second \<le> D - clock w - (D - clock w) div int n"
    using BudgetSlice_fair [OF assms(2,3)] by simp_all
  have le: "(D - clock w) div int n \<le> D - clock w"
    using f(2) mult_nonneg_nonneg [of "int (n - 1)" second] second_pos by linarith
  have "0 \<le> int n * second" by (simp add: second_def)
  then have "0 \<le> D - clock w" using assms(2) by linarith
  then have "time_sub D (clock w) = D - clock w" using assms(4) by (simp add: time_sub_def minInt64_def)
  then have "sliceOf ctx (int n) w = WithTimeout ctx ((D - clock w) div int n) w"
    using assms(1) f(1) by (simp add: sliceOf_def alive_until_def)
  moreover have "min D (clock w + (D - clock w) div int n) = clock w + (D - clock w) div int n" using le by simp
  ultimately show ?thesis
    using WithTimeout_alive [OF assms(1), of w "(D - clock w) div int n"] by simp
qed

lemma timely_lookup_clock:
  assumes "timely_lookup clock lookup" "ctx_deadline ctx = Some d" "clock w \<le> d" "lookup tr s m ctx net h w = (a, w')"
  shows "clock w \<le> clock w'" "clock w' \<le> d"
proof -
  have "clock w \<le> clock (snd (lookup tr s m ctx net h w)) \<and> clock (snd (lookup tr s m ctx net h w)) \<le> d"
    using assms(1-3) unfolding timely_lookup_def by blast
  then show "clock w \<le> clock w'" "clock w' \<le> d" using assms(4) by simp_all
qed

lemma lookupServer_timely:
  assumes "timely_lookup clock lookup" "alive_until clock D ctx" "2 * second \<le> D - clock w" "D - clock w \<le> maxInt64"
    and "lookupServer lookup r ctx server network host w = (a, w')"
  shows "clock w \<le> clock w'" "clock w' \<le> D" "clean_server clock lookup r server \<Longrightarrow> \<exists>addrs. a = Inr addrs \<and> acceptable r addrs"
proof -
  let ?h = "(D - clock w) div 2"
  have h: "second \<le> ?h" "second \<le> (D - clock w) - ?h" using div_share [of 2 second "D - clock w"] assms(3) by simp_all
  have al: "alive_until clock (clock w + ?h) (sliceOf ctx 2 w)"
    using sliceOf_alive [OF assms(2), of 2 w] assms(3,4) by simp
  obtain a1 w1 where u: "lookup UDP server (tr_mark r) (sliceOf ctx 2 w) network host w = (a1, w1)" by fastforce
  obtain a2 w2 where t: "lookup TCP server (tr_mark r) ctx network host w1 = (a2, w2)" by fastforce
  have w1: "clock w \<le> clock w1" "clock w1 \<le> clock w + ?h"
    using timely_lookup_clock [OF assms(1) _ _ u, of "clock w + ?h"] al h second_pos by (simp_all add: alive_until_def)
  have w2: "clock w1 \<le> clock w2" "clock w2 \<le> D"
    using timely_lookup_clock [OF assms(1) _ _ t, of D] assms(2) w1 h second_pos by (simp_all add: alive_until_def)
  have "clock w1 < D" using w1 h second_pos by linarith
  then have ok: "ctx_Err ctx w1 = None" using assms(2) by (simp add: alive_until_def)
  have "clock w1 \<le> D" "clock w \<le> clock w2" using w1 w2 h second_pos by linarith+
  then show "clock w \<le> clock w'" "clock w' \<le> D"
    using assms(5) u t w1 w2 by (auto simp: lookupServer_def Let_def split: if_splits)
  assume clean: "clean_server clock lookup r server"
  have "\<exists>addrs. a2 = Inr addrs \<and> acceptable r addrs"
    using clean [unfolded clean_server_def, rule_format, of ctx D w1 network host] assms(2) w1 h t
    by (simp add: alive_until_def)
  moreover have "isDNSTimeout e" if "a1 = Inl e" for e
    using clean [unfolded clean_server_def, rule_format, of "sliceOf ctx 2 w" "clock w + ?h" w network host] al h u that
    by (simp add: alive_until_def)
  ultimately show "\<exists>addrs. a = Inr addrs \<and> acceptable r addrs"
    using assms(5) u t ok by (cases a1) (auto simp: lookupServer_def Let_def split: if_splits)
qed

lemma server_loop_clean:
  assumes "timely_lookup clock lookup" "alive_until clock D ctx" "server \<in> set servers" "clean_server clock lookup r server"
    and "int (length servers) * (2 * second) \<le> D - clock w" "D - clock w \<le> maxInt64"
  shows "\<exists>x. fst (server_loop lookup r ctx network host servers errs poisoned w) = x \<and>
    (case x of Inr addrs \<Rightarrow> acceptable r addrs | Inl e \<Rightarrow> isDNSNotFound e)"
  using assms(3,5,6)
proof (induction servers arbitrary: errs poisoned w)
  case (Cons s servers)
  let ?n = "length (s # servers)" and ?rem = "D - clock w"
  have sh: "2 * second \<le> ?rem div int ?n" "int (length servers) * (2 * second) \<le> ?rem - ?rem div int ?n"
    using div_share [of ?n "2 * second" ?rem] Cons.prems(2) by simp_all
  have "int ?n * second \<le> int ?n * (2 * second)" using second_pos by (intro mult_left_mono) simp_all
  then have budget: "int ?n * second \<le> ?rem" using Cons.prems(2) by linarith
  have le: "?rem div int ?n \<le> ?rem"
    using sh(2) mult_nonneg_nonneg [of "int (length servers)" "2 * second"] second_pos by linarith
  have al: "alive_until clock (clock w + ?rem div int ?n) (sliceOf ctx (int ?n) w)"
    using sliceOf_alive [OF assms(2) budget] Cons.prems(3) by simp
  have "clock w < D" using sh(1) le second_pos by linarith
  then have ok: "ctx_Err ctx w = None" using assms(2) by (simp add: alive_until_def)
  obtain a w' where l: "lookupServer lookup r (sliceOf ctx (int ?n) w) s network host w = (a, w')" by fastforce
  note k = lookupServer_timely [OF assms(1) al _ _ l]
  have w': "clock w \<le> clock w'" "clock w' \<le> clock w + ?rem div int ?n"
    using k(1,2) sh(1) le Cons.prems(3) by simp_all
  show ?case
  proof (cases "(case a of Inr addrs \<Rightarrow> acceptable r addrs | Inl e \<Rightarrow> isDNSNotFound e)")
    case True
    then show ?thesis using ok l by (cases a) simp_all
  next
    case False
    then have "\<not> clean_server clock lookup r s" using k(3) sh(1) le Cons.prems(3) by (cases a) auto
    then have s: "server \<in> set servers" using Cons.prems(1) assms(4) by auto
    have "int (length servers) * (2 * second) \<le> D - clock w'" "D - clock w' \<le> maxInt64"
      using sh(2) w' Cons.prems(3) by linarith+
    from Cons.IH [OF s this] show ?thesis using False ok l by (cases a) simp_all
  qed
qed simp


text \<open>A tunnel whose first server drops UDP, and whose UDP answers are poisoned at the second.\<close>

definition lossy_lookup :: "(int, unit) net_lookup" where
  "lossy_lookup tr s m ctx net h now =
     (if s = ''1.1.1.1:53'' then (Inl DeadlineExceeded, case ctx_deadline ctx of None \<Rightarrow> now | Some d \<Rightarrow> max now d)
      else (Inr [if tr = UDP then V4 0x0A0A2224 else V4 0x5DB8D822], now))"

definition sample_resolver :: tunnelResolver where
  "sample_resolver = \<lparr>tr_servers = [''1.1.1.1:53'', ''8.8.8.8:53''], tr_mark = 100, tr_timeout = 5 * second,
     tr_allowed = Some (\<lambda>a. a = V4 0x5DB8D822)\<rparr>"

definition resolver_context :: "(int, unit) net_context" where
  "resolver_context = \<lparr>ctx_deadline = Some (10 * second),
     ctx_Err = (\<lambda>now. if now < 10 * second then None else Some DeadlineExceeded), ctx_now = (\<lambda>now. now)\<rparr>"


end
