(* ===== verification/Proxy_Router.thy ===== *)
theory Proxy_Router
  imports Config_Validate Dns_Cache Health Routing Tunnel_Dns
begin

text \<open>
  The router of the proxy: the adapter of the DNS cache, \<open>src/cmd/sakhtar-wg/dnscache.go\<close>, the
  health monitor of a configuration, \<open>src/cmd/sakhtar-wg/health.go\<close>, and the part of
  \<open>src/cmd/sakhtar-wg/sni.go\<close> that builds a router from a configuration and picks the egress of a
  host. The lemmas show that a configuration that was loaded gives a router (the panic in the
  adapter is unreachable), and that every mark the router can pick is known to all its tables.
\<close>

section \<open>The adapter of the DNS cache\<close>

record 'e dnsCache =
  dc_cache :: "'e Cache"
  dc_generation :: "64 word"
  dc_resolverID :: string
  dc_egressNames :: "int \<rightharpoonup> string"

text \<open>An error of \<open>NewCache\<close> is a panic.\<close>

definition newDNSCacheWithPolicy :: "dns_Policy \<Rightarrow> 64 word \<Rightarrow> string \<Rightarrow> (int \<rightharpoonup> string) \<Rightarrow> policy_error + 'e dnsCache" where
  "newDNSCacheWithPolicy policy0 generation resolverID egressNames =
     (let policy = (if MaxPositiveTTL policy0 < MinPositiveTTL policy0
                    then policy0\<lparr>MaxPositiveTTL := MinPositiveTTL policy0\<rparr> else policy0)
      in map_sum id (\<lambda>cache. \<lparr>dc_cache = cache, dc_generation = generation, dc_resolverID = resolverID,
                               dc_egressNames = egressNames\<rparr>) (NewCache policy))"

definition newDNSCache :: "duration \<Rightarrow> policy_error + 'e dnsCache" where
  "newDNSCache posTTL =
     newDNSCacheWithPolicy
       \<lparr>PositiveCapacity = defaultDNSPositiveCapacity, NegativeCapacity = defaultDNSNegativeCapacity,
        MaxPending = defaultDNSMaxPending, MinPositiveTTL = second, MaxPositiveTTL = posTTL,
        NegativeTTL = seconds defaultDNSNegativeTTL, TransientFailureTTL = seconds defaultDNSTransientTTL,
        StaleWindow = seconds defaultDNSStaleWindow, StalePolicy = StaleTransient,
        ResolverTimeout = seconds defaultDNSResolverTimeout\<rparr> 1 ''legacy'' Map.empty"

definition positiveOr :: "int \<Rightarrow> int \<Rightarrow> int" where
  "positiveOr v fallback = (if v \<le> 0 then fallback else v)"

definition tunnelNamesByMark :: "Config \<Rightarrow> (int \<rightharpoonup> string)" where
  "tunnelNamesByMark c = foldl (\<lambda>names t. names(tun_Fwmark t \<mapsto> tun_Name t)) Map.empty (cfg_Tunnels c)"

definition dns_policy_of :: "Proxy \<Rightarrow> dns_Policy" where
  "dns_policy_of p =
     \<lparr>PositiveCapacity = positiveOr (px_DNSPositiveCapacity p) defaultDNSPositiveCapacity,
      NegativeCapacity = positiveOr (px_DNSNegativeCapacity p) defaultDNSNegativeCapacity,
      MaxPending = positiveOr (px_DNSMaxPending p) defaultDNSMaxPending,
      MinPositiveTTL = seconds (positiveOr (px_DNSMinPositiveTTL p) defaultDNSMinPositiveTTL),
      MaxPositiveTTL = seconds (positiveOr (px_DNSMaxPositiveTTL p) defaultDNSMaxPositiveTTL),
      NegativeTTL = seconds (positiveOr (px_DNSNegativeTTL p) defaultDNSNegativeTTL),
      TransientFailureTTL = seconds (positiveOr (px_DNSTransientFailureTTL p) defaultDNSTransientTTL),
      StaleWindow = seconds (if px_DNSStaleWindow p = 0 then defaultDNSStaleWindow else px_DNSStaleWindow p),
      StalePolicy = (if px_DNSStalePolicy p = [] then StaleTransient else px_DNSStalePolicy p),
      ResolverTimeout = seconds (positiveOr (px_DNSResolverTimeout p) defaultDNSResolverTimeout)\<rparr>"

definition newDNSCacheForConfig :: "Config \<Rightarrow> 64 word \<Rightarrow> policy_error + 'e dnsCache" where
  "newDNSCacheForConfig c generation =
     newDNSCacheWithPolicy (dns_policy_of (cfg_Proxy c)) generation
       (join '','' (orDefault (px_Resolver (cfg_Proxy c)))) (tunnelNamesByMark c)"

definition mark_name :: "(int \<rightharpoonup> string) \<Rightarrow> int \<Rightarrow> string" where
  "mark_name names mark =
     (if mark = 0 then DirectEgress
      else case names mark of
        Some name \<Rightarrow> if name \<noteq> [] then name else ''mark-'' @ itoa_int mark
      | None \<Rightarrow> ''mark-'' @ itoa_int mark)"

definition dns_egressName :: "'e dnsCache \<Rightarrow> int \<Rightarrow> string" where
  "dns_egressName c mark = mark_name (dc_egressNames c) mark"

definition dns_query :: "'e dnsCache \<Rightarrow> int \<Rightarrow> string \<Rightarrow> Query" where
  "dns_query c mark host =
     \<lparr>q_Host = host, q_Family = FamilyAny, q_Egress = dns_egressName c mark, q_Resolver = dc_resolverID c,
      q_Generation = dc_generation c\<rparr>"

definition dns_invalidate :: "int \<Rightarrow> string \<Rightarrow> 'e dnsCache \<Rightarrow> 'e dnsCache" where
  "dns_invalidate mark host c = c\<lparr>dc_cache := Invalidate (dns_query c mark host) (dc_cache c)\<rparr>"

section \<open>The health monitor of a configuration\<close>

datatype monitor_error = NoWireGuardControl | MonitorRefused health_error

definition health_group :: "Config \<Rightarrow> config_Group \<Rightarrow> Group" where
  "health_group c g =
     \<lparr>gr_Name = grp_Name g,
      gr_Members = map (\<lambda>member. \<lparr>mb_Tunnel = member, mb_Mark = word_of_int (markFor c member)\<rparr>) (grp_Members g),
      gr_HealthyAfter = seconds (grp_HealthyAfter g)\<rparr>"

definition health_config :: "Config \<Rightarrow> bool \<Rightarrow> health_Config" where
  "health_config c observers =
     \<lparr>hc_Interval = seconds (cfg_HealthInterval c), hc_Groups = map (health_group c) (cfg_Groups c), hc_Observe = observers,
      hc_Probe = (if hp_Enabled (cfg_HealthProbe c)
        then Some \<lparr>pp_MaxAge = seconds (hp_MaxAge (cfg_HealthProbe c)), pp_FailAfter = hp_FailAfter (cfg_HealthProbe c),
                   pp_RecoverAfter = hp_RecoverAfter (cfg_HealthProbe c)\<rparr>
        else None)\<rparr>"

text \<open>\<open>wgctrl\<close> says whether \<open>wgctrl.New\<close> succeeds.\<close>

definition NewHealthMonitor :: "bool \<Rightarrow> Config \<Rightarrow> bool \<Rightarrow> monitor_error + Monitor option" where
  "NewHealthMonitor wgctrl c observers =
     (if cfg_Groups c = [] then Inr None
      else if \<not> wgctrl then Inl NoWireGuardControl
      else map_sum MonitorRefused Some (health_New True (health_config c observers)))"


section \<open>Egress references\<close>

text \<open>
  A reference to an egress holds a static mark, or points to the active mark and the failover
  order of a group; the pointers are the index of the group in its monitor.
\<close>

record markRef =
  mr_static :: int
  mr_dyn :: "nat option"
  mr_order :: "nat option"

definition ref_mark :: "Monitor \<Rightarrow> markRef \<Rightarrow> int" where
  "ref_mark m ref = (case mr_dyn ref of Some i \<Rightarrow> sint (st_active (mo_groups m ! i)) | None \<Rightarrow> mr_static ref)"

definition ref_marks :: "Monitor \<Rightarrow> markRef \<Rightarrow> int list" where
  "ref_marks m ref =
     (case mr_order ref of
        Some i \<Rightarrow>
          let order = st_order (mo_groups m ! i)
          in if order \<noteq> [] then map (\<lambda>mark. uint mark) order else [ref_mark m ref]
      | None \<Rightarrow> [ref_mark m ref])"

definition markRefFor :: "Config \<Rightarrow> Monitor option \<Rightarrow> string \<Rightarrow> markRef" where
  "markRefFor c hm via =
     (case hm of
        Some m \<Rightarrow>
          (case mo_byName m via of
             Some i \<Rightarrow> \<lparr>mr_static = 0, mr_dyn = Some i, mr_order = Some i\<rparr>
           | None \<Rightarrow> \<lparr>mr_static = markFor c via, mr_dyn = None, mr_order = None\<rparr>)
      | None \<Rightarrow> \<lparr>mr_static = markFor c via, mr_dyn = None, mr_order = None\<rparr>)"


section \<open>The router\<close>

definition egressFamilyAllowed :: "addr \<Rightarrow> int \<Rightarrow> bool" where
  "egressFamilyAllowed addr mark \<longleftrightarrow> mark = 0 \<or> Is4 (Unmap addr)"

definition egressFamilyCandidates :: "addr list \<Rightarrow> int \<Rightarrow> addr list" where
  "egressFamilyCandidates addrs mark =
     (if mark = 0 then addrs else filter (\<lambda>addr. egressFamilyAllowed addr mark) addrs)"

text \<open>A resolver of an egress, with its local TTL: the resolver of the system or of a tunnel.\<close>

datatype egress_resolver = SystemResolver duration | TunnelResolver tunnelResolver duration

record 'e router =
  rt_def :: markRef
  rt_dialTimeout :: duration
  rt_handshakeTimeout :: duration
  rt_idleTimeout :: duration
  rt_shutdownGrace :: duration
  rt_maxConnections :: int
  rt_maxConnectionsPerSource :: int
  rt_maxClientHelloBytes :: int
  rt_maxHTTPHeaderBytes :: int
  rt_sourceACL :: "prefix list"
  rt_destination :: destinationPolicy
  rt_suffixes :: "markRef SuffixMatcher option"
  rt_dns :: "'e dnsCache"
  rt_resolvers :: "int \<rightharpoonup> egress_resolver"
  rt_egressNames :: "int \<rightharpoonup> string"
  rt_selector :: RotatingSelector
  rt_connectAttemptCap :: int

definition durationSeconds :: "int \<Rightarrow> int \<Rightarrow> duration" where
  "durationSeconds v fallback = seconds (if v \<le> 0 then fallback else v)"

definition router_resolvers :: "Config \<Rightarrow> destinationPolicy \<Rightarrow> (int \<rightharpoonup> egress_resolver)" where
  "router_resolvers c destination =
     (let timeout = durationSeconds (px_DNSResolverTimeout (cfg_Proxy c)) defaultDNSResolverTimeout;
          localTTL = durationSeconds (px_DNSCacheTTL (cfg_Proxy c)) defaultDNSMaxPositiveTTL
      in foldl (\<lambda>resolvers t. resolvers(tun_Fwmark t \<mapsto>
             TunnelResolver (newTunnelResolver (resolversFor c (tun_Fwmark t)) (tun_Fwmark t) timeout
               (Some (answerAllowed destination (tun_Fwmark t)))) localTTL))
           [0 \<mapsto> SystemResolver localTTL] (cfg_Tunnels c))"

definition add_rule :: "Config \<Rightarrow> Monitor option \<Rightarrow> markRef SuffixMatcher option \<Rightarrow> ProxyRule \<Rightarrow> markRef SuffixMatcher option" where
  "add_rule c hm suffixes rule =
     (let ref = markRefFor c hm (rule_Via rule)
      in foldl (\<lambda>m suffix. snd (AddFirst m suffix ref)) suffixes (rule_Suffixes rule))"

definition newRouterGeneration :: "Config \<Rightarrow> Monitor option \<Rightarrow> 64 word \<Rightarrow> policy_error + 'e router" where
  "newRouterGeneration c hm generation =
     map_sum id (\<lambda>cache.
       let p = cfg_Proxy c; destination = newDestinationPolicy c;
           strategy = (if strategy_Valid (px_AddressFamilyStrategy p) then px_AddressFamilyStrategy p else Interleave);
           attemptCap = (if px_ConnectAttemptCap p \<le> 0 then defaultConnectAttemptCap else px_ConnectAttemptCap p)
       in \<lparr>rt_def = markRefFor c hm (px_Default p), rt_dialTimeout = seconds (px_DialTimeout p),
           rt_handshakeTimeout = seconds (px_HandshakeTimeout p), rt_idleTimeout = seconds (px_IdleTimeout p),
           rt_shutdownGrace = seconds (px_ShutdownGrace p), rt_maxConnections = px_MaxConnections p,
           rt_maxConnectionsPerSource = px_MaxConnectionsPerSource p, rt_maxClientHelloBytes = px_MaxClientHelloBytes p,
           rt_maxHTTPHeaderBytes = px_MaxHTTPHeaderBytes p, rt_sourceACL = compileSourceACL c, rt_destination = destination,
           rt_suffixes = foldl (add_rule c hm) NewSuffixMatcher (px_Rules p), rt_dns = cache,
           rt_resolvers = router_resolvers c destination, rt_egressNames = tunnelNamesByMark c,
           rt_selector = \<lparr>Strategy = strategy, MaxAttempts = attemptCap, cursor = 0\<rparr>, rt_connectAttemptCap = attemptCap\<rparr>)
       (newDNSCacheForConfig c generation)"

definition route :: "(string \<Rightarrow> string option) \<Rightarrow> 'e router \<Rightarrow> string \<Rightarrow> markRef" where
  "route toASCII rt host0 =
     (let host = (case canonicalHost toASCII host0 False of Inr (normalized, _) \<Rightarrow> normalized | Inl _ \<Rightarrow> host0)
      in case Lookup (rt_suffixes rt) host of Some ref \<Rightarrow> ref | None \<Rightarrow> rt_def rt)"

definition router_mark :: "(string \<Rightarrow> string option) \<Rightarrow> Monitor \<Rightarrow> 'e router \<Rightarrow> string \<Rightarrow> int" where
  "router_mark toASCII m rt host = ref_mark m (route toASCII rt host)"

definition rt_egressName :: "'e router \<Rightarrow> int \<Rightarrow> string" where
  "rt_egressName rt mark = mark_name (rt_egressNames rt) mark"

section \<open>Loaded configurations\<close>

text \<open>What \<open>parseConfig\<close> returns: well-formed, with its defaults, in canonical form.\<close>

definition loaded :: "(string \<Rightarrow> bool) \<Rightarrow> (string \<Rightarrow> string option) \<Rightarrow> Config \<Rightarrow> bool" where
  "loaded parseKey toASCII c \<longleftrightarrow> wf_config parseKey toASCII c \<and> config_normalize c = c \<and> canonical_config toASCII c = c"

lemma parseConfig_loaded:
  assumes "visits rng" "parseConfig parseKey toASCII rng decode rest raw = Inr c"
  shows "loaded parseKey toASCII c"
proof -
  obtain d where d: "validate parseKey toASCII rng (config_normalize d) = Inr c"
    using assms(2) by (auto simp: parseConfig_def map_sum_Inr_iff split: if_splits sum.splits trailing_document.splits)
  then have wf: "wf_config parseKey toASCII (config_normalize d)" and c: "c = canonical_config toASCII (config_normalize d)"
    using validate_Inr [OF assms(1)] by blast+
  show ?thesis using normalize_canonical [OF wf] wf_config_canonical [OF wf] by (simp add: c loaded_def)
qed

lemma sample_loaded: "loaded (\<lambda>_. True) Some (canonical_config Some (config_normalize sample_config))"
  using normalize_canonical [OF sample_wf] wf_config_canonical [OF sample_wf] by (simp add: loaded_def)

lemma seconds_id: "0 \<le> n \<Longrightarrow> n \<le> maxDurationSeconds \<Longrightarrow> seconds n = n * second"
  by (simp add: seconds_def maxDurationSeconds_def wrap64_id maxInt64_def minInt64_def second_def)

lemma seconds_pos: "0 < n \<Longrightarrow> n \<le> maxDurationSeconds \<Longrightarrow> 0 < seconds n"
  by (simp add: seconds_id second_def)

lemma default_int_fixed: "default_int d v = v \<Longrightarrow> d \<noteq> 0 \<Longrightarrow> v \<noteq> 0"
  by (auto simp: default_int_def)

lemma loaded_tunnels:
  assumes "loaded parseKey toASCII c"
  shows "distinct (map tun_Name (cfg_Tunnels c))" "distinct (map tun_Fwmark (cfg_Tunnels c))"
    and "t \<in> set (cfg_Tunnels c) \<Longrightarrow> 0 < tun_Fwmark t \<and> tun_Fwmark t < 2 ^ 32 \<and> tun_Name t \<noteq> []"
  using assms by (auto simp: loaded_def wf_config_def tunnels_ok_def tunnel_ok_def interfaceNameRE_def)


section \<open>A loaded configuration starts\<close>

lemma dns_policy_valid:
  assumes "loaded parseKey toASCII c"
  shows "policy_Validate (dns_policy_of (cfg_Proxy c)) = None"
proof -
  let ?p = "cfg_Proxy c"
  have t: "proxy_timers_ok ?p" "proxy_limits_ok ?p" using assms by (simp_all add: loaded_def wf_config_def proxy_ok_def)
  have d: "0 < px_DNSMinPositiveTTL ?p" "px_DNSMinPositiveTTL ?p \<le> px_DNSMaxPositiveTTL ?p"
    "px_DNSMaxPositiveTTL ?p \<le> maxDurationSeconds"
    "0 < px_DNSNegativeTTL ?p" "px_DNSNegativeTTL ?p \<le> maxDurationSeconds"
    "0 < px_DNSTransientFailureTTL ?p" "px_DNSTransientFailureTTL ?p \<le> maxDurationSeconds"
    "0 < px_DNSResolverTimeout ?p" "px_DNSResolverTimeout ?p \<le> maxDurationSeconds"
    "0 \<le> px_DNSStaleWindow ?p" "px_DNSStaleWindow ?p \<le> maxDurationSeconds"
    using t(1) by (auto simp: proxy_timers_ok_def validSeconds_def)
  have w: "0 \<le> seconds (if px_DNSStaleWindow ?p = 0 then defaultDNSStaleWindow else px_DNSStaleWindow ?p)"
    using d(10,11) by (auto simp: seconds_id defaultDNSStaleWindow_def maxDurationSeconds_def maxInt64_def second_def)
  have m: "seconds (px_DNSMinPositiveTTL ?p) \<le> seconds (px_DNSMaxPositiveTTL ?p)"
    using d(1-3) by (simp add: seconds_id second_def)
  have s: "px_DNSStalePolicy ?p = ''transient'' \<or> px_DNSStalePolicy ?p = ''never''"
    "0 < px_DNSPositiveCapacity ?p" "0 < px_DNSNegativeCapacity ?p" "0 < px_DNSMaxPending ?p"
    using t(2) by (auto simp: proxy_limits_ok_def)
  have o: "positiveOr v f = v" if "0 < v" for v f using that by (simp add: positiveOr_def)
  have n: "\<not> seconds (px_DNSMinPositiveTTL ?p) \<le> 0" "\<not> seconds (px_DNSNegativeTTL ?p) \<le> 0"
    "\<not> seconds (px_DNSTransientFailureTTL ?p) \<le> 0" "\<not> seconds (px_DNSResolverTimeout ?p) \<le> 0"
    using d seconds_pos by (simp_all add: not_le)
  have st: "(if px_DNSStalePolicy ?p = [] then StaleTransient else px_DNSStalePolicy ?p) \<in> {StaleNever, StaleTransient}"
    using s(1) by (auto simp: StaleNever_def StaleTransient_def)
  show ?thesis
    unfolding policy_Validate_def dns_policy_of_def dns_Policy.simps
    using n m w st s(2-4) by (simp only: o [OF s(2)] o [OF s(3)] o [OF s(4)] o [OF d(1)] o [OF d(4)] o [OF d(6)] o [OF d(8)]
        o [OF less_le_trans [OF d(1,2)]] not_le not_less if_False) auto
qed

lemma newDNSCacheForConfig_total:
  assumes "loaded parseKey toASCII c"
  shows "\<exists>cache. newDNSCacheForConfig c generation = Inr (cache :: 'e dnsCache)"
proof -
  let ?p = "dns_policy_of (cfg_Proxy c)"
  have v: "policy_Validate ?p = None" using assms by (rule dns_policy_valid)
  then have "\<not> MaxPositiveTTL ?p < MinPositiveTTL ?p" by (auto simp: policy_Validate_def split: if_splits)
  moreover have "\<exists>cache :: 'e Cache. NewCache ?p = Inr cache" using v by (simp add: NewCache_def Let_def)
  ultimately show ?thesis
    unfolding newDNSCacheForConfig_def newDNSCacheWithPolicy_def Let_def by (auto simp: map_sum_Inr_iff)
qed

lemma add_groups_total:
  "(\<forall>g\<in>set groups. gr_Name g \<noteq> [] \<and> gr_Members g \<noteq> [] \<and> 0 < gr_HealthyAfter g) \<Longrightarrow> \<exists>m'. add_groups groups m = Inr m'"
  by (induction groups m rule: add_groups.induct) (auto simp: Let_def)

lemma NewHealthMonitor_total:
  assumes "loaded parseKey toASCII c"
  shows "\<exists>hm. NewHealthMonitor True c observers = Inr hm"
proof -
  have n: "cfg_HealthInterval c \<noteq> 0" "\<forall>g\<in>set (cfg_Groups c). grp_HealthyAfter g \<noteq> 0"
  proof -
    have "cfg_HealthInterval (config_normalize c) = cfg_HealthInterval c"
      "map grp_HealthyAfter (cfg_Groups (config_normalize c)) = map grp_HealthyAfter (cfg_Groups c)"
      using assms by (simp_all add: loaded_def)
    then have "default_int 10 (cfg_HealthInterval c) = cfg_HealthInterval c"
      "\<forall>g\<in>set (cfg_Groups c). default_int 180 (grp_HealthyAfter g) = grp_HealthyAfter g"
      by (simp_all add: config_normalize_def)
    then show "cfg_HealthInterval c \<noteq> 0" "\<forall>g\<in>set (cfg_Groups c). grp_HealthyAfter g \<noteq> 0"
      using default_int_fixed by fastforce+
  qed
  have wf: "wf_config parseKey toASCII c" using assms by (simp add: loaded_def)
  have i: "0 < seconds (cfg_HealthInterval c)"
    using wf n(1) by (intro seconds_pos) (auto simp: wf_config_def validSeconds_def)
  have "gr_Name g \<noteq> [] \<and> gr_Members g \<noteq> [] \<and> 0 < gr_HealthyAfter g" if mem: "g \<in> set (hc_Groups (health_config c observers))" for g
  proof -
    from mem obtain g' where g: "g' \<in> set (cfg_Groups c)" "g = health_group c g'" by (auto simp: health_config_def)
    have "Config_Validate.group_ok (tunnel_names c) g'" using wf g(1) by (simp add: wf_config_def groups_ok_def)
    then show ?thesis
      using g n(2) seconds_pos [of "grp_HealthyAfter g'"]
      by (auto simp: Config_Validate.group_ok_def health_group_def validSeconds_def operationalNameRE_def)
  qed
  then have "\<exists>m'. add_groups (hc_Groups (health_config c observers)) m0 = Inr m'" for m0 using add_groups_total by blast
  moreover have "policy_validate p = None" if "hc_Probe (health_config c observers) = Some p" for p
    using that wf seconds_pos [of "hp_MaxAge (cfg_HealthProbe c)"]
    by (auto simp: health_config_def policy_validate_def wf_config_def routing_ok_def probe_ok_def split: if_splits)
  ultimately have "\<exists>m. health_New True (health_config c observers) = Inr m"
    using i by (cases "hc_Probe (health_config c observers)") (auto simp: health_New_def health_config_def Let_def)
  then show ?thesis by (auto simp: NewHealthMonitor_def map_sum_Inr_iff)
qed

text \<open>
  (C37) A configuration that \<open>parseConfig\<close> accepted starts: the health monitor takes its groups,
  and the router is built, with the DNS cache that the panic in the adapter guards. That panic is
  unreachable, as its comment says, for every accepted file and every generation.
\<close>

theorem loaded_config_starts:
  assumes "visits rng" "parseConfig parseKey toASCII rng decode rest raw = Inr c"
  shows "\<exists>hm rt. NewHealthMonitor True c observers = Inr hm \<and> newRouterGeneration c hm generation = Inr (rt :: 'e router)"
proof -
  have l: "loaded parseKey toASCII c" using parseConfig_loaded [OF assms] .
  obtain hm where "NewHealthMonitor True c observers = Inr hm" using NewHealthMonitor_total [OF l] by blast
  moreover have "\<exists>rt. newRouterGeneration c hm generation = Inr (rt :: 'e router)"
    using newDNSCacheForConfig_total [OF l, of generation, where 'e = 'e]
    by (auto simp: newRouterGeneration_def map_sum_Inr_iff)
  ultimately show ?thesis by blast
qed

section \<open>The marks of an egress\<close>

lemma add_groups_shape:
  "add_groups groups m = Inr m' \<Longrightarrow>
   map st_group (mo_groups m') = map st_group (mo_groups m) @ groups \<and>
   dom (mo_byName m') = dom (mo_byName m) \<union> gr_Name ` set groups"
  by (induction groups m rule: add_groups.induct) (auto simp: Let_def split: if_splits)

lemma health_New_shape:
  assumes "health_New True cfg = Inr m"
  shows "map st_group (mo_groups m) = hc_Groups cfg" "dom (mo_byName m) = gr_Name ` set (hc_Groups cfg)"
proof -
  obtain m0 where m0: "add_groups (hc_Groups cfg) m0 = Inr m" "mo_groups m0 = []" "mo_byName m0 = Map.empty"
    using assms by (auto simp: health_New_def Let_def split: if_splits option.splits)
  then show "map st_group (mo_groups m) = hc_Groups cfg" "dom (mo_byName m) = gr_Name ` set (hc_Groups cfg)"
    using add_groups_shape [OF m0(1)] by simp_all
qed

text \<open>The groups and their indices never change after \<open>New\<close>, so the pointers of a router stay valid.\<close>

lemma reach_shape:
  assumes "monitor_reach cfg m"
  shows "\<exists>m0. health_New True cfg = Inr m0 \<and> mo_byName m = mo_byName m0 \<and>
    map st_group (mo_groups m) = map st_group (mo_groups m0)"
  using assms
proof (induction rule: monitor_reach.induct)
  case (poll m rng device now1 m' seen)
  then show ?case using Poll_ok [OF reach_ok [OF poll.hyps(1)], of rng device now1] by auto
qed (auto simp: ObserveProbe_def InheritProbes_def split: option.splits)

text \<open>The marks an egress name stands for: those of the members of the group, or its own.\<close>

definition egress_marks :: "Config \<Rightarrow> string \<Rightarrow> int set" where
  "egress_marks c via =
     (case find (\<lambda>g. grp_Name g = via) (cfg_Groups c) of
        Some g \<Rightarrow> markFor c ` set (grp_Members g) | None \<Rightarrow> {markFor c via})"

lemma find_group:
  assumes "distinct (map grp_Name gs)" "g \<in> set gs"
  shows "find (\<lambda>x. grp_Name x = grp_Name g) gs = Some g"
  using assms by (induction gs) (auto simp: image_iff)

lemma mark_of_range:
  assumes "\<forall>t\<in>set ts. 0 < tun_Fwmark t \<and> tun_Fwmark t < 2 ^ 32"
  shows "0 \<le> mark_of via ts \<and> mark_of via ts < 2 ^ 32"
  using assms by (induction ts) auto

lemma markFor_word:
  assumes "loaded parseKey toASCII c"
  shows "uint (word_of_int (markFor c via) :: FwMark) = markFor c via"
proof -
  have "0 \<le> markFor c via \<and> markFor c via < 2 ^ 32"
    using mark_of_range [of "cfg_Tunnels c" via] loaded_tunnels(3) [OF assms] by (simp add: markFor_def)
  then show ?thesis by (simp add: uint_word_of_int_eq take_bit_int_eq_self)
qed

lemma group_marks:
  assumes "loaded parseKey toASCII c"
  shows "uint ` set (memberMarks (gr_Members (health_group c g))) = markFor c ` set (grp_Members g)"
  by (auto simp: memberMarks_def health_group_def image_image markFor_word [OF assms])

lemma ref_marks_known:
  assumes l: "loaded parseKey toASCII c" and n: "NewHealthMonitor wgctrl c observers = Inr hm"
    and m: "hm \<noteq> None \<Longrightarrow> monitor_reach (health_config c observers) m"
  shows "ref_marks m (markRefFor c hm via) \<noteq> []" "set (ref_marks m (markRefFor c hm via)) \<subseteq> egress_marks c via"
proof -
  let ?cfg = "health_config c observers"
  have d: "distinct (map grp_Name (cfg_Groups c))" using l by (simp add: loaded_def wf_config_def groups_ok_def)
  have "ref_marks m (markRefFor c hm via) \<noteq> [] \<and> set (ref_marks m (markRefFor c hm via)) \<subseteq> egress_marks c via"
  proof (cases hm)
    case None
    then have "cfg_Groups c = []" using n by (auto simp: NewHealthMonitor_def map_sum_Inr_iff split: if_splits)
    then show ?thesis using None by (simp add: markRefFor_def ref_marks_def ref_mark_def egress_marks_def)
  next
    case (Some m0)
    have m0: "health_New True ?cfg = Inr m0"
      using n Some by (auto simp: NewHealthMonitor_def map_sum_Inr_iff split: if_splits)
    have r: "monitor_reach ?cfg m" using m Some by simp
    have same: "mo_byName m0 = mo_byName m" "map st_group (mo_groups m) = hc_Groups ?cfg"
      using reach_shape [OF r] health_New_shape [OF m0] m0 by auto
    show ?thesis
    proof (cases "mo_byName m via")
      case None
      then have "via \<notin> gr_Name ` set (hc_Groups ?cfg)" using health_New_shape(2) [OF m0] same(1) by (metis domIff)
      then have "find (\<lambda>g. grp_Name g = via) (cfg_Groups c) = None"
        by (auto simp: find_None_iff health_config_def health_group_def image_iff)
      then show ?thesis
        using None Some same(1) by (simp add: markRefFor_def ref_marks_def ref_mark_def egress_marks_def)
    next
      case (Some i)
      have ok: "i < length (mo_groups m)" "gr_Name (st_group (mo_groups m ! i)) = via" "Health.group_ok (mo_groups m ! i)"
        using reach_ok [OF r] Some by (auto simp: monitor_ok_def list_all_length)
      then have "st_group (mo_groups m ! i) \<in> set (hc_Groups ?cfg)" using same(2) by (metis length_map nth_map nth_mem)
      then obtain g where g: "g \<in> set (cfg_Groups c)" "st_group (mo_groups m ! i) = health_group c g"
        by (auto simp: health_config_def)
      then have "via = grp_Name g" using ok(2) by (simp add: health_group_def)
      then have e: "egress_marks c via = markFor c ` set (grp_Members g)"
        using find_group [OF d g(1)] by (simp add: egress_marks_def)
      have "st_order (mo_groups m ! i) \<noteq> []" "set (st_order (mo_groups m ! i)) \<subseteq> set (memberMarks (gr_Members (health_group c g)))"
        using ok(3) g(2) by (simp_all add: Health.group_ok_def)
      moreover from this(2) have "uint ` set (st_order (mo_groups m ! i)) \<subseteq> egress_marks c via"
        using group_marks [OF l, of g] e by blast
      ultimately show ?thesis
        using \<open>hm = Some m0\<close> Some same(1) by (simp add: markRefFor_def ref_marks_def Let_def)
    qed
  qed
  then show "ref_marks m (markRefFor c hm via) \<noteq> []" "set (ref_marks m (markRefFor c hm via)) \<subseteq> egress_marks c via" by blast+
qed

section \<open>The route of a host\<close>

text \<open>Every suffix of the rules with its egress, in the order of the configuration.\<close>

definition rule_vias :: "Config \<Rightarrow> (string \<times> string) list" where
  "rule_vias c = concat (map (\<lambda>r. map (\<lambda>s. (s, rule_Via r)) (rule_Suffixes r)) (px_Rules (cfg_Proxy c)))"

lemma add_rules:
  "foldl (add_rule c hm) M rules =
   fold (\<lambda>(k, v) m. snd (AddFirst m k v))
     (map (\<lambda>(s, via). (s, markRefFor c hm via)) (concat (map (\<lambda>r. map (\<lambda>s. (s, rule_Via r)) (rule_Suffixes r)) rules))) M"
proof (induction rules arbitrary: M)
  case (Cons r rules)
  have "foldl (\<lambda>m suffix. snd (AddFirst m suffix ref)) M ss = fold (\<lambda>(k, v) m. snd (AddFirst m k v)) (map (\<lambda>s. (s, ref)) ss) M"
    for ref and ss :: "string list" by (induction ss arbitrary: M) simp_all
  then show ?case using Cons.IH by (simp add: add_rule_def Let_def comp_def)
qed simp

lemma router_suffixes:
  "foldl (add_rule c hm) NewSuffixMatcher (px_Rules (cfg_Proxy c)) =
   Some \<lparr>sm_values = map_option (markRefFor c hm) \<circ> map_of (rule_vias c)\<rparr>"
  unfolding add_rules rule_vias_def [symmetric] built_matcher
  by (simp add: map_of_map)

lemma lookup_loop_map: "lookup_loop (map_option f \<circ> vals) h = map_option f (lookup_loop vals h)"
proof (induction vals h rule: lookup_loop.induct)
  case (1 vals h)
  then show ?case
    by (subst (1 2) lookup_loop.simps) (auto simp: comp_def split: option.split)
qed

text \<open>The egress of a host: that of the first rule of the most specific suffix, or the default.\<close>

definition egress_of :: "Config \<Rightarrow> string \<Rightarrow> string" where
  "egress_of c host = (case lookup_loop (map_of (rule_vias c)) host of Some via \<Rightarrow> via | None \<Rightarrow> px_Default (cfg_Proxy c))"

lemma route_egress:
  assumes "newRouterGeneration c hm generation = Inr (rt :: 'e router)" "canonicalHost toASCII host False = Inr (host, b)"
  shows "route toASCII rt host = markRefFor c hm (egress_of c host)"
proof -
  have "rt_suffixes rt = Some \<lparr>sm_values = map_option (markRefFor c hm) \<circ> map_of (rule_vias c)\<rparr>"
    "rt_def rt = markRefFor c hm (px_Default (cfg_Proxy c))"
    using assms(1) router_suffixes [of c hm] by (auto simp: newRouterGeneration_def map_sum_Inr_iff Let_def)
  then show ?thesis
    using assms(2) by (simp add: route_def Lookup_def lookup_loop_map egress_of_def split: option.split)
qed

lemma egress_of_rule:
  "case lookup_loop (map_of (rule_vias c)) host of None \<Rightarrow> True | Some via \<Rightarrow> via \<in> rule_Via ` set (px_Rules (cfg_Proxy c))"
proof (cases "lookup_loop (map_of (rule_vias c)) host")
  case (Some via)
  then obtain s where "map_of (rule_vias c) s = Some via"
    using lookup_loop_correct [of "map_of (rule_vias c)" host] by (auto simp: longest_match_def)
  then have "(s, via) \<in> set (rule_vias c)" by (rule map_of_SomeD)
  then show ?thesis using Some by (auto simp: rule_vias_def)
qed simp

lemma egress_of_valid:
  assumes "loaded parseKey toASCII c"
  shows "valid_via (tunnel_names c) (group_names c) (egress_of c host)"
proof -
  have "rules_ok toASCII c" using assms by (simp add: loaded_def wf_config_def)
  then show ?thesis
    using egress_of_rule [of c host] by (auto simp: egress_of_def rules_ok_def rule_ok_def split: option.splits)
qed


section \<open>The tables of the router\<close>

lemma foldl_upd:
  "distinct (map k ts) \<Longrightarrow> t \<in> set ts \<Longrightarrow> foldl (\<lambda>m t. m(k t \<mapsto> v t)) M ts (k t) = Some (v t)"
  "x \<notin> k ` set ts \<Longrightarrow> foldl (\<lambda>m t. m(k t \<mapsto> v t)) M ts x = M x"
  by (induction ts arbitrary: M rule: rev_induct) (auto simp: image_iff)

lemma tunnel_policies_foldl:
  "tunnel_policies dp ts m = foldl (\<lambda>m t. m(tun_Fwmark t \<mapsto> mustPolicyPrefixes
     (case map_of (dp_TunnelAllowCIDRs dp) (tun_Name t) of None \<Rightarrow> [] | Some cidrs \<Rightarrow> cidrs))) m ts"
  by (induction ts arbitrary: m) simp_all

lemma mark_of_tunnel: "distinct (map tun_Name ts) \<Longrightarrow> t \<in> set ts \<Longrightarrow> mark_of (tun_Name t) ts = tun_Fwmark t"
  by (induction ts) (auto simp: image_iff)

lemma egress_marks_tunnel:
  assumes l: "loaded parseKey toASCII c" and v: "valid_via (tunnel_names c) (group_names c) via" and m: "mark \<in> egress_marks c via"
  shows "mark = 0 \<or> (\<exists>t\<in>set (cfg_Tunnels c). mark = tun_Fwmark t)"
    and "via \<notin> {[], ''direct''} \<Longrightarrow> ''direct'' \<notin> tunnel_names c \<Longrightarrow> mark \<noteq> 0"
proof -
  have t: "markFor c (tun_Name t) = (if tun_Name t = ''direct'' then 0 else tun_Fwmark t)" if "t \<in> set (cfg_Tunnels c)" for t
    using that mark_of_tunnel [OF loaded_tunnels(1) [OF l]] loaded_tunnels(3) [OF l that] by (simp add: markFor_def)
  have n: "\<exists>t\<in>set (cfg_Tunnels c). x = tun_Name t" if "x \<in> tunnel_names c" for x using that by (auto simp: tunnel_names_def)
  have mem: "x \<in> tunnel_names c" if "find (\<lambda>g. grp_Name g = via) (cfg_Groups c) = Some g" "x \<in> set (grp_Members g)" for g x
  proof -
    have "g \<in> set (cfg_Groups c)" using that(1) by (auto simp: find_Some_iff)
    then show ?thesis using l that(2) by (auto simp: loaded_def wf_config_def groups_ok_def Config_Validate.group_ok_def)
  qed
  have nog: "via \<notin> group_names c" if "find (\<lambda>g. grp_Name g = via) (cfg_Groups c) = None"
    using that by (auto simp: find_None_iff group_names_def)
  show "mark = 0 \<or> (\<exists>t\<in>set (cfg_Tunnels c). mark = tun_Fwmark t)"
  proof (cases "find (\<lambda>g. grp_Name g = via) (cfg_Groups c)")
    case None
    then have "via = [] \<or> via = ''direct'' \<or> via \<in> tunnel_names c" "mark = markFor c via"
      using v nog m by (auto simp: valid_via_def egress_marks_def)
    moreover have "markFor c [] = 0" "markFor c ''direct'' = 0" by (simp_all add: markFor_def)
    ultimately show ?thesis using n [of via] t by metis
  next
    case (Some g)
    then obtain x where "x \<in> set (grp_Members g)" "mark = markFor c x" using m by (auto simp: egress_marks_def)
    then show ?thesis using mem [OF Some] n [of x] t by metis
  qed
  assume d: "via \<notin> {[], ''direct''}" "''direct'' \<notin> tunnel_names c"
  have pos: "markFor c x \<noteq> 0" if "x \<in> tunnel_names c" for x
  proof -
    from n [OF that] obtain y where y: "y \<in> set (cfg_Tunnels c)" "x = tun_Name y" by blast
    then have "tun_Name y \<noteq> ''direct''" using d(2) that by auto
    then show ?thesis using t [OF y(1)] y(2) loaded_tunnels(3) [OF l y(1)] by simp
  qed
  show "mark \<noteq> 0"
  proof (cases "find (\<lambda>g. grp_Name g = via) (cfg_Groups c)")
    case None
    then show ?thesis using v nog m d(1) pos by (auto simp: valid_via_def egress_marks_def)
  next
    case (Some g)
    then show ?thesis using m mem [OF Some] pos by (auto simp: egress_marks_def)
  qed
qed

text \<open>What the router knows about a mark: its name, its resolver and its destination exceptions.\<close>

definition known_egress :: "Config \<Rightarrow> 'e router \<Rightarrow> int \<Rightarrow> bool" where
  "known_egress c rt mark \<longleftrightarrow>
     (let dp = px_DestinationPolicy (cfg_Proxy c) in
      mark = 0 \<and> rt_egressName rt mark = ''direct'' \<and> (\<exists>ttl. rt_resolvers rt mark = Some (SystemResolver ttl)) \<and>
        rt_destination rt mark = Some (mustPolicyPrefixes (dp_DirectAllowCIDRs dp)) \<or>
      (\<exists>t\<in>set (cfg_Tunnels c). mark = tun_Fwmark t \<and> rt_egressName rt mark = tun_Name t \<and>
        (\<exists>r ttl. rt_resolvers rt mark = Some (TunnelResolver r ttl) \<and> tr_mark r = mark \<and>
           tr_servers r = resolversFor c mark \<and> tr_allowed r = Some (answerAllowed (rt_destination rt) mark)) \<and>
        rt_destination rt mark = Some (mustPolicyPrefixes
          (case map_of (dp_TunnelAllowCIDRs dp) (tun_Name t) of None \<Rightarrow> [] | Some cidrs \<Rightarrow> cidrs))))"

lemma router_tables:
  assumes l: "loaded parseKey toASCII c" and r: "newRouterGeneration c hm generation = Inr (rt :: 'e router)"
    and m: "mark = 0 \<or> (\<exists>t\<in>set (cfg_Tunnels c). mark = tun_Fwmark t)"
  shows "known_egress c rt mark"
proof -
  let ?dp = "px_DestinationPolicy (cfg_Proxy c)"
  have rt: "rt_egressNames rt = tunnelNamesByMark c" "rt_destination rt = newDestinationPolicy c"
    "rt_resolvers rt = router_resolvers c (newDestinationPolicy c)"
    using r by (auto simp: newRouterGeneration_def map_sum_Inr_iff Let_def)
  have pos: "0 \<notin> tun_Fwmark ` set (cfg_Tunnels c)" using loaded_tunnels(3) [OF l] by fastforce
  note upd = foldl_upd(1) [OF loaded_tunnels(2) [OF l]] foldl_upd(2) [OF pos]
  show ?thesis
  proof (cases "mark = 0")
    case True
    then show ?thesis
      unfolding known_egress_def Let_def rt
      by (auto simp: rt_egressName_def mark_name_def DirectEgress_def router_resolvers_def newDestinationPolicy_def
          tunnel_policies_foldl upd Let_def)
  next
    case False
    then obtain t where t: "t \<in> set (cfg_Tunnels c)" "mark = tun_Fwmark t" using m by blast
    have n: "tunnelNamesByMark c mark = Some (tun_Name t)" unfolding tunnelNamesByMark_def t(2) by (rule upd(1) [OF t(1)])
    have d: "newDestinationPolicy c mark = Some (mustPolicyPrefixes
        (case map_of (dp_TunnelAllowCIDRs ?dp) (tun_Name t) of None \<Rightarrow> [] | Some cidrs \<Rightarrow> cidrs))"
      unfolding newDestinationPolicy_def Let_def tunnel_policies_foldl t(2) by (rule upd(1) [OF t(1)])
    have "\<exists>r ttl. router_resolvers c (newDestinationPolicy c) mark = Some (TunnelResolver r ttl) \<and> tr_mark r = mark \<and>
        tr_servers r = resolversFor c mark \<and> tr_allowed r = Some (answerAllowed (newDestinationPolicy c) mark)"
      unfolding router_resolvers_def Let_def t(2) upd(1) [OF t(1)] by (simp add: newTunnelResolver_def)
    moreover have "rt_egressName rt mark = tun_Name t"
      using False n loaded_tunnels(3) [OF l t(1)] by (simp add: rt_egressName_def mark_name_def rt)
    ultimately show ?thesis
      using t d unfolding known_egress_def Let_def rt by blast
  qed
qed

text \<open>
  (C13) Every connection gets an egress the router knows. For a loaded configuration and whatever
  the health monitor has seen since it started, a canonical host name is sent to the egress of
  the first rule of its most specific configured parent domain, or to the default if no parent
  domain has a rule. The failover order it gets is not empty, holds marks of that egress only
  (for a group, of its members), and each mark is either 0, with the system resolver and the
  exceptions for direct traffic, or the mark of a configured tunnel, with the name of that
  tunnel in the metrics and the cache keys, that tunnel's resolvers queried through the mark,
  and that tunnel's destination exceptions. An egress other than direct never yields mark 0,
  provided that no tunnel has the name \<open>direct\<close>.
\<close>

theorem router_egress:
  assumes "visits rng" "parseConfig parseKey toASCII rng decode rest raw = Inr c"
    and "NewHealthMonitor wgctrl c observers = Inr hm" "newRouterGeneration c hm generation = Inr (rt :: 'e router)"
    and "hm \<noteq> None \<Longrightarrow> monitor_reach (health_config c observers) m"
    and "canonicalHost toASCII raw_host allowPort = Inr (host, False)"
  shows "\<exists>rule via. longest_match (map_of (rule_vias c)) (\<lambda>s. domain_suffix s host) rule \<and>
    via = (case rule of Some v \<Rightarrow> v | None \<Rightarrow> px_Default (cfg_Proxy c)) \<and>
    ref_marks m (route toASCII rt host) \<noteq> [] \<and>
    (\<forall>mark\<in>set (ref_marks m (route toASCII rt host)). mark \<in> egress_marks c via \<and> known_egress c rt mark \<and>
       (via \<notin> {[], ''direct''} \<and> ''direct'' \<notin> tunnel_names c \<longrightarrow> mark \<noteq> 0))"
proof (intro exI conjI ballI)
  let ?rule = "lookup_loop (map_of (rule_vias c)) host" and ?via = "egress_of c host"
  have l: "loaded parseKey toASCII c" using parseConfig_loaded [OF assms(1,2)] .
  have r: "route toASCII rt host = markRefFor c hm ?via"
    using route_egress [OF assms(4) canonicalHost_again [OF assms(6)]] .
  note v = egress_of_valid [OF l, of host]
  note k = ref_marks_known [OF l assms(3,5), of ?via]
  show "longest_match (map_of (rule_vias c)) (\<lambda>s. domain_suffix s host) ?rule" by (rule lookup_loop_correct)
  show "?via = (case ?rule of Some v \<Rightarrow> v | None \<Rightarrow> px_Default (cfg_Proxy c))" by (simp add: egress_of_def)
  show "ref_marks m (route toASCII rt host) \<noteq> []" using k(1) by (simp add: r)
  fix mark assume "mark \<in> set (ref_marks m (route toASCII rt host))"
  then show e: "mark \<in> egress_marks c ?via" using k(2) by (auto simp: r)
  show "known_egress c rt mark" using router_tables [OF l assms(4) egress_marks_tunnel(1) [OF l v e]] .
  show "?via \<notin> {[], ''direct''} \<and> ''direct'' \<notin> tunnel_names c \<longrightarrow> mark \<noteq> 0"
    using egress_marks_tunnel(2) [OF l v e] by blast
qed

definition sample_loaded_config :: Config where
  "sample_loaded_config = canonical_config Some (config_normalize sample_config)"

lemma sample_parsed:
  "parseConfig (\<lambda>_. True) Some rev (\<lambda>_. Inr sample_config) (\<lambda>_. EndOfFile :: unit trailing_document) [] = Inr sample_loaded_config"
  using validate_Inr [OF visits_rev, of "\<lambda>_. True" Some "config_normalize sample_config" sample_loaded_config] sample_wf
  by (simp add: parseConfig_def sample_loaded_config_def)

theorem loaded_config_starts_witness:
  "\<exists>hm (rt :: string router). NewHealthMonitor True sample_loaded_config True = Inr hm \<and> newRouterGeneration sample_loaded_config hm 1 = Inr rt"
  using loaded_config_starts [OF visits_rev sample_parsed] .

lemma sample_router: "\<exists>m (rt :: string router). NewHealthMonitor True sample_loaded_config True = Inr (Some m) \<and>
    monitor_reach (health_config sample_loaded_config True) m \<and> newRouterGeneration sample_loaded_config (Some m) 1 = Inr rt"
proof -
  have l: "loaded (\<lambda>_. True) Some sample_loaded_config" using parseConfig_loaded [OF visits_rev sample_parsed] .
  obtain hm where hm: "NewHealthMonitor True sample_loaded_config True = Inr hm" using NewHealthMonitor_total [OF l] by blast
  have "cfg_Groups sample_loaded_config \<noteq> []"
    by (simp add: sample_loaded_config_def canonical_config_def config_normalize_def sample_config_def)
  then obtain m where m: "hm = Some m" "health_New True (health_config sample_loaded_config True) = Inr m"
    using hm by (auto simp: NewHealthMonitor_def map_sum_Inr_iff)
  obtain rt where "newRouterGeneration sample_loaded_config hm 1 = Inr (rt :: string router)"
    using newDNSCacheForConfig_total [OF l, of 1, where 'e = string] by (auto simp: newRouterGeneration_def map_sum_Inr_iff)
  then show ?thesis using hm m monitor_reach.start [OF m(2)] by blast
qed

theorem router_egress_witness:
  "\<exists>m (rt :: string router). monitor_reach (health_config sample_loaded_config True) m \<and>
     ref_marks m (route Some rt ''test'') \<noteq> [] \<and> (\<forall>mark\<in>set (ref_marks m (route Some rt ''test'')). known_egress sample_loaded_config rt mark)"
proof -
  obtain m and rt :: "string router" where m: "NewHealthMonitor True sample_loaded_config True = Inr (Some m)"
    "monitor_reach (health_config sample_loaded_config True) m" "newRouterGeneration sample_loaded_config (Some m) 1 = Inr rt"
    using sample_router by blast
  from router_egress [OF visits_rev sample_parsed m(1) m(3) m(2) sample_hosts(5)] m(2) show ?thesis by blast
qed

end
