(* ===== verification/Proxy_Path.thy ===== *)
theory Proxy_Path
  imports Proxy_Router
begin

text \<open>
  The path of a proxied connection, \<open>src/cmd/sakhtar-wg/sni.go\<close>: the peek at the first bytes of
  the client, the choice of the egress, the resolution and the dial through each member of a
  group in turn, and the session that copies the bytes. Go's TLS and HTTP parsers, the network
  and the shared DNS cache are operations on the state of the world (\<open>Dns_Cache\<close> says which answers
  the cache can give); everything the source decides is a function. The lemmas show that no
  dial leaves the destination policy of its mark, when a failover connects, what is reported when
  it does not, and that the backend is sent exactly the bytes of the client.
\<close>

section \<open>Rejections\<close>

datatype proxyProtocol = protocolTLS | protocolHTTP
datatype listenerClass = classLocal | classNetwork

datatype rejectionReason =
  reasonSourceDenied | reasonParseError | reasonDestinationDenied | reasonOverload | reasonDialError

record rejectionKey =
  rk_Protocol :: proxyProtocol
  rk_Reason :: rejectionReason
  rk_ListenerClass :: listenerClass

record sessionAggregate =
  ag_Sessions :: "64 word"
  ag_ClientBytes :: "64 word"
  ag_BackendBytes :: "64 word"
  ag_TotalDuration :: duration

definition listenerAddrClass :: "net_addr \<Rightarrow> listenerClass" where
  "listenerAddrClass addr =
     (case addr of
        OtherAddr \<Rightarrow> classNetwork
      | TCPAddr bytes \<Rightarrow>
          (case AddrFromSlice bytes of
             Some ip \<Rightarrow> if IsLoopback (Unmap ip) then classLocal else classNetwork
           | None \<Rightarrow> classNetwork))"

text \<open>The counters of the server, under its metrics lock.\<close>

record server_metrics =
  sv_rejections :: "rejectionKey \<rightharpoonup> 64 word"
  sv_aggregates :: "string \<rightharpoonup> sessionAggregate"

definition reject :: "rejectionKey \<Rightarrow> server_metrics \<Rightarrow> server_metrics" where
  "reject key m =
     m\<lparr>sv_rejections := (sv_rejections m)(key \<mapsto> (case sv_rejections m key of None \<Rightarrow> 0 | Some n \<Rightarrow> n) + 1)\<rparr>"

definition rejectionSnapshot :: "server_metrics \<Rightarrow> (rejectionKey \<rightharpoonup> 64 word)" where
  "rejectionSnapshot m = sv_rejections m"


section \<open>Candidates\<close>

record ('w, 'x, 'conn) proxy_env =
  env_resolve :: "egress_resolver \<Rightarrow> Query \<Rightarrow> ('w, 'x) net_context \<Rightarrow> 'w \<Rightarrow> (dns_Result \<times> 'x net_error dns_error option) \<times> 'w"
  env_invalidate :: "Query \<Rightarrow> 'w \<Rightarrow> 'w"
  env_dial :: "int \<Rightarrow> duration \<Rightarrow> ('w, 'x net_error, 'conn) DialFunc"

text \<open>The selector and the connect counters are shared by the connections, like the world.\<close>

record 'w path_state =
  pa_selector :: RotatingSelector
  pa_metrics :: ConnectMetrics
  pa_world :: 'w

datatype 'x backend_error =
    DestinationDenied | DeniedAnswer | NoIPv4Candidate | NoResolver int
  | ResolveFailed "'x net_error dns_error" | DNSAnswer RCode string
  | DialFailed "'x net_error dial_error" | EgressContextDone "'x net_error"

text \<open>\<open>errors.Is(err, errDestinationDenied)\<close>; \<open>errDeniedAnswer\<close> wraps it.\<close>

fun is_denied :: "'x backend_error \<Rightarrow> bool" where
  "is_denied DestinationDenied \<longleftrightarrow> True"
| "is_denied DeniedAnswer \<longleftrightarrow> True"
| "is_denied _ \<longleftrightarrow> False"

definition path_query :: "'e router \<Rightarrow> int \<Rightarrow> string \<Rightarrow> Query" where
  "path_query rt mark host = dns_query (rt_dns rt) mark host"

definition ip_candidates :: "'e router \<Rightarrow> string \<Rightarrow> int \<Rightarrow> addr set \<Rightarrow> 'w path_state \<Rightarrow>
    ('x backend_error + addr list) \<times> 'w path_state"
where
  "ip_candidates rt host mark self st =
     (case ParseAddr host of
        None \<Rightarrow> (Inl DestinationDenied, st)
      | Some addr \<Rightarrow>
          if \<not> egressFamilyAllowed addr mark then (Inl NoIPv4Candidate, st)
          else let (selected, sel) = Select (pa_selector st) [addr]
                     (Some (\<lambda>candidate. addressAllowed (rt_destination rt) candidate mark self));
                   st' = st\<lparr>pa_selector := sel\<rparr>
               in if selected = [] then (Inl DestinationDenied, st') else (Inr selected, st'))"

definition name_candidates :: "('w, 'x, 'conn) proxy_env \<Rightarrow> ('w, 'x) net_context \<Rightarrow> 'e router \<Rightarrow> string \<Rightarrow> int \<Rightarrow> addr set \<Rightarrow>
    'w path_state \<Rightarrow> ('x backend_error + addr list) \<times> 'w path_state"
where
  "name_candidates env ctx rt host mark self st =
     (case rt_resolvers rt mark of
        None \<Rightarrow> (Inl (NoResolver mark), st)
      | Some resolver \<Rightarrow>
          let ((result, err), w) = env_resolve env resolver (path_query rt mark host) ctx (pa_world st);
              st1 = st\<lparr>pa_world := w\<rparr>
          in case err of
               Some e \<Rightarrow> (Inl (ResolveFailed e), st1)
             | None \<Rightarrow>
                 if res_RCode result \<noteq> RCodeSuccess then (Inl (DNSAnswer (res_RCode result) host), st1)
                 else let family = egressFamilyCandidates (res_Addrs result) mark
                   in if family = [] then (Inl NoIPv4Candidate, st1)
                      else let (allowed, sel) = Select (pa_selector st1) family
                                 (Some (\<lambda>candidate. addressAllowed (rt_destination rt) candidate mark self));
                               st2 = st1\<lparr>pa_selector := sel\<rparr>
                           in if allowed = []
                              then (Inl DeniedAnswer, st2\<lparr>pa_world := env_invalidate env (path_query rt mark host) w\<rparr>)
                              else (Inr allowed, st2))"

definition backendCandidates :: "('w, 'x, 'conn) proxy_env \<Rightarrow> ('w, 'x) net_context \<Rightarrow> 'e router \<Rightarrow> string \<Rightarrow> bool \<Rightarrow> int \<Rightarrow>
    addr set \<Rightarrow> 'w path_state \<Rightarrow> ('x backend_error + addr list) \<times> 'w path_state"
where
  "backendCandidates env ctx rt host isIP mark self st =
     (if isIP then ip_candidates rt host mark self st else name_candidates env ctx rt host mark self st)"


section \<open>Dialling through the egresses\<close>

definition dialBackend :: "('w, 'x, 'conn) proxy_env \<Rightarrow> ('w, 'x) net_context \<Rightarrow> 'e router \<Rightarrow> string \<Rightarrow> bool \<Rightarrow> string \<Rightarrow> int \<Rightarrow>
    addr set \<Rightarrow> 'w path_state \<Rightarrow> ('x backend_error + 'conn) \<times> 'w path_state"
where
  "dialBackend env ctx rt host isIP port mark self st =
     (case backendCandidates env ctx rt host isIP mark self st of
        (Inl e, st1) \<Rightarrow> (Inl e, st1)
      | (Inr candidates, st1) \<Rightarrow>
          let r = DialCandidates ctx candidates port (rt_connectAttemptCap rt) (rt_egressName rt mark)
                    (Some (env_dial env mark (rt_dialTimeout rt))) (Some (pa_metrics st1)) (pa_world st1);
              st2 = st1\<lparr>pa_metrics := the (dr_metrics r), pa_world := dr_world r\<rparr>
          in case dr_error r of
               Some e \<Rightarrow>
                 (Inl (DialFailed e),
                  if isIP then st2 else st2\<lparr>pa_world := env_invalidate env (path_query rt mark host) (pa_world st2)\<rparr>)
             | None \<Rightarrow> (Inr (the (dr_conn r)), st2))"

text \<open>The errors of the egresses with their names, and whether all of them were denials.\<close>

datatype 'x egress_error = EgressesFailed "(string \<times> 'x backend_error) list"
  | EgressesDenied "(string \<times> 'x backend_error) list" | NoEgress

definition egress_context :: "('w, 'x) net_context \<Rightarrow> nat \<Rightarrow> 'w \<Rightarrow> ('w, 'x) net_context" where
  "egress_context ctx left w =
     (case ctx_deadline ctx of
        None \<Rightarrow> ctx
      | Some deadline \<Rightarrow> WithTimeout ctx (BudgetSlice (time_sub deadline (ctx_now ctx w)) (int left)) w)"

fun egress_failure :: "(string \<times> 'x backend_error) list \<Rightarrow> (string \<times> 'x backend_error) list \<Rightarrow> 'x egress_error" where
  "egress_failure denied failed =
     (if failed \<noteq> [] then EgressesFailed failed else if denied \<noteq> [] then EgressesDenied denied else NoEgress)"

fun egress_loop :: "('w, 'x, 'conn) proxy_env \<Rightarrow> ('w, 'x) net_context \<Rightarrow> 'e router \<Rightarrow> string \<Rightarrow> bool \<Rightarrow> string \<Rightarrow> addr set \<Rightarrow>
    int list \<Rightarrow> (string \<times> 'x backend_error) list \<Rightarrow> (string \<times> 'x backend_error) list \<Rightarrow>
    'w path_state \<Rightarrow> ('x egress_error + 'conn) \<times> 'w path_state"
where
  "egress_loop env ctx rt host isIP port self [] denied failed st = (Inl (egress_failure denied failed), st)"
| "egress_loop env ctx rt host isIP port self (mark # marks) denied failed st =
     (case ctx_Err ctx (pa_world st) of
        Some e \<Rightarrow> (Inl (egress_failure denied (failed @ [([], EgressContextDone e)])), st)
      | None \<Rightarrow>
          (case dialBackend env (egress_context ctx (length (mark # marks)) (pa_world st)) rt host isIP port mark self st of
             (Inr conn, st') \<Rightarrow> (Inr conn, st')
           | (Inl e, st') \<Rightarrow>
               if is_denied e
               then egress_loop env ctx rt host isIP port self marks (denied @ [(rt_egressName rt mark, e)]) failed st'
               else egress_loop env ctx rt host isIP port self marks denied (failed @ [(rt_egressName rt mark, e)]) st'))"

definition dialEgresses :: "('w, 'x, 'conn) proxy_env \<Rightarrow> ('w, 'x) net_context \<Rightarrow> 'e router \<Rightarrow> string \<Rightarrow> bool \<Rightarrow> string \<Rightarrow> int list \<Rightarrow>
    addr set \<Rightarrow> 'w path_state \<Rightarrow> ('x egress_error + 'conn) \<times> 'w path_state"
where
  "dialEgresses env ctx rt host isIP port marks self st = egress_loop env ctx rt host isIP port self marks [] [] st"

section \<open>The session\<close>

type_synonym byte = "8 word"

datatype 'x write_error = WriteError "'x net_error" | ErrShortWrite

type_synonym ('w, 'x) writer = "byte list \<Rightarrow> 'w \<Rightarrow> (int \<times> 'x net_error option) \<times> 'w"

text \<open>
  \<open>writeAll\<close>: the loop writes what is left until nothing is, or an error or an empty write ends
  it. A writer that reports a count outside the data makes the slice expression panic: \<open>None\<close>.
\<close>

function write_loop :: "('w, 'x) writer \<Rightarrow> byte list \<Rightarrow> int \<Rightarrow> 'w \<Rightarrow> ((int \<times> 'x write_error option) \<times> 'w) option" where
  "write_loop write data sofar w =
     (if data = [] then Some ((sofar, None), w)
      else let ((n, err), w') = write data w
        in if n < 0 \<or> int (length data) < n then None
           else case err of
             Some e \<Rightarrow> Some ((sofar + n, Some (WriteError e)), w')
           | None \<Rightarrow>
               if n = 0 then Some ((sofar + n, Some ErrShortWrite), w')
               else write_loop write (drop (nat n) data) (sofar + n) w')"
  by pat_completeness auto
termination
  by (relation "measure (\<lambda>(write, data, sofar, w). length data)") auto

declare write_loop.simps [simp del]

definition writeAll :: "('w, 'x) writer \<Rightarrow> byte list \<Rightarrow> 'w \<Rightarrow> ((int \<times> 'x write_error option) \<times> 'w) option" where
  "writeAll write data w = write_loop write data 0 w"

record 'x directionResult =
  di_clientToBackend :: bool
  di_bytes :: int
  di_err :: "'x net_error option"

record connectionSessionResult =
  cs_ClientBytes :: "64 word"
  cs_BackendBytes :: "64 word"
  cs_Duration :: duration
  cs_Outcome :: string

fun is_canceled :: "'x net_error \<Rightarrow> bool"
and any_canceled :: "'x net_error list \<Rightarrow> bool" where
  "is_canceled Canceled \<longleftrightarrow> True"
| "is_canceled (JoinedErr es) \<longleftrightarrow> any_canceled es"
| "is_canceled _ \<longleftrightarrow> False"
| "any_canceled [] \<longleftrightarrow> False"
| "any_canceled (e # es) \<longleftrightarrow> is_canceled e \<or> any_canceled es"

definition sessionOutcome :: "('w, 'x) net_context \<Rightarrow> 'x net_error option \<Rightarrow> 'w \<Rightarrow> string" where
  "sessionOutcome ctx err w =
     (if ctx_Err ctx w \<noteq> None \<or> (case err of Some e \<Rightarrow> is_canceled e | None \<Rightarrow> False) then ''canceled'' else ''error'')"

definition write_net_error :: "'x write_error \<Rightarrow> 'x net_error option" where
  "write_net_error e = (case e of WriteError x \<Rightarrow> Some x | ErrShortWrite \<Rightarrow> None)"

definition count_direction :: "('w, 'x) net_context \<Rightarrow> 'w \<Rightarrow> 'x directionResult \<Rightarrow> connectionSessionResult \<Rightarrow> connectionSessionResult" where
  "count_direction ctx w copied r =
     (let r1 = (if di_clientToBackend copied
                then r\<lparr>cs_ClientBytes := cs_ClientBytes r + word_of_int (di_bytes copied)\<rparr>
                else r\<lparr>cs_BackendBytes := cs_BackendBytes r + word_of_int (di_bytes copied)\<rparr>)
      in case di_err copied of
           Some e \<Rightarrow> r1\<lparr>cs_Outcome := sessionOutcome ctx (Some e) w\<rparr>
         | None \<Rightarrow> r1)"

text \<open>
  The operations of the two connections: the writer of the backend, and the two copies, which
  yield their results in the order of their ends. The write of the prefix comes before them.
\<close>

record ('w, 'x, 'conn) session_env =
  se_write :: "'conn \<Rightarrow> ('w, 'x) writer"
  se_copy :: "'conn \<Rightarrow> duration \<Rightarrow> 'w \<Rightarrow> ('x directionResult \<times> 'x directionResult) \<times> 'w"

definition runConnectionSession :: "('w, 'x, 'conn) session_env \<Rightarrow> ('w, 'x) net_context \<Rightarrow> 'conn \<Rightarrow> byte list \<Rightarrow> duration \<Rightarrow> 'w \<Rightarrow>
    (connectionSessionResult \<times> 'w) option"
where
  "runConnectionSession se ctx backend prefix idle w0 =
     (let started = ctx_now ctx w0;
          result = \<lparr>cs_ClientBytes = 0, cs_BackendBytes = 0, cs_Duration = 0, cs_Outcome = ''completed''\<rparr>
      in case (if prefix \<noteq> [] then writeAll (se_write se backend) prefix w0 else Some ((0, None), w0)) of
           None \<Rightarrow> None
         | Some ((n, Some e), w1) \<Rightarrow>
             Some (result\<lparr>cs_ClientBytes := word_of_int n, cs_Outcome := sessionOutcome ctx (write_net_error e) w1,
                          cs_Duration := time_sub (ctx_now ctx w1) started\<rparr>, w1)
         | Some ((n, None), w1) \<Rightarrow>
             let ((one, two), w2) = se_copy se backend idle w1;
                 r = count_direction ctx w2 two (count_direction ctx w2 one (result\<lparr>cs_ClientBytes := word_of_int n\<rparr>))
             in Some (r\<lparr>cs_Duration := time_sub (ctx_now ctx w2) started\<rparr>, w2))"

definition zero_aggregate :: sessionAggregate where
  "zero_aggregate = \<lparr>ag_Sessions = 0, ag_ClientBytes = 0, ag_BackendBytes = 0, ag_TotalDuration = 0\<rparr>"

definition recordSession :: "connectionSessionResult \<Rightarrow> server_metrics \<Rightarrow> server_metrics" where
  "recordSession r m =
     (let a = (case sv_aggregates m (cs_Outcome r) of None \<Rightarrow> zero_aggregate | Some a \<Rightarrow> a)
      in m\<lparr>sv_aggregates := (sv_aggregates m)(cs_Outcome r \<mapsto>
             \<lparr>ag_Sessions = ag_Sessions a + 1, ag_ClientBytes = ag_ClientBytes a + cs_ClientBytes r,
              ag_BackendBytes = ag_BackendBytes a + cs_BackendBytes r,
              ag_TotalDuration = wrap64 (ag_TotalDuration a + cs_Duration r)\<rparr>)\<rparr>)"


section \<open>The handlers\<close>

text \<open>\<open>None\<close> is a panic: an empty failover order, or a writer that breaks its contract.\<close>

definition pipe :: "('w, 'x, 'conn) proxy_env \<Rightarrow> ('w, 'x, 'conn) session_env \<Rightarrow> (string \<Rightarrow> string option) \<Rightarrow> Monitor \<Rightarrow>
    ('w, 'x) net_context \<Rightarrow> 'e router \<Rightarrow> byte list \<Rightarrow> string \<Rightarrow> bool \<Rightarrow> string \<Rightarrow> addr set \<Rightarrow> rejectionKey \<Rightarrow>
    server_metrics \<times> 'w path_state \<Rightarrow> (server_metrics \<times> 'w path_state) option"
where
  "pipe env se toASCII hm ctx rt prefix host isIP port self labels mst =
     (let (m, st) = mst; marks = ref_marks hm (route toASCII rt host); mark = marks ! 0
      in if marks = [] then None
         else if \<not> requestedHostAllowed (rt_destination rt) host isIP mark self
         then Some (reject (labels\<lparr>rk_Reason := reasonDestinationDenied\<rparr>) m, st)
         else case dialEgresses env (WithTimeout ctx (rt_dialTimeout rt) (pa_world st)) rt host isIP port marks self st of
           (Inl e, st1) \<Rightarrow>
             if ctx_Err ctx (pa_world st1) \<noteq> None then Some (m, st1)
             else Some (reject (labels\<lparr>rk_Reason := (case e of EgressesDenied _ \<Rightarrow> reasonDestinationDenied | _ \<Rightarrow> reasonDialError)\<rparr>) m, st1)
         | (Inr backend, st1) \<Rightarrow>
             (case runConnectionSession se ctx backend prefix (rt_idleTimeout rt) (pa_world st1) of
                None \<Rightarrow> None
              | Some (result, w) \<Rightarrow> Some (recordSession result m, st1\<lparr>pa_world := w\<rparr>)))"

text \<open>
  The peek at a limited stream: a parser reads from the first \<open>limit + 1\<close> bytes and says how many
  it took; the buffer keeps them. \<open>bs\<close> is what the client sends.
\<close>

datatype 'p peek_error = PeekFailed 'p | PeekTooLarge | PeekNoHost

type_synonym 'p peek_parser = "byte list \<Rightarrow> ('p + string) \<times> nat"

definition peek_limited :: "'p peek_parser \<Rightarrow> int \<Rightarrow> byte list \<Rightarrow> 'p peek_error + string \<times> byte list" where
  "peek_limited parse limit bs =
     (let limited = take (nat (limit + 1)) bs; (r, n) = parse limited; buffer = take n limited
      in case r of
           Inl e \<Rightarrow> Inl (PeekFailed e)
         | Inr x \<Rightarrow> if limit < int (length buffer) then Inl PeekTooLarge else Inr (x, buffer))"

definition peekClientHelloLimit :: "'p peek_parser \<Rightarrow> int \<Rightarrow> byte list \<Rightarrow> 'p peek_error + string \<times> byte list" where
  "peekClientHelloLimit parse limit bs = peek_limited parse limit bs"

definition peekHTTPHostLimit :: "'p peek_parser \<Rightarrow> int \<Rightarrow> byte list \<Rightarrow> 'p peek_error + string \<times> byte list" where
  "peekHTTPHostLimit parse limit bs =
     (case peek_limited parse limit bs of
        Inl e \<Rightarrow> Inl e
      | Inr (h, buffer) \<Rightarrow> if h = [] then Inl PeekNoHost else Inr (h, buffer))"

text \<open>
  The handlers: \<open>rt\<close> is the router of the accept, which limits the peek, and \<open>current\<close> the one that
  \<open>pipe\<close> loads; \<open>bs\<close> is what the client sends, and the state is the one after the peek.
\<close>

definition handleTLS :: "('w, 'x, 'conn) proxy_env \<Rightarrow> ('w, 'x, 'conn) session_env \<Rightarrow> (string \<Rightarrow> string option) \<Rightarrow> Monitor \<Rightarrow>
    'p peek_parser \<Rightarrow> ('w, 'x) net_context \<Rightarrow> 'e router \<Rightarrow> 'e router \<Rightarrow> byte list \<Rightarrow> addr set \<Rightarrow> rejectionKey \<Rightarrow>
    server_metrics \<times> 'w path_state \<Rightarrow> (server_metrics \<times> 'w path_state) option"
where
  "handleTLS env se toASCII hm parse ctx rt current bs self labels mst =
     (let (m, st) = mst; refuse = Some (reject (labels\<lparr>rk_Reason := reasonParseError\<rparr>) m, st);
          quiet = (if ctx_Err ctx (pa_world st) \<noteq> None then Some (m, st) else refuse)
      in case peekClientHelloLimit parse (rt_maxClientHelloBytes rt) bs of
           Inl e \<Rightarrow> quiet
         | Inr (name, prefix) \<Rightarrow>
             if name = [] then quiet
             else (case canonicalHost toASCII name False of
                     Inl e \<Rightarrow> refuse
                   | Inr (host, isIP) \<Rightarrow> pipe env se toASCII hm ctx current prefix host isIP ''443'' self labels mst))"

definition handleHTTP :: "('w, 'x, 'conn) proxy_env \<Rightarrow> ('w, 'x, 'conn) session_env \<Rightarrow> (string \<Rightarrow> string option) \<Rightarrow> Monitor \<Rightarrow>
    'p peek_parser \<Rightarrow> ('w, 'x) net_context \<Rightarrow> 'e router \<Rightarrow> 'e router \<Rightarrow> byte list \<Rightarrow> addr set \<Rightarrow> rejectionKey \<Rightarrow>
    server_metrics \<times> 'w path_state \<Rightarrow> (server_metrics \<times> 'w path_state) option"
where
  "handleHTTP env se toASCII hm parse ctx rt current bs self labels mst =
     (let (m, st) = mst; refuse = Some (reject (labels\<lparr>rk_Reason := reasonParseError\<rparr>) m, st)
      in case peekHTTPHostLimit parse (rt_maxHTTPHeaderBytes rt) bs of
           Inl e \<Rightarrow> if ctx_Err ctx (pa_world st) \<noteq> None then Some (m, st) else refuse
         | Inr (raw, prefix) \<Rightarrow>
             (case canonicalHost toASCII raw True of
                Inl e \<Rightarrow> refuse
              | Inr (host, isIP) \<Rightarrow> pipe env se toASCII hm ctx current prefix host isIP ''80'' self labels mst))"

section \<open>The dials of a connection\<close>

text \<open>
  Where a connection may be dialled through a mark, and an environment whose network is replaced
  by something else everywhere else.
\<close>

definition may_dial :: "'e router \<Rightarrow> addr set \<Rightarrow> string \<Rightarrow> int \<Rightarrow> string \<Rightarrow> bool" where
  "may_dial rt self port mark address \<longleftrightarrow>
     (\<exists>a. reachable (rt_destination rt) mark self a \<and> (mark \<noteq> 0 \<longrightarrow> Is4 a) \<and> address = JoinHostPort (addr_string a) port)"

definition confined :: "'e router \<Rightarrow> addr set \<Rightarrow> string \<Rightarrow> (int \<Rightarrow> duration \<Rightarrow> ('w, 'x net_error, 'conn) DialFunc) \<Rightarrow>
    ('w, 'x, 'conn) proxy_env \<Rightarrow> ('w, 'x, 'conn) proxy_env"
where
  "confined rt self port elsewhere env =
     env\<lparr>env_dial := (\<lambda>mark timeout d net address w.
       if may_dial rt self port mark address then env_dial env mark timeout d net address w
       else elsewhere mark timeout d net address w)\<rparr>"

lemma confined_fields:
  "env_resolve (confined rt self port elsewhere env) = env_resolve env"
  "env_invalidate (confined rt self port elsewhere env) = env_invalidate env"
  by (simp_all add: confined_def)

lemma backendCandidates_confined:
  "backendCandidates (confined rt self port elsewhere env) ctx rt' host isIP mark self' st =
   backendCandidates env ctx rt' host isIP mark self' st"
  unfolding backendCandidates_def name_candidates_def confined_fields ..

lemma selected_family:
  assumes "a \<in> set (fst (Select s input (Some (\<lambda>a. addressAllowed (rt_destination rt) a mark self))))"
    and "\<forall>b\<in>set input. egressFamilyAllowed b mark"
  shows "may_dial rt self port mark (JoinHostPort (addr_string a) port)"
proof -
  have "reachable (rt_destination rt) mark self a" using rotating.selected_reachable [OF assms(1)] .
  moreover have "mark \<noteq> 0 \<longrightarrow> Is4 a" using rotating.screened [OF assms(1)] assms(2) by (auto simp: egressFamilyAllowed_def)
  ultimately show ?thesis by (auto simp: may_dial_def)
qed

lemma egressFamilyCandidates_allowed: "b \<in> set (egressFamilyCandidates addrs mark) \<Longrightarrow> egressFamilyAllowed b mark"
  by (auto simp: egressFamilyCandidates_def egressFamilyAllowed_def split: if_splits)

lemma candidates_may_dial:
  assumes "backendCandidates env ctx rt host isIP mark self st = (Inr cs, st')" "a \<in> set cs"
  shows "may_dial rt self port mark (JoinHostPort (addr_string a) port)"
proof (cases isIP)
  case True
  then obtain addr where addr: "egressFamilyAllowed addr mark"
    "cs = fst (Select (pa_selector st) [addr] (Some (\<lambda>a. addressAllowed (rt_destination rt) a mark self)))"
    using assms(1) by (auto simp: backendCandidates_def ip_candidates_def Let_def split: option.splits if_splits prod.splits)
  then show ?thesis using selected_family [of a "pa_selector st" "[addr]" rt mark self port] assms(2) by simp
next
  case False
  then obtain s addrs where "cs = fst (Select s (egressFamilyCandidates addrs mark)
      (Some (\<lambda>a. addressAllowed (rt_destination rt) a mark self)))"
    using assms(1) by (auto simp: backendCandidates_def name_candidates_def Let_def split: option.splits if_splits prod.splits)
      (metis fst_conv)
  then show ?thesis
    using selected_family [of a s "egressFamilyCandidates addrs mark" rt mark self port] assms(2) egressFamilyCandidates_allowed
    by blast
qed

lemma dialBackend_confined:
  "dialBackend (confined rt self port elsewhere env) ctx rt host isIP port mark self st =
   dialBackend env ctx rt host isIP port mark self st"
proof (cases "backendCandidates env ctx rt host isIP mark self st")
  case (Pair r st1)
  show ?thesis
  proof (cases r)
    case (Inl e)
    then show ?thesis using Pair by (simp add: dialBackend_def backendCandidates_confined)
  next
    case (Inr cs)
    have "DialCandidates ctx cs port cap egress (Some (env_dial (confined rt self port elsewhere env) mark T)) m w =
        DialCandidates ctx cs port cap egress (Some (env_dial env mark T)) m w" for cap egress T m w
      using candidates_may_dial [OF Pair [unfolded Inr]] by (intro DialCandidates_only) (simp add: confined_def)
    then show ?thesis
      unfolding dialBackend_def backendCandidates_confined confined_fields Pair Inr prod.case sum.case by simp
  qed
qed

lemma egress_loop_confined:
  "egress_loop (confined rt self port elsewhere env) ctx rt host isIP port self marks denied failed st =
   egress_loop env ctx rt host isIP port self marks denied failed st"
  by (induction env ctx rt host isIP port self marks denied failed st rule: egress_loop.induct)
    (simp_all add: dialBackend_confined split: option.split prod.split sum.split)

lemma pipe_confined:
  "pipe (confined rt self port elsewhere env) se toASCII hm ctx rt prefix host isIP port self labels mst =
   pipe env se toASCII hm ctx rt prefix host isIP port self labels mst"
  unfolding pipe_def dialEgresses_def egress_loop_confined ..

text \<open>
  (C1) The proxy cannot be made to reach a forbidden address. Handle a TLS or an HTTP connection
  with any client bytes, any DNS answers, any group of egresses and any behaviour of the network:
  the result, the counters and the effect on the world stay the same when the network is
  replaced by anything else on every address that may not be dialled through the mark in use.
  An address may be dialled through a mark only if it is valid, unmapped and zone-free, not
  unspecified, multicast or one of the daemon's own, in a private or special range only if an
  exception of that very mark covers it, and IPv4 when the mark is a tunnel's. This holds for each
  member that a failover tries, not only for the first.
\<close>

theorem proxy_confined:
  fixes env :: "('w, 'x, 'conn) proxy_env"
  shows "handleTLS (confined current self ''443'' elsewhere env) se toASCII hm parse ctx rt current bs self labels mst =
         handleTLS env se toASCII hm parse ctx rt current bs self labels mst \<and>
         handleHTTP (confined current self ''80'' elsewhere env) se toASCII hm parse ctx rt current bs self labels mst =
         handleHTTP env se toASCII hm parse ctx rt current bs self labels mst"
  unfolding handleTLS_def handleHTTP_def pipe_confined by simp

section \<open>Failover\<close>

lemma egress_loop_denied:
  assumes "egress_loop env ctx rt host isIP port self marks denied failed st = (Inl (EgressesDenied es), st')"
    and "\<forall>x\<in>set denied. is_denied (snd x)"
  shows "failed = [] \<and> map fst es = map fst denied @ map (rt_egressName rt) marks \<and> (\<forall>x\<in>set es. is_denied (snd x))"
  using assms
proof (induction env ctx rt host isIP port self marks denied failed st rule: egress_loop.induct)
  case (2 env ctx rt host isIP port self mark marks denied failed st)
  show ?case
  proof (cases "ctx_Err ctx (pa_world st)")
    case None
    obtain r st1 where d: "dialBackend env (egress_context ctx (length (mark # marks)) (pa_world st)) rt host isIP port mark self st = (r, st1)"
      by fastforce
    show ?thesis
    proof (cases r)
      case (Inl e)
      note IH = "2.IH" [OF None d [symmetric] Inl]
      show ?thesis
      proof (cases "is_denied e")
        case True
        then show ?thesis using IH(1) [OF True] "2.prems" None d Inl by simp
      next
        case False
        then show ?thesis using IH(2) [OF False] "2.prems" None d Inl by simp
      qed
    qed (use "2.prems" None d in simp)
  qed (use "2.prems" in \<open>auto split: if_splits\<close>)
qed (auto split: if_splits)


text \<open>What the network promises about time: no operation turns the clock back or outlives its deadline.\<close>

definition timely_env :: "('w \<Rightarrow> gotime) \<Rightarrow> ('w, 'x, 'conn) proxy_env \<Rightarrow> bool" where
  "timely_env clock env \<longleftrightarrow>
     (\<forall>r q ctx w d. ctx_deadline ctx = Some d \<and> clock w \<le> d \<longrightarrow>
        clock w \<le> clock (snd (env_resolve env r q ctx w)) \<and> clock (snd (env_resolve env r q ctx w)) \<le> d) \<and>
     (\<forall>mark T d net a w. clock w \<le> d \<longrightarrow>
        clock w \<le> clock (snd (env_dial env mark T (Some d) net a w)) \<and> clock (snd (env_dial env mark T (Some d) net a w)) \<le> d) \<and>
     (\<forall>q w. clock (env_invalidate env q w) = clock w)"

lemma timely_envD:
  assumes "timely_env clock env"
  shows "ctx_deadline ctx = Some d \<Longrightarrow> clock w \<le> d \<Longrightarrow> env_resolve env r q ctx w = (x, w') \<Longrightarrow> clock w \<le> clock w' \<and> clock w' \<le> d"
    and "clock w \<le> d \<Longrightarrow> env_dial env mark T (Some d) net a w = (y, w') \<Longrightarrow> clock w \<le> clock w' \<and> clock w' \<le> d"
    and "clock (env_invalidate env q w) = clock w"
proof -
  show "ctx_deadline ctx = Some d \<Longrightarrow> clock w \<le> d \<Longrightarrow> env_resolve env r q ctx w = (x, w') \<Longrightarrow> clock w \<le> clock w' \<and> clock w' \<le> d"
    using assms unfolding timely_env_def by (metis snd_conv)
  show "clock w \<le> d \<Longrightarrow> env_dial env mark T (Some d) net a w = (y, w') \<Longrightarrow> clock w \<le> clock w' \<and> clock w' \<le> d"
    using assms unfolding timely_env_def by (metis snd_conv)
  show "clock (env_invalidate env q w) = clock w" using assms unfolding timely_env_def by blast
qed

lemma BudgetSlice_nonneg: "0 \<le> BudgetSlice r n"
  by (auto simp: BudgetSlice_def minAttemptTimeout_def second_def)

lemma dial_loop_punctual:
  assumes "timely_env clock env" "alive_until clock D ctx" "clock w \<le> D"
  shows "clock w \<le> clock (dr_world (dial_loop ctx port egress (env_dial env mark T) i cs errs m w)) \<and>
         clock (dr_world (dial_loop ctx port egress (env_dial env mark T) i cs errs m w)) \<le> D"
  using assms(3)
proof (induction cs arbitrary: i errs m w)
  case (Cons c cs)
  let ?d = "min D (clock w + BudgetSlice (time_sub D (clock w)) (int (length (c # cs))))"
  have d: "attempt_deadline ctx (length (c # cs)) w = Some ?d" "clock w \<le> ?d"
    using assms(2) Cons.prems BudgetSlice_nonneg by (simp_all add: attempt_deadline_def alive_until_def Let_def)
  obtain r w' where r: "env_dial env mark T (Some ?d) ''tcp'' (JoinHostPort (addr_string c) port) w = (r, w')" by fastforce
  have w': "clock w \<le> clock w'" "clock w' \<le> D" using timely_envD(2) [OF assms(1) d(2) r] by simp_all
  show ?case
  proof (cases "ctx_Err ctx w")
    case (Some e)
    then show ?thesis using Cons.prems by simp
  next
    case None
    show ?thesis
    proof (cases r)
      case (Inl e)
      then show ?thesis
        using None d(1) r w' Cons.IH [OF w'(2), of "i + 1" "errs @ [AttemptFailed (JoinHostPort (addr_string c) port) e]"
            "map_option (connect_record False egress) m"] by (simp add: Let_def)
    next
      case (Inr conn)
      then show ?thesis using None d(1) r w' by (simp add: Let_def)
    qed
  qed
qed simp

lemma DialCandidates_punctual:
  assumes "timely_env clock env" "alive_until clock D ctx" "clock w \<le> D"
  shows "clock w \<le> clock (dr_world (DialCandidates ctx cs port cap egress (Some (env_dial env mark T)) m w)) \<and>
         clock (dr_world (DialCandidates ctx cs port cap egress (Some (env_dial env mark T)) m w)) \<le> D"
  using dial_loop_punctual [OF assms] assms(3) by (simp add: DialCandidates_def)

text \<open>Every part of the path keeps the selector's cap and moves the clock forward, within the deadline.\<close>

definition steady :: "('w \<Rightarrow> gotime) \<Rightarrow> gotime \<Rightarrow> 'w path_state \<Rightarrow> 'w path_state \<Rightarrow> bool" where
  "steady clock D st st' \<longleftrightarrow> MaxAttempts (pa_selector st') = MaxAttempts (pa_selector st) \<and>
     clock (pa_world st) \<le> clock (pa_world st') \<and> clock (pa_world st') \<le> D"

lemma Select_cap: "MaxAttempts (snd (Select s input ok)) = MaxAttempts s"
  by (simp add: Select_def Let_def case_prod_unfold)

lemma backendCandidates_steady:
  assumes "timely_env clock env" "alive_until clock D ctx" "clock (pa_world st) \<le> D"
    and "backendCandidates env ctx rt host isIP mark self st = (r, st')"
  shows "steady clock D st st'"
proof -
  have "clock (pa_world st) \<le> clock w' \<and> clock w' \<le> D" if "env_resolve env res q ctx (pa_world st) = (x, w')" for res q x w'
    using timely_envD(1) [OF assms(1) _ assms(3) that] assms(2) by (simp add: alive_until_def)
  then show ?thesis
    using assms(3,4) Select_cap timely_envD(3) [OF assms(1)]
    by (cases isIP) (auto simp: backendCandidates_def ip_candidates_def name_candidates_def steady_def Let_def
        split: option.splits if_splits prod.splits intro: sym [OF Select_cap] dest: arg_cong [of _ _ "\<lambda>x. MaxAttempts (snd x)"])
qed

lemma dialBackend_steady:
  assumes "timely_env clock env" "alive_until clock D ctx" "clock (pa_world st) \<le> D"
    and "dialBackend env ctx rt host isIP port mark self st = (r, st')"
  shows "steady clock D st st'"
proof -
  obtain c st1 where c: "backendCandidates env ctx rt host isIP mark self st = (c, st1)" by fastforce
  have s: "steady clock D st st1" using backendCandidates_steady [OF assms(1-3) c] .
  show ?thesis
  proof (cases c)
    case (Inl e)
    then show ?thesis using assms(4) c s by (simp add: dialBackend_def)
  next
    case (Inr cs)
    let ?r = "DialCandidates ctx cs port (rt_connectAttemptCap rt) (rt_egressName rt mark)
      (Some (env_dial env mark (rt_dialTimeout rt))) (Some (pa_metrics st1)) (pa_world st1)"
    have "clock (pa_world st1) \<le> clock (dr_world ?r) \<and> clock (dr_world ?r) \<le> D"
      using DialCandidates_punctual [OF assms(1,2)] s by (simp add: steady_def)
    moreover have "pa_selector st' = pa_selector st1" "clock (pa_world st') = clock (dr_world ?r)"
      using assms(4) c Inr timely_envD(3) [OF assms(1)]
      by (auto simp: dialBackend_def Let_def split: option.splits if_splits)
    ultimately show ?thesis using s by (simp add: steady_def)
  qed
qed

text \<open>
  An egress through which a name is reachable: its resolver answers within a second with an
  address that the policy and the family of the egress allow, and every address that may be
  dialled through it accepts within a second.
\<close>

definition healthy_egress :: "('w \<Rightarrow> gotime) \<Rightarrow> ('w, 'x, 'conn) proxy_env \<Rightarrow> 'e router \<Rightarrow> string \<Rightarrow> string \<Rightarrow> addr set \<Rightarrow> int \<Rightarrow> bool" where
  "healthy_egress clock env rt host port self mark \<longleftrightarrow>
     (\<exists>res. rt_resolvers rt mark = Some res \<and>
       (\<forall>ctx w d. ctx_deadline ctx = Some d \<and> clock w + second \<le> d \<longrightarrow>
         (\<exists>r w'. env_resolve env res (path_query rt mark host) ctx w = ((r, None), w') \<and> clock w' \<le> clock w + second \<and>
            res_RCode r = RCodeSuccess \<and>
            (\<exists>b\<in>set (res_Addrs r). egressFamilyAllowed b mark \<and> addressAllowed (rt_destination rt) b mark self)))) \<and>
     (\<forall>address d w T. may_dial rt self port mark address \<and> clock w + second \<le> d \<longrightarrow>
        (\<exists>conn. fst (env_dial env mark T (Some d) ''tcp'' address w) = Inr conn))"

lemma Select_nonempty:
  assumes "0 < MaxAttempts s" "b \<in> set input" "addressAllowed p b mark self"
  shows "fst (Select s input (Some (\<lambda>a. addressAllowed p a mark self))) \<noteq> []"
proof -
  let ?ok = "\<lambda>a. addressAllowed p a mark self"
  have b: "IsValid b" "Zone b = []" "?ok (Unmap b)"
    using assms(3) by (simp_all add: addressAllowed_iff Unmap_facts)
  then have a: "Unmap b \<in> admitted (Some ?ok) input" using assms(2) by (auto simp: admitted_def)
  obtain v4 v6 where l: "select_loop (Some ?ok) input {} [] [] = (v4, v6)" by fastforce
  let ?ord = "family_order (Strategy s) (cursor s) (rotate (unat (cursor s)) v4) (rotate (unat (cursor s)) v6)"
  have "?ord \<noteq> []" using family_order_admitted [OF l refl, of "Strategy s" "cursor s" "unat (cursor s)"] a by auto
  then show ?thesis using assms(1) by (simp add: Select_eq [OF assms(1) l])
qed

lemma dial_loop_first:
  assumes "alive_until clock D ctx" "clock w + second \<le> D" "cs \<noteq> []" "D - clock w \<le> maxInt64"
    and "\<And>d. clock w + second \<le> d \<Longrightarrow> \<exists>conn. fst (dial (Some d) ''tcp'' (JoinHostPort (addr_string (hd cs)) port) w) = Inr conn"
  shows "\<exists>conn. dr_conn (dial_loop ctx port egress dial i cs errs m w) = Some conn \<and>
    dr_error (dial_loop ctx port egress dial i cs errs m w) = None"
proof -
  obtain a as where cs: "cs = a # as" using assms(3) by (cases cs) auto
  have "clock w < D" using assms(2) second_pos by linarith
  then have ok: "ctx_Err ctx w = None" using assms(1) by (simp add: alive_until_def)
  have "time_sub D (clock w) = D - clock w"
    using \<open>clock w < D\<close> assms(4) by (simp add: time_sub_def minInt64_def)
  then have d: "attempt_deadline ctx (length cs) w = Some (min D (clock w + BudgetSlice (D - clock w) (int (length cs))))"
    using assms(1) by (simp add: attempt_deadline_def alive_until_def Let_def)
  have "second \<le> BudgetSlice (D - clock w) (int (length cs))"
    using assms(2) second_pos by (auto simp: BudgetSlice_def minAttemptTimeout_def Let_def)
  then have "clock w + second \<le> min D (clock w + BudgetSlice (D - clock w) (int (length cs)))" using assms(2) by simp
  from assms(5) [OF this] show ?thesis using ok d by (auto simp: cs Let_def split: prod.splits sum.splits)
qed

lemma healthy_dialBackend:
  assumes "timely_env clock env" "alive_until clock D ctx" "clock (pa_world st) + 2 * second \<le> D" "D - clock (pa_world st) \<le> maxInt64"
    and "healthy_egress clock env rt host port self mark" "0 < MaxAttempts (pa_selector st)" "0 < rt_connectAttemptCap rt"
  shows "\<exists>conn. fst (dialBackend env ctx rt host False port mark self st) = Inr conn"
proof -
  let ?w = "pa_world st" and ?ok = "Some (\<lambda>a. addressAllowed (rt_destination rt) a mark self)"
  obtain res where res: "rt_resolvers rt mark = Some res"
    "\<forall>ctx w d. ctx_deadline ctx = Some d \<and> clock w + second \<le> d \<longrightarrow>
       (\<exists>r w'. env_resolve env res (path_query rt mark host) ctx w = ((r, None), w') \<and> clock w' \<le> clock w + second \<and>
          res_RCode r = RCodeSuccess \<and>
          (\<exists>b\<in>set (res_Addrs r). egressFamilyAllowed b mark \<and> addressAllowed (rt_destination rt) b mark self))"
    using assms(5) unfolding healthy_egress_def by blast
  have b: "clock ?w + second \<le> D" using assms(3) second_pos by linarith
  obtain r w b where r: "env_resolve env res (path_query rt mark host) ctx ?w = ((r, None), w)" "clock w \<le> clock ?w + second"
    "res_RCode r = RCodeSuccess" "b \<in> set (res_Addrs r)" "egressFamilyAllowed b mark" "addressAllowed (rt_destination rt) b mark self"
    using res(2) assms(2) b unfolding alive_until_def by blast
  let ?fam = "egressFamilyCandidates (res_Addrs r) mark"
  have fam: "b \<in> set ?fam" using r(4,5) by (auto simp: egressFamilyCandidates_def)
  obtain cs sel where sel: "Select (pa_selector st) ?fam ?ok = (cs, sel)" by fastforce
  have cs: "cs \<noteq> []" using Select_nonempty [OF assms(6) fam r(6)] sel by simp
  let ?st = "st\<lparr>pa_world := w, pa_selector := sel\<rparr>"
  have c: "backendCandidates env ctx rt host False mark self st = (Inr cs, ?st)"
    using res(1) r(1,3) fam sel cs by (auto simp: backendCandidates_def name_candidates_def Let_def)
  let ?cs = "take (nat (rt_connectAttemptCap rt)) cs"
  have hd: "?cs \<noteq> []" "hd ?cs \<in> set cs" using cs assms(7) by (auto simp: hd_take)
  have tw: "clock w + second \<le> D" "D - clock w \<le> maxInt64"
    using r(2) assms(3,4) timely_envD(1) [OF assms(1) _ _ r(1), of D] assms(2) b second_pos by (auto simp: alive_until_def)
  have "\<exists>conn. fst (env_dial env mark T (Some d) ''tcp'' (JoinHostPort (addr_string (hd ?cs)) port) w) = Inr conn"
    if "clock w + second \<le> d" for d T
    using assms(5) candidates_may_dial [OF c hd(2), of port] that unfolding healthy_egress_def by blast
  note dial = dial_loop_first [OF assms(2) tw(1) hd(1) tw(2), where dial = "env_dial env mark (rt_dialTimeout rt)", OF this]
  have "dr_error (DialCandidates ctx cs port (rt_connectAttemptCap rt) e (Some (env_dial env mark (rt_dialTimeout rt))) m w) = None" for e m
    using dial [of e 0 "[]" m] assms(7) by (auto simp: DialCandidates_def)
  then show ?thesis by (simp add: dialBackend_def c Let_def)
qed

lemma egress_context_alive:
  assumes "alive_until clock D ctx" "int n * second \<le> D - clock w" "0 < n" "D - clock w \<le> maxInt64"
  shows "alive_until clock (clock w + (D - clock w) div int n) (egress_context ctx n w)"
  using sliceOf_alive [OF assms] by (simp add: egress_context_def sliceOf_def split: option.split)

lemma egress_loop_connects:
  assumes "timely_env clock env" "alive_until clock D ctx" "mark \<in> set marks"
    and "healthy_egress clock env rt host port self mark" "0 < MaxAttempts (pa_selector st)" "0 < rt_connectAttemptCap rt"
    and "int (length marks) * (2 * second) \<le> D - clock (pa_world st)" "D - clock (pa_world st) \<le> maxInt64"
  shows "\<exists>conn. fst (egress_loop env ctx rt host False port self marks denied failed st) = Inr conn"
  using assms(3,5,7,8)
proof (induction marks arbitrary: denied failed st)
  case (Cons x marks)
  let ?n = "length (x # marks)" and ?w = "pa_world st" and ?rem = "D - clock (pa_world st)"
  have sh: "2 * second \<le> ?rem div int ?n" "int (length marks) * (2 * second) \<le> ?rem - ?rem div int ?n"
    using div_share [of ?n "2 * second" ?rem] Cons.prems(3) by simp_all
  have "int ?n * second \<le> int ?n * (2 * second)" using second_pos by (intro mult_left_mono) simp_all
  then have budget: "int ?n * second \<le> ?rem" using Cons.prems(3) by linarith
  have le: "?rem div int ?n \<le> ?rem"
    using sh(2) mult_nonneg_nonneg [of "int (length marks)" "2 * second"] second_pos by linarith
  let ?D = "clock ?w + ?rem div int ?n" and ?ctx = "egress_context ctx ?n ?w"
  have al: "alive_until clock ?D ?ctx" using egress_context_alive [OF assms(2) budget] Cons.prems(4) by simp
  have "clock ?w < D" using sh(1) le second_pos by linarith
  then have ok: "ctx_Err ctx ?w = None" using assms(2) by (simp add: alive_until_def)
  obtain r st' where d: "dialBackend env ?ctx rt host False port x self st = (r, st')" by fastforce
  have now: "clock ?w \<le> ?D" using sh(1) second_pos by linarith
  have s: "steady clock ?D st st'" using dialBackend_steady [OF assms(1) al now d] .
  show ?case
  proof (cases r)
    case (Inr conn)
    then show ?thesis using ok d by simp
  next
    case (Inl e)
    have "x \<noteq> mark"
    proof
      assume "x = mark"
      have "?D - clock ?w \<le> maxInt64" using le Cons.prems(4) by linarith
      with healthy_dialBackend [OF assms(1) al _ _ assms(4) Cons.prems(2) assms(6)] sh(1) d Inl \<open>x = mark\<close>
      show False by simp
    qed
    then have m: "mark \<in> set marks" using Cons.prems(1) by simp
    have b: "int (length marks) * (2 * second) \<le> D - clock (pa_world st')" "D - clock (pa_world st') \<le> maxInt64"
      "0 < MaxAttempts (pa_selector st')"
      using s sh(2) Cons.prems(2,4) by (auto simp: steady_def)
    show ?thesis
      using Cons.IH [OF m b(3,1,2)] ok d Inl by simp
  qed
qed simp

text \<open>
  (C8) A failover reaches a healthy member. Let a name be proxied through a group, with two
  seconds of dial budget for each member, and let one member be healthy: its resolver answers
  within a second with an address the policy allows through it, and what may be dialled through
  it accepts within a second. Then the connection is established, whatever the other members
  do: a dead tunnel, a resolver that hangs, a poisoned answer and a refused dial each cost
  their slice of the budget and no more.
\<close>

theorem failover_connects:
  assumes "timely_env clock env" "alive_until clock D ctx"
    and "mark \<in> set marks" "healthy_egress clock env rt host port self mark"
    and "0 < MaxAttempts (pa_selector st)" "0 < rt_connectAttemptCap rt"
    and "int (length marks) * (2 * second) \<le> min (D - clock (pa_world st)) (rt_dialTimeout rt)" "rt_dialTimeout rt \<le> maxInt64"
  shows "\<exists>conn. fst (dialEgresses env (WithTimeout ctx (rt_dialTimeout rt) (pa_world st)) rt host False port marks self st) = Inr conn"
proof -
  let ?D = "min D (clock (pa_world st) + rt_dialTimeout rt)"
  have "alive_until clock ?D (WithTimeout ctx (rt_dialTimeout rt) (pa_world st))" using WithTimeout_alive [OF assms(2)] .
  moreover have "int (length marks) * (2 * second) \<le> ?D - clock (pa_world st)" "?D - clock (pa_world st) \<le> maxInt64"
    using assms(7,8) by linarith+
  ultimately show ?thesis
    unfolding dialEgresses_def using egress_loop_connects [OF assms(1) _ assms(3-6)] by blast
qed

section \<open>The bytes of a session\<close>

text \<open>
  The contract of \<open>io.Writer\<close>: a write takes a prefix of its data and says how long it is. And what
  \<open>io.Copy\<close> does with the rest of the client's stream: it sends a prefix of it, all of it unless it
  reports an error. \<open>sent\<close> is what the backend has been sent.
\<close>

definition writer_ok :: "('w \<Rightarrow> byte list) \<Rightarrow> ('w, 'x) writer \<Rightarrow> bool" where
  "writer_ok sent write \<longleftrightarrow>
     (\<forall>data w n err w'. write data w = ((n, err), w') \<longrightarrow>
        0 \<le> n \<and> n \<le> int (length data) \<and> sent w' = sent w @ take (nat n) data)"

definition copy_ok :: "('w \<Rightarrow> byte list) \<Rightarrow> byte list \<Rightarrow> (duration \<Rightarrow> 'w \<Rightarrow> ('x directionResult \<times> 'x directionResult) \<times> 'w) \<Rightarrow> bool" where
  "copy_ok sent rest copy \<longleftrightarrow>
     (\<forall>idle w one two w'. copy idle w = ((one, two), w') \<longrightarrow>
        di_clientToBackend one \<noteq> di_clientToBackend two \<and>
        (let c = (if di_clientToBackend one then one else two) in
           0 \<le> di_bytes c \<and> di_bytes c \<le> int (length rest) \<and> sent w' = sent w @ take (nat (di_bytes c)) rest \<and>
           (di_err c = None \<longrightarrow> di_bytes c = int (length rest))))"

lemma write_loop_sends:
  assumes "writer_ok sent write"
  shows "\<exists>n err w'. write_loop write data sofar w = Some ((sofar + n, err), w') \<and> 0 \<le> n \<and> n \<le> int (length data) \<and>
    sent w' = sent w @ take (nat n) data \<and> (err = None \<longrightarrow> n = int (length data))"
  using assms
proof (induction "write" "data" "sofar" "w" rule: write_loop.induct)
  case (1 "write" "data" "sofar" "w")
  obtain n err w' where w: "write data w = ((n, err), w')" by (metis prod.collapse)
  have ok: "0 \<le> n" "n \<le> int (length data)" "sent w' = sent w @ take (nat n) data"
    using 1(2) w unfolding writer_ok_def by blast+
  show ?case
  proof (cases "data = [] \<or> err \<noteq> None \<or> n = 0")
    case True
    then show ?thesis using ok w by (subst write_loop.simps) (auto simp: Let_def split: option.split)
  next
    case False
    then have e: "data \<noteq> []" "err = None" "n \<noteq> 0" by simp_all
    have step: "write_loop write data sofar w = write_loop write (drop (nat n) data) (sofar + n) w'"
      using e ok w by (subst write_loop.simps) (simp add: Let_def)
    have "\<not> (n < 0 \<or> int (length data) < n)" using ok by simp
    from 1(1) [OF e(1) w [symmetric] refl refl this e(2,3) 1(2)] obtain k err' w'' where
      k: "write_loop write (drop (nat n) data) (sofar + n) w' = Some ((sofar + n + k, err'), w'')" "0 \<le> k"
        "k \<le> int (length (drop (nat n) data))" "sent w'' = sent w' @ take (nat k) (drop (nat n) data)"
        "err' = None \<longrightarrow> k = int (length (drop (nat n) data))" by blast
    have "take (nat (n + k)) data = take (nat n) data @ take (nat k) (drop (nat n) data)"
      using ok(1) k(2) by (simp add: nat_add_distrib take_add)
    then show ?thesis
      using step k ok e by (intro exI [of _ "n + k"] exI [of _ err'] exI [of _ w'']) (auto simp: of_nat_diff)
  qed
qed

lemma writeAll_sends:
  assumes "writer_ok sent write"
  shows "\<exists>n err w'. writeAll write data w = Some ((n, err), w') \<and> 0 \<le> n \<and> n \<le> int (length data) \<and>
    sent w' = sent w @ take (nat n) data \<and> (err = None \<longrightarrow> n = int (length data))"
  using write_loop_sends [OF assms, of data 0 w] by (simp add: writeAll_def)

lemma count_directions:
  assumes "di_clientToBackend one \<noteq> di_clientToBackend two" "r2 = count_direction ctx w two (count_direction ctx w one r)"
  shows "cs_ClientBytes r2 = cs_ClientBytes r + word_of_int (di_bytes (if di_clientToBackend one then one else two))"
    and "cs_Outcome r2 = ''completed'' \<Longrightarrow> di_err one = None \<and> di_err two = None"
  using assms by (auto simp: count_direction_def Let_def sessionOutcome_def split: option.splits if_splits)

lemma peek_limited_prefix:
  "peek_limited parse limit bs = Inr (x, prefix) \<Longrightarrow> prefix = take (length prefix) bs \<and> int (length prefix) \<le> limit"
  by (auto simp: peek_limited_def Let_def split: sum.splits prod.splits if_splits simp: min_def)


section \<open>Sample connections\<close>

text \<open>Two tunnels; the first drops every packet. The world is the clock.\<close>

definition path_router :: "string router" where
  "path_router =
     \<lparr>rt_def = \<lparr>mr_static = 0, mr_dyn = None, mr_order = None\<rparr>, rt_dialTimeout = 10 * second, rt_handshakeTimeout = second,
      rt_idleTimeout = 0, rt_shutdownGrace = second, rt_maxConnections = 1, rt_maxConnectionsPerSource = 0,
      rt_maxClientHelloBytes = 100, rt_maxHTTPHeaderBytes = 100, rt_sourceACL = [], rt_destination = Map.empty,
      rt_suffixes = None,
      rt_dns = \<lparr>dc_cache = sample_cache, dc_generation = 1, dc_resolverID = [], dc_egressNames = [7 \<mapsto> ''wg0'', 8 \<mapsto> ''wg1'']\<rparr>,
      rt_resolvers = [7 \<mapsto> SystemResolver 0, 8 \<mapsto> SystemResolver 0], rt_egressNames = [7 \<mapsto> ''wg0'', 8 \<mapsto> ''wg1''],
      rt_selector = \<lparr>Strategy = Interleave, MaxAttempts = 4, cursor = 0\<rparr>, rt_connectAttemptCap = 4\<rparr>"

definition path_env :: "addr \<Rightarrow> (int, unit, string) proxy_env" where
  "path_env answer =
     \<lparr>env_resolve = (\<lambda>r q ctx now. ((\<lparr>res_Addrs = [answer], res_ExpiresAt = 0, res_RCode = RCodeSuccess\<rparr>, None), now)),
      env_invalidate = (\<lambda>q now. now),
      env_dial = (\<lambda>mark T d net a now. if mark = 7 then (Inl DeadlineExceeded, case d of None \<Rightarrow> now | Some t \<Rightarrow> max now t) else (Inr a, now))\<rparr>"

definition path_start :: "int path_state" where
  "path_start = \<lparr>pa_selector = rt_selector path_router, pa_metrics = [], pa_world = 0\<rparr>"

theorem failover_connects_witness:
  "\<exists>conn. fst (dialEgresses (path_env (V4 0x08080808)) (WithTimeout resolver_context (10 * second) 0) path_router ''a.io'' False ''443''
     [7, 8] {} path_start) = Inr conn"
proof -
  have f: "pa_world path_start = 0" "rt_dialTimeout path_router = 10 * second" by (simp_all add: path_start_def path_router_def)
  have "addressAllowed Map.empty (V4 0x08080808) 8 {}"
    by (simp add: addressAllowed_def defaultDeniedDestinationPrefixes_def netip_eval)
  then have "healthy_egress (\<lambda>now. now) (path_env (V4 0x08080808)) path_router ''a.io'' ''443'' {} 8"
    by (simp add: healthy_egress_def path_env_def path_router_def egressFamilyAllowed_def second_def)
  moreover have "timely_env (\<lambda>now. now) (path_env (V4 0x08080808))" by (auto simp: timely_env_def path_env_def)
  moreover have "alive_until (\<lambda>now. now) (10 * second) resolver_context" by (simp add: alive_until_def resolver_context_def)
  ultimately show ?thesis
    using failover_connects [where clock = "\<lambda>now. now" and D = "10 * second" and mark = 8 and marks = "[7, 8]" and st = path_start
        and rt = path_router and env = "path_env (V4 0x08080808)" and ctx = resolver_context and host = "''a.io''" and port = "''443''"
        and self = "{}"]
    unfolding f by (simp add: path_start_def path_router_def second_def maxInt64_def)
qed

lemma sample_denied:
  "\<exists>st'. dialEgresses (path_env (V4 0x0A0A2224)) resolver_context path_router ''a.io'' False ''443'' [7, 8] {} path_start =
     (Inl (EgressesDenied [(''wg0'', DeniedAnswer), (''wg1'', DeniedAnswer)]), st')"
proof -
  have d: "\<not> addressAllowed Map.empty (V4 0x0A0A2224) m {}" for m
    by (simp add: addressAllowed_def netip_eval)
  have s: "Select sel [V4 0x0A0A2224] (Some (\<lambda>c. addressAllowed Map.empty c m {})) = ([], sel\<lparr>cursor := cursor sel + 1\<rparr>)"
    if "MaxAttempts sel = 4" for sel m
    using that d by (simp add: Select_def Let_def rotate_addrs_def family_order_def netip_eval)
  show ?thesis
    by (simp add: dialEgresses_def dialBackend_def backendCandidates_def name_candidates_def path_env_def path_router_def
        path_start_def resolver_context_def egressFamilyCandidates_def egressFamilyAllowed_def second_def s Let_def
        rt_egressName_def mark_name_def)
qed


text \<open>A writer that takes one byte at a time, and a parser that looks at two bytes.\<close>

definition slow_session :: "byte list \<Rightarrow> (byte list, unit, string) session_env" where
  "slow_session rest =
     \<lparr>se_write = (\<lambda>conn data w. (if data = [] then (0, None) else (1, None), w @ take 1 data)),
      se_copy = (\<lambda>conn idle w. ((\<lparr>di_clientToBackend = True, di_bytes = int (length rest), di_err = None\<rparr>,
        \<lparr>di_clientToBackend = False, di_bytes = 0, di_err = None\<rparr>), w @ rest))\<rparr>"


end
