(* ===== verification/Proxy_Server.thy ===== *)
theory Proxy_Server
  imports Proxy_Path Lifecycle
begin

text \<open>
  The life of the proxy server, \<open>src/cmd/sakhtar-wg/sni.go\<close>: admission, the accept loops, the
  sessions they own, and the stop that drains them. The critical sections and the channel
  operations are the steps of a transition system in which accept loops, sessions and the stop
  interleave freely. The lemmas show that the admission counters are exact and bounded, and that
  when \<open>Stop\<close> returns no session is left, every connection is closed, and none can start again.
\<close>

section \<open>Admission\<close>

text \<open>The per-source table holds no zero; a nil map has no entries.\<close>

record admissionControl =
  ac_active :: int
  ac_perSource :: "addr \<rightharpoonup> int"

definition source_count :: "admissionControl \<Rightarrow> addr \<Rightarrow> int" where
  "source_count a source = (case ac_perSource a source of None \<Rightarrow> 0 | Some n \<Rightarrow> n)"

definition acquire :: "addr \<Rightarrow> int \<Rightarrow> int \<Rightarrow> admissionControl \<Rightarrow> bool \<times> admissionControl" where
  "acquire source maximum perSourceMaximum a =
     (if maximum \<le> 0 \<or> maximum \<le> ac_active a then (False, a)
      else if 0 < perSourceMaximum \<and> perSourceMaximum \<le> source_count a source then (False, a)
      else (True, \<lparr>ac_active = ac_active a + 1,
                   ac_perSource = (ac_perSource a)(source \<mapsto> source_count a source + 1)\<rparr>))"

definition release :: "addr \<Rightarrow> admissionControl \<Rightarrow> admissionControl" where
  "release source a =
     (let n = source_count a source - 1
      in \<lparr>ac_active = ac_active a - 1,
          ac_perSource = (if n = 0 then (ac_perSource a)(source := None) else (ac_perSource a)(source \<mapsto> n))\<rparr>)"

definition activeCount :: "admissionControl \<Rightarrow> int" where
  "activeCount a = ac_active a"


section \<open>Sessions\<close>

text \<open>
  A session and its two connections, open or closed; \<open>os_backend\<close> is the backend the session owns
  and \<open>os_dialled\<close> the one its handler has dialled. The phase is the position of its goroutine: in
  the handler before and after the dial, and before each of the deferred calls.
\<close>

datatype session_phase = Dialling | Piping | Closing | Releasing | Unregistering | Finished

record ownedSession =
  os_source :: addr
  os_phase :: session_phase
  os_closed :: bool
  os_clientOpen :: bool
  os_backend :: bool
  os_backendOpen :: bool

definition new_session :: "addr \<Rightarrow> ownedSession" where
  "new_session source =
     \<lparr>os_source = source, os_phase = Dialling, os_closed = False, os_clientOpen = True, os_backend = False,
      os_backendOpen = False\<rparr>"

definition setBackend :: "ownedSession \<Rightarrow> ownedSession" where
  "setBackend s = (if os_closed s then s\<lparr>os_backendOpen := False\<rparr> else s\<lparr>os_backend := True\<rparr>)"

definition session_close :: "ownedSession \<Rightarrow> ownedSession" where
  "session_close s =
     (if os_closed s then s
      else s\<lparr>os_closed := True, os_clientOpen := False,
             os_backendOpen := (if os_backend s then False else os_backendOpen s)\<rparr>)"

text \<open>\<open>runConnectionSession\<close> closes both connections when it returns.\<close>

definition closeBoth :: "ownedSession \<Rightarrow> ownedSession" where
  "closeBoth s = s\<lparr>os_clientOpen := False, os_backendOpen := False\<rparr>"


section \<open>The server\<close>

text \<open>An accept loop waits for a connection, decides about one, or has returned.\<close>

datatype accept_loop = Accepting | Admitting addr bool | LoopExited

datatype stop_phase =
  NotStopping | ClosingListeners | AwaitingLoops | Draining | Forcing "nat list" nat | AwaitingForced nat | StopReturned nat

record proxy_server =
  ps_stopping :: bool
  ps_listenersClosed :: bool
  ps_loops :: "accept_loop list"
  ps_admission :: admissionControl
  ps_accepted :: "64 word"
  ps_sessions :: "ownedSession list"
  ps_rootCancelled :: bool
  ps_stop :: stop_phase

text \<open>The sessions in the table of the server are those that have not unregistered.\<close>

definition registered :: "proxy_server \<Rightarrow> nat list" where
  "registered s = filter (\<lambda>i. os_phase (ps_sessions s ! i) \<noteq> Finished) [0..<length (ps_sessions s)]"

definition drained :: "proxy_server \<Rightarrow> bool" where
  "drained s \<longleftrightarrow> (\<forall>x\<in>set (ps_sessions s). os_phase x = Finished)"

text \<open>
  \<open>Start\<close> has opened one listener with its loop for each configured address. A loop that has
  decided about a connection continues to accept; the table of rejections is the one of
  \<open>Proxy_Path\<close> and does not influence the steps.
\<close>

definition started :: "nat \<Rightarrow> proxy_server" where
  "started listeners =
     \<lparr>ps_stopping = False, ps_listenersClosed = False, ps_loops = replicate listeners Accepting,
      ps_admission = \<lparr>ac_active = 0, ac_perSource = Map.empty\<rparr>, ps_accepted = 0, ps_sessions = [],
      ps_rootCancelled = False, ps_stop = NotStopping\<rparr>"

definition accept_conn :: "nat \<Rightarrow> addr \<Rightarrow> bool \<Rightarrow> proxy_server \<Rightarrow> proxy_server" where
  "accept_conn i source allowed s =
     s\<lparr>ps_loops := (ps_loops s)[i := (if ps_stopping s then LoopExited else Admitting source allowed)]\<rparr>"

definition admit_conn :: "nat \<Rightarrow> int \<Rightarrow> int \<Rightarrow> proxy_server \<Rightarrow> proxy_server" where
  "admit_conn i maximum perSource s =
     (case ps_loops s ! i of
        Admitting source allowed \<Rightarrow>
          let s1 = s\<lparr>ps_loops := (ps_loops s)[i := Accepting]\<rparr>
          in if \<not> allowed then s1
             else let (admitted, a) = acquire source maximum perSource (ps_admission s)
                  in if \<not> admitted then s1
                     else s1\<lparr>ps_admission := a, ps_accepted := ps_accepted s + 1,
                             ps_sessions := ps_sessions s @ [new_session source]\<rparr>
      | _ \<Rightarrow> s)"

definition on_session :: "nat \<Rightarrow> (ownedSession \<Rightarrow> ownedSession) \<Rightarrow> proxy_server \<Rightarrow> proxy_server" where
  "on_session j f s = s\<lparr>ps_sessions := (ps_sessions s)[j := f (ps_sessions s ! j)]\<rparr>"

text \<open>
  The steps. \<open>limits\<close> holds the pairs of limits that the routers of the run use: each accept reads
  them from the router that is current.
\<close>

inductive server_step :: "(int \<times> int) set \<Rightarrow> proxy_server \<Rightarrow> proxy_server \<Rightarrow> bool" for limits where
  accept: "i < length (ps_loops s) \<Longrightarrow> ps_loops s ! i = Accepting \<Longrightarrow> \<not> ps_listenersClosed s \<Longrightarrow>
    server_step limits s (accept_conn i source allowed s)"
| admit: "i < length (ps_loops s) \<Longrightarrow> ps_loops s ! i = Admitting source allowed \<Longrightarrow> (maximum, perSource) \<in> limits \<Longrightarrow>
    server_step limits s (admit_conn i maximum perSource s)"
| exit: "i < length (ps_loops s) \<Longrightarrow> ps_loops s ! i = Accepting \<Longrightarrow> ps_listenersClosed s \<or> ps_stopping s \<Longrightarrow>
    server_step limits s (s\<lparr>ps_loops := (ps_loops s)[i := LoopExited]\<rparr>)"
| dialled: "j < length (ps_sessions s) \<Longrightarrow> os_phase (ps_sessions s ! j) = Dialling \<Longrightarrow>
    server_step limits s (on_session j (\<lambda>x. (setBackend (x\<lparr>os_backendOpen := True\<rparr>))\<lparr>os_phase := Piping\<rparr>) s)"
| refused: "j < length (ps_sessions s) \<Longrightarrow> os_phase (ps_sessions s ! j) = Dialling \<Longrightarrow>
    server_step limits s (on_session j (\<lambda>x. x\<lparr>os_phase := Closing\<rparr>) s)"
| piped: "j < length (ps_sessions s) \<Longrightarrow> os_phase (ps_sessions s ! j) = Piping \<Longrightarrow>
    server_step limits s (on_session j (\<lambda>x. (closeBoth x)\<lparr>os_phase := Closing\<rparr>) s)"
| close: "j < length (ps_sessions s) \<Longrightarrow> os_phase (ps_sessions s ! j) = Closing \<Longrightarrow>
    server_step limits s (on_session j (\<lambda>x. (session_close x)\<lparr>os_phase := Releasing\<rparr>) s)"
| release: "j < length (ps_sessions s) \<Longrightarrow> os_phase (ps_sessions s ! j) = Releasing \<Longrightarrow>
    server_step limits s (on_session j (\<lambda>x. x\<lparr>os_phase := Unregistering\<rparr>)
      (s\<lparr>ps_admission := release (os_source (ps_sessions s ! j)) (ps_admission s)\<rparr>))"
| unregister: "j < length (ps_sessions s) \<Longrightarrow> os_phase (ps_sessions s ! j) = Unregistering \<Longrightarrow>
    server_step limits s (on_session j (\<lambda>x. x\<lparr>os_phase := Finished\<rparr>) s)"
| stop: "\<not> ps_stopping s \<Longrightarrow> server_step limits s (s\<lparr>ps_stopping := True, ps_stop := ClosingListeners\<rparr>)"
| close_listeners: "ps_stop s = ClosingListeners \<Longrightarrow>
    server_step limits s (s\<lparr>ps_listenersClosed := True, ps_stop := AwaitingLoops\<rparr>)"
| loops_done: "ps_stop s = AwaitingLoops \<Longrightarrow> \<forall>l\<in>set (ps_loops s). l = LoopExited \<Longrightarrow>
    server_step limits s (s\<lparr>ps_stop := Draining\<rparr>)"
| drain: "ps_stop s = Draining \<Longrightarrow> drained s \<Longrightarrow>
    server_step limits s (s\<lparr>ps_rootCancelled := True, ps_stop := StopReturned 0\<rparr>)"
| grace_over: "ps_stop s = Draining \<Longrightarrow>
    server_step limits s (s\<lparr>ps_rootCancelled := True, ps_stop := Forcing (registered s) (length (registered s))\<rparr>)"
| force: "ps_stop s = Forcing (j # js) n \<Longrightarrow>
    server_step limits s ((on_session j session_close s)\<lparr>ps_stop := Forcing js n\<rparr>)"
| forced: "ps_stop s = Forcing [] n \<Longrightarrow> server_step limits s (s\<lparr>ps_stop := AwaitingForced n\<rparr>)"
| forced_drained: "ps_stop s = AwaitingForced n \<Longrightarrow> drained s \<Longrightarrow>
    server_step limits s (s\<lparr>ps_stop := StopReturned n\<rparr>)"

definition server_reachable :: "(int \<times> int) set \<Rightarrow> nat \<Rightarrow> proxy_server \<Rightarrow> bool" where
  "server_reachable limits listeners s \<longleftrightarrow> (server_step limits)\<^sup>*\<^sup>* (started listeners) s"

section \<open>The invariant\<close>

definition live :: "ownedSession \<Rightarrow> bool" where
  "live x \<longleftrightarrow> os_phase x \<notin> {Unregistering, Finished}"

definition live_count :: "(ownedSession \<Rightarrow> bool) \<Rightarrow> ownedSession list \<Rightarrow> int" where
  "live_count P ss = sum_list (map (\<lambda>x. if live x \<and> P x then 1 else 0) ss)"

definition counts_ok :: "admissionControl \<Rightarrow> ownedSession list \<Rightarrow> bool" where
  "counts_ok a ss \<longleftrightarrow> ac_active a = live_count (\<lambda>_. True) ss \<and>
     (\<forall>src. source_count a src = live_count (\<lambda>x. os_source x = src) ss)"

definition within_limits :: "int \<Rightarrow> int \<Rightarrow> admissionControl \<Rightarrow> bool" where
  "within_limits M P a \<longleftrightarrow> ac_active a \<le> M \<and> (\<forall>src. source_count a src \<le> P)"

definition session_ok :: "ownedSession \<Rightarrow> bool" where
  "session_ok x \<longleftrightarrow>
     (os_closed x \<longrightarrow> \<not> os_clientOpen x) \<and> (os_backendOpen x \<longrightarrow> os_backend x \<and> \<not> os_closed x) \<and>
     (os_phase x = Dialling \<longrightarrow> \<not> os_backend x) \<and>
     (os_phase x \<in> {Releasing, Unregistering, Finished} \<longrightarrow> os_closed x)"

fun stop_ok :: "proxy_server \<Rightarrow> bool" where
  "stop_ok s \<longleftrightarrow> (ps_stopping s \<longleftrightarrow> ps_stop s \<noteq> NotStopping) \<and>
     (case ps_stop s of
        NotStopping \<Rightarrow> True
      | ClosingListeners \<Rightarrow> True
      | AwaitingLoops \<Rightarrow> True
      | Draining \<Rightarrow> \<forall>l\<in>set (ps_loops s). l = LoopExited
      | Forcing js n \<Rightarrow> (\<forall>l\<in>set (ps_loops s). l = LoopExited) \<and> (\<forall>j\<in>set js. j < length (ps_sessions s))
      | AwaitingForced n \<Rightarrow> \<forall>l\<in>set (ps_loops s). l = LoopExited
      | StopReturned n \<Rightarrow> (\<forall>l\<in>set (ps_loops s). l = LoopExited) \<and> drained s)"

declare stop_ok.simps [simp del]

definition server_inv :: "proxy_server \<Rightarrow> bool" where
  "server_inv s \<longleftrightarrow> counts_ok (ps_admission s) (ps_sessions s) \<and> (\<forall>x\<in>set (ps_sessions s). session_ok x) \<and> stop_ok s"

lemma live_count_update:
  assumes "j < length ss"
  shows "live_count P (ss[j := y]) =
    live_count P ss - (if live (ss ! j) \<and> P (ss ! j) then 1 else 0) + (if live y \<and> P y then 1 else 0)"
  unfolding live_count_def sum_list_map_update [OF assms] by simp

lemma live_count_nonneg: "0 \<le> live_count P ss"
  unfolding live_count_def by (intro sum_list_nonneg) auto

lemma live_count_pos: "j < length ss \<Longrightarrow> live (ss ! j) \<Longrightarrow> P (ss ! j) \<Longrightarrow> 0 < live_count P ss"
  using live_count_nonneg [of P "ss[j := (ss ! j)\<lparr>os_phase := Finished\<rparr>]"]
  by (simp add: live_count_update) (simp add: live_def)

lemma counts_same:
  assumes "counts_ok a ss" "j < length ss" "live y = live (ss ! j)" "os_source y = os_source (ss ! j)"
  shows "counts_ok a (ss[j := y])"
  using assms by (simp add: counts_ok_def live_count_update)

lemma acquire_counts:
  assumes "counts_ok a ss" "acquire source maximum perSource a = (True, a')"
  shows "counts_ok a' (ss @ [new_session source])"
  using assms by (auto simp: acquire_def counts_ok_def live_count_def new_session_def live_def source_count_def split: if_splits)

lemma source_count_release: "source_count (release source a) src = source_count a src - (if src = source then 1 else 0)"
  by (auto simp: release_def source_count_def Let_def split: option.splits)

lemma release_counts:
  assumes "counts_ok a ss" "j < length ss" "os_phase (ss ! j) = Releasing"
  shows "counts_ok (release (os_source (ss ! j)) a) (ss[j := (ss ! j)\<lparr>os_phase := Unregistering\<rparr>])"
proof -
  have "ac_active (release (os_source (ss ! j)) a) = ac_active a - 1" by (simp add: release_def Let_def)
  then show ?thesis
    using assms unfolding counts_ok_def live_count_update [OF assms(2)] source_count_release
    by (simp add: live_def eq_commute)
qed

text \<open>A step of one session that leaves the admission and the stop alone.\<close>

lemma on_session_inv:
  assumes "server_inv s" "j < length (ps_sessions s)" "session_ok (ps_sessions s ! j) \<Longrightarrow> session_ok y"
    and "live y = live (ps_sessions s ! j)" "os_source y = os_source (ps_sessions s ! j)"
    and "os_phase (ps_sessions s ! j) = Finished \<Longrightarrow> os_phase y = Finished"
  shows "server_inv (on_session j (\<lambda>_. y) s)"
proof -
  let ?ss = "ps_sessions s"
  have "counts_ok (ps_admission s) (?ss[j := y])" using assms by (intro counts_same) (simp_all add: server_inv_def)
  moreover have "\<forall>x\<in>set (?ss[j := y]). session_ok x"
    using assms(1-3) by (auto simp: server_inv_def dest!: set_update_subset_insert [THEN subsetD])
  moreover have "drained (s\<lparr>ps_sessions := ?ss[j := y]\<rparr>)" if "drained s"
  proof -
    have "os_phase (?ss ! j) = Finished" using that assms(2) by (simp add: drained_def)
    then show ?thesis
      using that assms(6) by (auto simp: drained_def dest!: set_update_subset_insert [THEN subsetD])
  qed
  ultimately show ?thesis
    using assms(1) by (auto simp: server_inv_def on_session_def stop_ok.simps split: stop_phase.splits)
qed

lemma session_steps_ok:
  "session_ok x \<Longrightarrow> session_ok (session_close x)"
  "session_ok x \<Longrightarrow> os_phase x = Dialling \<Longrightarrow> session_ok ((setBackend (x\<lparr>os_backendOpen := True\<rparr>))\<lparr>os_phase := Piping\<rparr>)"
  "session_ok x \<Longrightarrow> os_phase x = Dialling \<Longrightarrow> session_ok (x\<lparr>os_phase := Closing\<rparr>)"
  "session_ok x \<Longrightarrow> session_ok ((closeBoth x)\<lparr>os_phase := Closing\<rparr>)"
  "session_ok x \<Longrightarrow> session_ok ((session_close x)\<lparr>os_phase := Releasing\<rparr>)"
  "session_ok x \<Longrightarrow> os_phase x = Unregistering \<Longrightarrow> session_ok (x\<lparr>os_phase := Finished\<rparr>)"
  by (auto simp: session_ok_def session_close_def setBackend_def closeBoth_def)

lemma on_session_const: "on_session j f s = on_session j (\<lambda>_. f (ps_sessions s ! j)) s"
  by (simp add: on_session_def)

lemma session_fields [simp]:
  "os_source (session_close x) = os_source x" "os_phase (session_close x) = os_phase x"
  "os_source (setBackend x) = os_source x" "os_source (closeBoth x) = os_source x"
  by (simp_all add: session_close_def setBackend_def closeBoth_def)

lemma admit_inv:
  assumes "server_inv s" "i < length (ps_loops s)" "ps_loops s ! i = Admitting source allowed"
  shows "server_inv (admit_conn i maximum perSource s)"
proof -
  have "\<not> (\<forall>l\<in>set (ps_loops s). l = LoopExited)" using assms(2,3) by (metis accept_loop.distinct(5) nth_mem)
  then have st: "stop_ok (s\<lparr>ps_loops := (ps_loops s)[i := Accepting], ps_admission := a, ps_accepted := n, ps_sessions := ss\<rparr>)"
    "stop_ok (s\<lparr>ps_loops := (ps_loops s)[i := Accepting]\<rparr>)" for a n ss
    using assms(1) by (auto simp: server_inv_def stop_ok.simps split: stop_phase.splits)
  obtain adm a where q: "acquire source maximum perSource (ps_admission s) = (adm, a)" by fastforce
  show ?thesis
  proof (cases "allowed \<and> adm")
    case True
    then have "counts_ok a (ps_sessions s @ [new_session source])"
      using assms(1) q by (intro acquire_counts) (auto simp: server_inv_def)
    moreover have "session_ok (new_session source)" by (simp add: session_ok_def new_session_def)
    moreover have "\<forall>x\<in>set (ps_sessions s). session_ok x" using assms(1) by (simp add: server_inv_def)
    ultimately show ?thesis
      using True st q assms(3) by (simp add: admit_conn_def server_inv_def Let_def)
  next
    case False
    then have "admit_conn i maximum perSource s = s\<lparr>ps_loops := (ps_loops s)[i := Accepting]\<rparr>"
      using q assms(3) by (auto simp: admit_conn_def Let_def)
    then show ?thesis using st(2) assms(1) by (simp add: server_inv_def)
  qed
qed

lemma server_step_inv:
  assumes "server_step limits s s'" "server_inv s"
  shows "server_inv s'"
  using assms
proof (induction rule: server_step.induct)
  case (accept i s source allowed)
  have "\<not> (\<forall>l\<in>set (ps_loops s). l = LoopExited)" using accept(1,2) by (metis accept_loop.distinct(3) nth_mem)
  then show ?case
    using accept.prems by (auto simp: accept_conn_def server_inv_def stop_ok.simps split: stop_phase.splits)
next
  case (admit i s source allowed maximum perSource)
  then show ?case using admit_inv by blast
next
  case (exit i s)
  then show ?case
    by (auto simp: server_inv_def stop_ok.simps drained_def split: stop_phase.splits dest!: set_update_subset_insert [THEN subsetD])
next
  case (dialled j s)
  then show ?case
    by (subst on_session_const, intro on_session_inv) (simp_all add: session_steps_ok live_def)
next
  case (refused j s)
  then show ?case
    by (subst on_session_const, intro on_session_inv) (simp_all add: session_steps_ok live_def)
next
  case (piped j s)
  then show ?case
    by (subst on_session_const, intro on_session_inv) (simp_all add: session_steps_ok live_def)
next
  case (close j s)
  then show ?case
    by (subst on_session_const, intro on_session_inv) (simp_all add: session_steps_ok live_def)
next
  case (release j s)
  let ?x = "ps_sessions s ! j"
  have "session_ok (?x\<lparr>os_phase := Unregistering\<rparr>)" using release by (auto simp: server_inv_def session_ok_def)
  moreover have "\<not> drained s" using release(1,2) unfolding drained_def by (auto intro!: bexI [OF _ nth_mem])
  moreover have "counts_ok (Proxy_Server.release (os_source ?x) (ps_admission s)) ((ps_sessions s)[j := ?x\<lparr>os_phase := Unregistering\<rparr>])"
    using release by (intro release_counts) (auto simp: server_inv_def)
  ultimately show ?case
    using release.prems
    by (auto simp: server_inv_def on_session_def stop_ok.simps split: stop_phase.splits dest!: set_update_subset_insert [THEN subsetD])
next
  case (unregister j s)
  then show ?case
    by (subst on_session_const, intro on_session_inv) (simp_all add: session_steps_ok live_def)
next
  case (force s j js n)
  have "j < length (ps_sessions s)" using force by (simp add: server_inv_def stop_ok.simps)
  then have "server_inv (on_session j session_close s)"
    using force.prems by (subst on_session_const, intro on_session_inv) (simp_all add: session_steps_ok live_def)
  then show ?case using force by (auto simp: server_inv_def stop_ok.simps on_session_def)
qed (auto simp: server_inv_def stop_ok.simps registered_def drained_def split: stop_phase.splits)

lemma server_reachable_inv: "server_reachable limits listeners s \<Longrightarrow> server_inv s"
  unfolding server_reachable_def
proof (induction rule: rtranclp_induct)
  case base
  then show ?case by (simp add: started_def server_inv_def stop_ok.simps counts_ok_def live_count_def source_count_def)
next
  case (step y z)
  then show ?case using server_step_inv by blast
qed

lemma acquire_limits:
  "within_limits M P a \<Longrightarrow> acquire source maximum perSource a = (True, a') \<Longrightarrow> maximum \<le> M \<Longrightarrow> 0 < perSource \<Longrightarrow> perSource \<le> P \<Longrightarrow>
   within_limits M P a'"
  by (auto simp: acquire_def within_limits_def source_count_def split: if_splits)

lemma release_limits: "within_limits M P a \<Longrightarrow> within_limits M P (release source a)"
proof -
  assume *: "within_limits M P a"
  have "ac_active (release source a) = ac_active a - 1" by (simp add: release_def Let_def)
  moreover have "source_count (release source a) src \<le> source_count a src" for src by (simp add: source_count_release)
  ultimately show ?thesis using * unfolding within_limits_def by (smt (verit))
qed

lemma server_step_limits:
  assumes "server_step limits s s'" "within_limits M P (ps_admission s)" "\<forall>(m, p)\<in>limits. m \<le> M \<and> 0 < p \<and> p \<le> P"
  shows "within_limits M P (ps_admission s')"
  using assms
proof (induction rule: server_step.induct)
  case (admit i s source allowed maximum perSource)
  have "maximum \<le> M" "0 < perSource" "perSource \<le> P" using admit by auto
  then show ?case
    using admit.hyps(2) admit.prems(1) acquire_limits [OF admit.prems(1)]
    by (auto simp: admit_conn_def Let_def split: prod.split)
next
  case (release j s)
  then show ?case using release_limits by (simp add: on_session_def)
qed (simp_all add: accept_conn_def on_session_def)


lemma live_count_none: "\<forall>x\<in>set ss. \<not> live x \<Longrightarrow> live_count P ss = 0"
  by (induction ss) (simp_all add: live_count_def)

text \<open>
  (C12) When \<open>Stop\<close> returns, the server is gone: every session has finished with its client and its
  backend connection closed (a backend that was dialled while the session was being forced shut
  included), every slot is free, every accept loop has returned, and no step is possible any more.
\<close>

theorem stop_leaves_nothing:
  assumes "server_reachable limits listeners s" "ps_stop s = StopReturned n"
  shows "(\<forall>x\<in>set (ps_sessions s). os_phase x = Finished \<and> \<not> os_clientOpen x \<and> \<not> os_backendOpen x) \<and>
    activeCount (ps_admission s) = 0 \<and> (\<forall>l\<in>set (ps_loops s). l = LoopExited) \<and> (\<nexists>s'. server_step limits s s')"
proof -
  have inv: "server_inv s" using server_reachable_inv [OF assms(1)] .
  then have d: "drained s" "\<forall>l\<in>set (ps_loops s). l = LoopExited" "ps_stopping s"
    using assms(2) by (auto simp: server_inv_def stop_ok.simps)
  have x: "os_phase x = Finished \<and> \<not> os_clientOpen x \<and> \<not> os_backendOpen x" if "x \<in> set (ps_sessions s)" for x
    using that d(1) inv by (auto simp: drained_def server_inv_def session_ok_def)
  have "live_count (\<lambda>_. True) (ps_sessions s) = 0"
    using x by (intro live_count_none) (simp add: live_def)
  then have "activeCount (ps_admission s) = 0" using inv by (simp add: server_inv_def counts_ok_def activeCount_def)
  moreover have "\<not> server_step limits s s'" for s'
  proof
    assume "server_step limits s s'"
    then show False
      using assms(2) d x by (cases rule: server_step.cases) (metis nth_mem accept_loop.distinct session_phase.distinct stop_phase.distinct)+
  qed
  ultimately show ?thesis using x d(2) by blast
qed

section \<open>A stop comes to an end\<close>

fun phase_rank :: "session_phase \<Rightarrow> nat" where
  "phase_rank Dialling = 5"
| "phase_rank Piping = 4"
| "phase_rank Closing = 3"
| "phase_rank Releasing = 2"
| "phase_rank Unregistering = 1"
| "phase_rank Finished = 0"

definition work_left :: "proxy_server \<Rightarrow> nat" where
  "work_left s = sum_list (map (\<lambda>x. phase_rank (os_phase x)) (ps_sessions s))"

text \<open>What the steps of the sessions leave alone.\<close>

definition same_stop :: "proxy_server \<Rightarrow> proxy_server \<Rightarrow> bool" where
  "same_stop s s' \<longleftrightarrow> ps_loops s' = ps_loops s \<and> ps_stop s' = ps_stop s \<and> ps_stopping s' = ps_stopping s \<and>
     ps_listenersClosed s' = ps_listenersClosed s"

lemma same_stop_trans: "same_stop a b \<Longrightarrow> same_stop b c \<Longrightarrow> same_stop a c"
  by (simp add: same_stop_def)

lemma on_session_same: "same_stop s (on_session j f s)"
  by (simp add: same_stop_def on_session_def)

lemma work_left_on_session:
  assumes "j < length (ps_sessions s)" "phase_rank (os_phase (f (ps_sessions s ! j))) < phase_rank (os_phase (ps_sessions s ! j))"
  shows "work_left (on_session j f s) < work_left s"
proof -
  have "sum_list (map g (xs[j := y])) < sum_list (map g xs)" if "j < length xs" "g y < g (xs ! j)" for g :: "ownedSession \<Rightarrow> nat" and xs y
    using that by (induction xs arbitrary: j) (auto simp: less_Suc_eq_0_disj split: nat.splits)
  then show ?thesis using assms by (simp add: work_left_def on_session_def)
qed

lemma on_session_progress:
  assumes "server_step limits s (on_session j f s)" "j < length (ps_sessions s)"
    and "phase_rank (os_phase (f (ps_sessions s ! j))) < phase_rank (os_phase (ps_sessions s ! j))"
  shows "\<exists>s'. server_step limits s s' \<and> same_stop s s' \<and> work_left s' < work_left s"
  using assms(1) on_session_same work_left_on_session [of j s f] assms(2,3) by blast

lemma session_progress:
  assumes "j < length (ps_sessions s)" "os_phase (ps_sessions s ! j) \<noteq> Finished"
  shows "\<exists>s'. server_step limits s s' \<and> same_stop s s' \<and> work_left s' < work_left s"
proof -
  let ?x = "ps_sessions s ! j"
  consider "os_phase ?x = Dialling" | "os_phase ?x = Piping" | "os_phase ?x = Closing" | "os_phase ?x = Releasing" | "os_phase ?x = Unregistering"
    using assms(2) by (cases "os_phase ?x") auto
  then show ?thesis
  proof cases
    case 1
    then show ?thesis by (intro on_session_progress [OF server_step.refused [OF assms(1)] assms(1)]) simp_all
  next
    case 2
    then show ?thesis by (intro on_session_progress [OF server_step.piped [OF assms(1)] assms(1)]) simp_all
  next
    case 3
    then show ?thesis by (intro on_session_progress [OF server_step.close [OF assms(1)] assms(1)]) simp_all
  next
    case 4
    have "server_step limits s (on_session j (\<lambda>x. x\<lparr>os_phase := Unregistering\<rparr>) (s\<lparr>ps_admission := release (os_source ?x) (ps_admission s)\<rparr>))"
      using server_step.release [OF assms(1) 4] .
    moreover have "work_left (on_session j (\<lambda>x. x\<lparr>os_phase := Unregistering\<rparr>) (s\<lparr>ps_admission := a\<rparr>)) < work_left s" for a
      using work_left_on_session [of j "s\<lparr>ps_admission := a\<rparr>" "\<lambda>x. x\<lparr>os_phase := Unregistering\<rparr>"] assms(1) 4 by (simp add: work_left_def)
    moreover have "same_stop s (on_session j f (s\<lparr>ps_admission := a\<rparr>))" for a f by (simp add: same_stop_def on_session_def)
    ultimately show ?thesis by blast
  next
    case 5
    then show ?thesis by (intro on_session_progress [OF server_step.unregister [OF assms(1)] assms(1)]) simp_all
  qed
qed

lemma sessions_drain: "\<exists>s'. (server_step limits)\<^sup>*\<^sup>* s s' \<and> same_stop s s' \<and> drained s'"
proof (induction "work_left s" arbitrary: s rule: less_induct)
  case less
  show ?case
  proof (cases "drained s")
    case True
    then show ?thesis by (intro exI [of _ s]) (simp add: same_stop_def)
  next
    case False
    then obtain j where "j < length (ps_sessions s)" "os_phase (ps_sessions s ! j) \<noteq> Finished"
      by (auto simp: drained_def in_set_conv_nth)
    from session_progress [OF this] obtain t where t: "server_step limits s t" "same_stop s t" "work_left t < work_left s" by blast
    from less [OF t(3)] obtain u where "(server_step limits)\<^sup>*\<^sup>* t u" "same_stop t u" "drained u" by blast
    then show ?thesis using t by (meson converse_rtranclp_into_rtranclp same_stop_trans)
  qed
qed

text \<open>Every accept loop of a server that is stopping returns: it decides about its connection first.\<close>

definition loops_left :: "proxy_server \<Rightarrow> nat" where
  "loops_left s = length (filter (\<lambda>l. l \<noteq> LoopExited) (ps_loops s))"

lemma loop_exits:
  assumes "ps_stopping s" "i < length (ps_loops s)" "ps_loops s ! i \<noteq> LoopExited" "limits \<noteq> {}"
  shows "\<exists>s'. (server_step limits)\<^sup>*\<^sup>* s s' \<and> ps_loops s' = (ps_loops s)[i := LoopExited] \<and> ps_stop s' = ps_stop s \<and> ps_stopping s'"
proof -
  have acc: "\<exists>s'. (server_step limits)\<^sup>*\<^sup>* t s' \<and> ps_loops s' = (ps_loops t)[i := LoopExited] \<and> ps_stop s' = ps_stop t \<and> ps_stopping s'"
    if "ps_stopping t" "i < length (ps_loops t)" "ps_loops t ! i = Accepting" for t
    using server_step.exit [of i t limits] that
    by (intro exI [of _ "t\<lparr>ps_loops := (ps_loops t)[i := LoopExited]\<rparr>"]) auto
  show ?thesis
  proof (cases "ps_loops s ! i")
    case Accepting
    then show ?thesis using acc assms(1,2) by blast
  next
    case (Admitting source allowed)
    obtain m p where mp: "(m, p) \<in> limits" using assms(4) by auto
    let ?t = "admit_conn i m p s"
    have t: "ps_loops ?t = (ps_loops s)[i := Accepting]" "ps_stop ?t = ps_stop s" "ps_stopping ?t = ps_stopping s"
      using Admitting by (simp_all add: admit_conn_def Let_def split: prod.split)
    have "server_step limits s ?t" using server_step.admit [OF assms(2) Admitting mp] .
    moreover obtain u where "(server_step limits)\<^sup>*\<^sup>* ?t u" "ps_loops u = (ps_loops ?t)[i := LoopExited]"
      "ps_stop u = ps_stop ?t" "ps_stopping u"
      using acc [of ?t] t assms(1,2) by auto
    ultimately show ?thesis using t by (intro exI [of _ u]) auto
  qed (use assms(3) in simp)
qed

lemma loops_exit:
  assumes "ps_stopping s" "limits \<noteq> {}"
  shows "\<exists>s'. (server_step limits)\<^sup>*\<^sup>* s s' \<and> (\<forall>l\<in>set (ps_loops s'). l = LoopExited) \<and> ps_stop s' = ps_stop s \<and> ps_stopping s'"
  using assms(1)
proof (induction "loops_left s" arbitrary: s rule: less_induct)
  case less
  show ?case
  proof (cases "\<forall>l\<in>set (ps_loops s). l = LoopExited")
    case True
    then show ?thesis using less.prems by blast
  next
    case False
    then obtain i where i: "i < length (ps_loops s)" "ps_loops s ! i \<noteq> LoopExited" by (auto simp: in_set_conv_nth)
    from loop_exits [OF less.prems i assms(2)] obtain t where
      t: "(server_step limits)\<^sup>*\<^sup>* s t" "ps_loops t = (ps_loops s)[i := LoopExited]" "ps_stop t = ps_stop s" "ps_stopping t" by blast
    have "length (filter P (xs[i := y])) < length (filter P xs)" if "i < length xs" "P (xs ! i)" "\<not> P y"
      for P :: "accept_loop \<Rightarrow> bool" and xs y
      using that by (induction xs arbitrary: i) (auto split: nat.splits)
    then have "loops_left t < loops_left s" using i t(2) by (simp add: loops_left_def)
    from less.hyps [OF this t(4)] t(1,3) show ?thesis by (metis rtranclp_trans)
  qed
qed

lemma force_all:
  "ps_stop s = Forcing js n \<Longrightarrow> \<exists>s'. (server_step limits)\<^sup>*\<^sup>* s s' \<and> ps_stop s' = AwaitingForced n"
proof (induction js arbitrary: s)
  case Nil
  then show ?case using server_step.forced [of s n limits] by (intro exI [of _ "s\<lparr>ps_stop := AwaitingForced n\<rparr>"]) auto
next
  case (Cons j js)
  let ?t = "(on_session j session_close s)\<lparr>ps_stop := Forcing js n\<rparr>"
  obtain u where "(server_step limits)\<^sup>*\<^sup>* ?t u" "ps_stop u = AwaitingForced n" using Cons.IH [of ?t] by auto
  then show ?case using server_step.force [OF Cons.prems, of limits] by (meson converse_rtranclp_into_rtranclp)
qed

lemma stop_from_draining:
  assumes "ps_stop s = Draining \<or> (\<exists>n. ps_stop s = AwaitingForced n)"
  shows "\<exists>s' n. (server_step limits)\<^sup>*\<^sup>* s s' \<and> ps_stop s' = StopReturned n"
proof -
  obtain t where t: "(server_step limits)\<^sup>*\<^sup>* s t" "same_stop s t" "drained t" using sessions_drain by blast
  have "\<exists>u n. server_step limits t u \<and> ps_stop u = StopReturned n"
  proof (cases "ps_stop s = Draining")
    case True
    then show ?thesis
      using server_step.drain [of t limits] t(2,3) by (intro exI [of _ "t\<lparr>ps_rootCancelled := True, ps_stop := StopReturned 0\<rparr>"]) (auto simp: same_stop_def)
  next
    case False
    then obtain n where "ps_stop t = AwaitingForced n" using assms t(2) by (auto simp: same_stop_def)
    then show ?thesis
      using server_step.forced_drained [of t n limits] t(3) by (intro exI [of _ "t\<lparr>ps_stop := StopReturned n\<rparr>"]) auto
  qed
  then show ?thesis using t(1) by (meson rtranclp.rtrancl_into_rtrancl)
qed


section \<open>A sample run\<close>

lemma server_reachable_step: "server_reachable limits n s \<Longrightarrow> server_step limits s s' \<Longrightarrow> server_reachable limits n s'"
  unfolding server_reachable_def by (rule rtranclp.rtrancl_into_rtrancl)

definition run_accepted :: proxy_server where "run_accepted = accept_conn 0 (V4 1) True (started 1)"
definition run_admitted :: proxy_server where "run_admitted = admit_conn 0 1 1 run_accepted"
definition run_stopping :: proxy_server where "run_stopping = run_admitted\<lparr>ps_stopping := True, ps_stop := ClosingListeners\<rparr>"

lemma run_reach: "server_reachable {(1, 1)} 1 run_admitted" "server_reachable {(1, 1)} 1 run_stopping"
proof -
  have s: "server_reachable {(1, 1)} 1 (started 1)" by (simp add: server_reachable_def)
  have "server_step {(1, 1)} (started 1) run_accepted"
    unfolding run_accepted_def by (rule server_step.accept) (simp_all add: started_def)
  moreover have "server_step {(1, 1)} run_accepted run_admitted"
    unfolding run_admitted_def by (rule server_step.admit [where source = "V4 1" and allowed = True]) (simp_all add: run_accepted_def accept_conn_def started_def)
  ultimately show a: "server_reachable {(1, 1)} 1 run_admitted" using s server_reachable_step by blast
  have "server_step {(1, 1)} run_admitted run_stopping"
    unfolding run_stopping_def
    by (rule server_step.stop) (simp add: run_admitted_def admit_conn_def run_accepted_def accept_conn_def started_def acquire_def source_count_def)
  with a show "server_reachable {(1, 1)} 1 run_stopping" using server_reachable_step by blast
qed

lemma run_sessions: "ps_sessions run_admitted = [new_session (V4 1)]"
  by (simp add: run_admitted_def admit_conn_def run_accepted_def accept_conn_def started_def acquire_def source_count_def)



definition run_finished :: proxy_server where
  "run_finished = on_session 0 (\<lambda>x. x\<lparr>os_phase := Finished\<rparr>) (on_session 0 (\<lambda>x. x\<lparr>os_phase := Unregistering\<rparr>)
     ((on_session 0 (\<lambda>x. (session_close x)\<lparr>os_phase := Releasing\<rparr>) (on_session 0 (\<lambda>x. x\<lparr>os_phase := Closing\<rparr>) run_stopping))
        \<lparr>ps_admission := release (V4 1) (ps_admission run_stopping)\<rparr>))"

definition run_returned :: proxy_server where
  "run_returned = run_finished\<lparr>ps_listenersClosed := True, ps_loops := [LoopExited], ps_rootCancelled := True, ps_stop := StopReturned 0\<rparr>"

lemmas run_eval = run_stopping_def run_admitted_def admit_conn_def run_accepted_def accept_conn_def started_def acquire_def
  source_count_def on_session_def new_session_def

lemma run_finish: "server_reachable {(1, 1)} 1 run_finished"
proof -
  let ?a = "on_session 0 (\<lambda>x. x\<lparr>os_phase := Closing\<rparr>) run_stopping"
  let ?b = "on_session 0 (\<lambda>x. (session_close x)\<lparr>os_phase := Releasing\<rparr>) ?a"
  let ?c = "on_session 0 (\<lambda>x. x\<lparr>os_phase := Unregistering\<rparr>) (?b\<lparr>ps_admission := release (V4 1) (ps_admission run_stopping)\<rparr>)"
  have "server_step {(1, 1)} run_stopping ?a" by (rule server_step.refused) (simp_all add: run_eval)
  moreover have "server_step {(1, 1)} ?a ?b" by (rule server_step.close) (simp_all add: run_eval)
  moreover have "server_step {(1, 1)} ?b ?c"
    using server_step.release [of 0 ?b "{(1, 1)}"] by (simp add: run_eval)
  moreover have "server_step {(1, 1)} ?c run_finished"
    unfolding run_finished_def by (rule server_step.unregister) (simp_all add: run_eval)
  ultimately show ?thesis using run_reach(2) server_reachable_step by blast
qed

lemma run_return: "server_reachable {(1, 1)} 1 run_returned"
proof -
  let ?a = "run_finished\<lparr>ps_listenersClosed := True, ps_stop := AwaitingLoops\<rparr>"
  let ?b = "?a\<lparr>ps_loops := [LoopExited]\<rparr>"
  let ?c = "?b\<lparr>ps_stop := Draining\<rparr>"
  have f: "ps_stop run_finished = ClosingListeners" "ps_loops run_finished = [Accepting]" "drained run_finished"
    by (simp_all add: run_finished_def run_eval drained_def)
  have "server_step {(1, 1)} run_finished ?a" using f by (intro server_step.close_listeners) simp
  moreover have "server_step {(1, 1)} ?a ?b" using server_step.exit [of 0 ?a "{(1, 1)}"] f by simp
  moreover have "server_step {(1, 1)} ?b ?c" using f by (intro server_step.loops_done) simp_all
  moreover have "server_step {(1, 1)} ?c run_returned"
    using server_step.drain [of ?c "{(1, 1)}"] f by (simp add: run_returned_def drained_def)
  ultimately show ?thesis using run_finish server_reachable_step by blast
qed

theorem stop_leaves_nothing_witness:
  "server_reachable {(1, 1)} 1 run_returned \<and> length (ps_sessions run_returned) = 1 \<and>
   list_all (\<lambda>x. os_phase x = Finished \<and> \<not> os_clientOpen x \<and> \<not> os_backendOpen x) (ps_sessions run_returned)"
proof -
  have "ps_stop run_returned = StopReturned 0" "length (ps_sessions run_returned) = 1"
    by (simp_all add: run_returned_def run_finished_def run_eval)
  then show ?thesis using stop_leaves_nothing [OF run_return] run_return by (simp add: list_all_iff)
qed

section \<open>Generations of the server\<close>

text \<open>The pause of an accept loop after an error.\<close>

definition next_delay :: "duration \<Rightarrow> duration" where
  "next_delay delay = (let d = (if delay = 0 then 5 * 1000000 else delay * 2) in if second < d then second else d)"

text \<open>
  The addresses of the daemon itself: those of the interfaces, as text, and those its listeners
  are bound to.
\<close>

fun listener_self :: "net_addr \<Rightarrow> addr option" where
  "listener_self (TCPAddr bytes) =
     (case AddrFromSlice bytes of
        Some ip \<Rightarrow> if IsUnspecified ip then None else Some (Unmap ip) | None \<Rightarrow> None)"
| "listener_self OtherAddr = None"

definition self_addresses :: "string list \<Rightarrow> net_addr list \<Rightarrow> addr set" where
  "self_addresses interfaces listeners =
     set (List.map_filter (\<lambda>a. map_option (\<lambda>p. Unmap (pfx_addr p)) (ParsePrefix a)) interfaces) \<union>
     set (List.map_filter listener_self listeners)"

record 'e Server =
  svr_rt :: "'e router"
  svr_monitor :: "Monitor option"
  svr_self :: "addr set"
  svr_generations :: Generations
  svr_expectedListeners :: nat

definition RefreshNetworkAddresses :: "string list \<Rightarrow> net_addr list \<Rightarrow> 'e Server \<Rightarrow> 'e Server" where
  "RefreshNetworkAddresses interfaces listeners s = s\<lparr>svr_self := self_addresses interfaces listeners\<rparr>"

definition NewServer :: "Config \<Rightarrow> Monitor option \<Rightarrow> string list \<Rightarrow> policy_error + 'e Server" where
  "NewServer c hm interfaces =
     map_sum id (\<lambda>rt. RefreshNetworkAddresses interfaces []
       \<lparr>svr_rt = rt, svr_monitor = hm, svr_self = {}, svr_generations = NewGenerations,
        svr_expectedListeners = (if px_HTTPSListen (cfg_Proxy c) \<noteq> [] then 1 else 0) + (if px_HTTPListen (cfg_Proxy c) \<noteq> [] then 1 else 0)\<rparr>)
       (newRouterGeneration c hm (Active NewGenerations))"

definition server_Reload :: "Config \<Rightarrow> Monitor option \<Rightarrow> string list \<Rightarrow> net_addr list \<Rightarrow> 'e Server \<Rightarrow> policy_error + 'e Server" where
  "server_Reload c hm interfaces listeners s =
     (let (generation, gs) = Advance (svr_generations s)
      in map_sum id (\<lambda>rt. RefreshNetworkAddresses interfaces listeners
           (s\<lparr>svr_rt := rt, svr_monitor := hm, svr_generations := gs\<rparr>)) (newRouterGeneration c hm generation))"

definition server_Generation :: "'e Server option \<Rightarrow> 64 word" where
  "server_Generation s = (case s of None \<Rightarrow> 0 | Some srv \<Rightarrow> Active (svr_generations srv))"

definition ListenersReady :: "'e Server option \<Rightarrow> bool \<Rightarrow> nat \<Rightarrow> bool" where
  "ListenersReady s stopping listeners =
     (case s of None \<Rightarrow> False | Some srv \<Rightarrow> \<not> stopping \<and> listeners = svr_expectedListeners srv)"

definition stop_grace :: "'e router \<Rightarrow> duration" where
  "stop_grace rt = (if rt_shutdownGrace rt \<le> 0 then seconds defaultShutdownGrace else rt_shutdownGrace rt)"

lemma mem_map_filter: "y \<in> set (List.map_filter f xs) \<longleftrightarrow> (\<exists>x\<in>set xs. f x = Some y)"
  by (induction xs) (auto simp: List.map_filter_simps split: option.split)

lemma self_addresses_unmapped: "a \<in> self_addresses interfaces listeners \<Longrightarrow> Unmap a = a"
  by (auto simp: self_addresses_def mem_map_filter Unmap_facts elim!: listener_self.elims split: option.splits if_splits)

lemma next_delay_bounds:
  "0 \<le> delay \<Longrightarrow> 0 < next_delay delay \<and> next_delay delay \<le> second \<and> (delay \<le> second \<longrightarrow> delay \<le> next_delay delay)"
  by (auto simp: next_delay_def Let_def second_def)

lemma own_address_denied: "Unmap a \<in> self \<Longrightarrow> \<not> addressAllowed p a mark self"
  by (auto simp: addressAllowed_def Let_def)

end
