(* ===== verification/Host.thy ===== *)
theory Host
  imports Kernel_Plan Config_Types
begin

text \<open>
  The host the daemon runs on: the kernel behind \<open>vishvananda/netlink\<close> and \<open>wgctrl\<close>, the programs
  \<open>iptables\<close> and \<open>iptables-restore\<close>, and the files under \<open>/proc/sys\<close>. None of that is code of the
  repository, so it is a parameter: a record of look-ups on an abstract world \<open>'w\<close> and one function
  that runs a command and may change the world. Code that talks to the host is an \<open>action\<close>: it
  takes the state of the process, answers with an error or a value, and returns the new state.
  \<open>within\<close> says which commands an action can run, whatever the host answers.
\<close>


section \<open>What the libraries return\<close>

text \<open>\<open>netlink.Link\<close>, \<open>Addr\<close>, \<open>Route\<close> and \<open>Rule\<close>, as far as the daemon reads them.\<close>

record netlink_link =
  lk_Index :: int
  lk_Name :: string
  lk_Type :: string
  lk_MTU :: int
  lk_Alias :: string
  lk_Up :: bool

record netlink_route =
  ro_Table :: int
  ro_LinkIndex :: int
  ro_Dst :: "prefix option"
  ro_Src :: "addr option"
  ro_Protocol :: nat

record netlink_rule =
  ru_Priority :: int
  ru_Mark :: u32
  ru_Mask :: "u32 option"
  ru_Table :: int
  ru_Protocol :: nat

datatype address_family = FAMILY_V4 | FAMILY_ALL

text \<open>\<open>wgtypes\<close>: a key is its 32 bytes; an endpoint is its text.\<close>

type_synonym wg_key = string

definition zero_key :: wg_key where
  "zero_key = replicate 32 (CHR 0x00)"

record wg_peer =
  wp_PublicKey :: wg_key
  wp_Endpoint :: "string option"
  wp_Keepalive :: duration
  wp_AllowedIPs :: "prefix list"

record wg_device =
  wd_PublicKey :: wg_key
  wd_Peers :: "wg_peer list"

record wg_peer_config =
  pc_PublicKey :: wg_key
  pc_Endpoint :: string
  pc_ReplaceAllowedIPs :: bool
  pc_AllowedIPs :: "prefix list"
  pc_Keepalive :: "duration option"

record wg_config =
  wc_PrivateKey :: wg_key
  wc_ReplacePeers :: bool
  wc_Peers :: "wg_peer_config list"


section \<open>Commands and look-ups\<close>

datatype os_error = ENOENT | LinkNotFoundError | HostError string

datatype host_cmd =
    IptablesRestore string
  | Iptables "string list"
  | WriteFile string string
  | LinkAdd string int string
  | LinkDel netlink_link
  | LinkSetAlias netlink_link string
  | LinkSetMTU netlink_link int
  | LinkSetUp netlink_link
  | AddrAdd netlink_link prefix
  | AddrDel netlink_link prefix
  | RouteAdd netlink_route
  | RouteDel netlink_route
  | RuleAdd netlink_rule
  | RuleDel netlink_rule
  | ConfigureDevice string wg_config

text \<open>
  \<open>ListChain\<close> is \<open>iptables -w 5 -t table -S chain\<close>: the combined output, with the exit error when
  there is one. \<open>RouteList\<close> is \<open>RouteListFiltered\<close> with the filters the daemon sets: an output
  link, a table (0 for all of them) and a protocol. \<open>ParseAddr\<close> is netlink's, the key functions are
  \<open>wgtypes\<close>' and SHA-256, whose first eight bytes in hexadecimal are \<open>KeyDigest\<close>; an address that
  \<open>net.ResolveUDPAddr\<close> returns is its text.
\<close>

record 'w host =
  h_run :: "host_cmd \<Rightarrow> 'w \<Rightarrow> os_error option \<times> 'w"
  h_ListChain :: "string \<Rightarrow> string \<Rightarrow> 'w \<Rightarrow> (os_error \<times> string) + string"
  h_ReadFile :: "string \<Rightarrow> 'w \<Rightarrow> os_error + string"
  h_LinkByName :: "string \<Rightarrow> 'w \<Rightarrow> os_error + netlink_link"
  h_LinkList :: "'w \<Rightarrow> os_error + netlink_link list"
  h_AddrList :: "netlink_link \<Rightarrow> address_family \<Rightarrow> 'w \<Rightarrow> os_error + prefix option list"
  h_RouteList :: "address_family \<Rightarrow> int option \<Rightarrow> int \<Rightarrow> nat option \<Rightarrow> 'w \<Rightarrow>
                  os_error + netlink_route list"
  h_RuleList :: "'w \<Rightarrow> os_error + netlink_rule list"
  h_Device :: "string \<Rightarrow> 'w \<Rightarrow> os_error + wg_device"
  h_ResolveUDPAddr :: "string \<Rightarrow> 'w \<Rightarrow> os_error + string"
  h_ParseAddr :: "string \<Rightarrow> os_error + prefix"
  h_ParseKey :: "string \<Rightarrow> wg_key option"
  h_PublicKey :: "wg_key \<Rightarrow> wg_key"
  h_KeyDigest :: "wg_key \<Rightarrow> string"


section \<open>Actions\<close>

text \<open>The process keeps the global sysctls it has set, with the values it found.\<close>

record sysctlRecord =
  sy_Required :: string
  sy_Previous :: string

record 'w process =
  ps_world :: 'w
  ps_sysctls :: "(string \<times> sysctlRecord) list"

type_synonym ('w, 'e, 'a) action = "'w process \<Rightarrow> ('e + 'a) \<times> 'w process"

definition done_with :: "'a \<Rightarrow> ('w, 'e, 'a) action" where
  "done_with x s = (Inr x, s)"

definition fail_with :: "'e \<Rightarrow> ('w, 'e, 'a) action" where
  "fail_with e s = (Inl e, s)"

text \<open>\<open>x, err := m(); if err != nil { return err }\<close> followed by the rest.\<close>

definition and_then ::
  "('w, 'e, 'a) action \<Rightarrow> ('a \<Rightarrow> ('w, 'e, 'b) action) \<Rightarrow> ('w, 'e, 'b) action"
where
  "and_then m k s = (case m s of (Inl e, t) \<Rightarrow> (Inl e, t) | (Inr x, t) \<Rightarrow> k x t)"

text \<open>An error wrapped by \<open>fmt.Errorf\<close>, and an error that is kept for later.\<close>

definition wrapping :: "('d \<Rightarrow> 'e) \<Rightarrow> ('w, 'd, 'a) action \<Rightarrow> ('w, 'e, 'a) action" where
  "wrapping f m s = (case m s of (Inl e, t) \<Rightarrow> (Inl (f e), t) | (Inr x, t) \<Rightarrow> (Inr x, t))"

definition attempt :: "('w, 'e, 'a) action \<Rightarrow> ('w, 'e, 'e list) action" where
  "attempt m s = (case m s of (Inl e, t) \<Rightarrow> (Inr [e], t) | (Inr x, t) \<Rightarrow> (Inr [], t))"

text \<open>A look-up of the world, and a command.\<close>

definition ask :: "('w \<Rightarrow> 'e + 'a) \<Rightarrow> ('w, 'e, 'a) action" where
  "ask f s = (f (ps_world s), s)"

definition command :: "'w host \<Rightarrow> host_cmd \<Rightarrow> ('w, os_error, unit) action" where
  "command h c s =
     (let (e, w) = h_run h c (ps_world s)
      in ((case e of None \<Rightarrow> Inr () | Some err \<Rightarrow> Inl err), s\<lparr>ps_world := w\<rparr>))"

text \<open>A loop that stops at the first error, and one that collects the errors of its rounds.\<close>

fun for_each :: "('x \<Rightarrow> ('w, 'e, unit) action) \<Rightarrow> 'x list \<Rightarrow> ('w, 'e, unit) action" where
  "for_each body [] = done_with ()"
| "for_each body (x # xs) = and_then (body x) (\<lambda>_. for_each body xs)"

fun collect :: "('x \<Rightarrow> ('w, 'e, 'e list) action) \<Rightarrow> 'x list \<Rightarrow> ('w, 'e, 'e list) action" where
  "collect body [] = done_with []"
| "collect body (x # xs) =
     and_then (body x) (\<lambda>es. and_then (collect body xs) (\<lambda>rest. done_with (es @ rest)))"

text \<open>\<open>errors.Join\<close>: no error for an empty list.\<close>

definition joined :: "('e list \<Rightarrow> 'e) \<Rightarrow> 'e list \<Rightarrow> ('w, 'e, unit) action" where
  "joined join_errors es = (if es = [] then done_with () else fail_with (join_errors es))"


section \<open>The commands an action may run\<close>

inductive runs :: "'w host \<Rightarrow> (host_cmd \<Rightarrow> bool) \<Rightarrow> 'w \<Rightarrow> 'w \<Rightarrow> bool" for h P where
  runs_none: "runs h P w w"
| runs_more: "runs h P w w' \<Longrightarrow> P c \<Longrightarrow> runs h P w (snd (h_run h c w'))"

definition within :: "'w host \<Rightarrow> (host_cmd \<Rightarrow> bool) \<Rightarrow> ('w, 'e, 'a) action \<Rightarrow> bool" where
  "within h P m \<longleftrightarrow> (\<forall>s. runs h P (ps_world s) (ps_world (snd (m s))))"

named_theorems within_intros \<open>which commands the combinators and the operations may run\<close>

lemma runs_trans: "runs h P v w \<Longrightarrow> runs h P u v \<Longrightarrow> runs h P u w"
  by (induction rule: runs.induct) (auto intro: runs.intros)

lemma runs_mono: "runs h P v w \<Longrightarrow> (\<And>c. P c \<Longrightarrow> Q c) \<Longrightarrow> runs h Q v w"
  by (induction rule: runs.induct) (auto intro: runs.intros)

lemma runs_False: "runs h (\<lambda>_. False) v w \<Longrightarrow> w = v"
  by (induction rule: runs.induct) auto

text \<open>A property of the world that every permitted command keeps is kept by the action.\<close>

lemma runs_invariant:
  assumes "runs h P v w" and "\<And>c u. P c \<Longrightarrow> I u \<Longrightarrow> I (snd (h_run h c u))" and "I v"
  shows "I w"
  using assms by (induction rule: runs.induct) auto

lemma within_mono: "within h P m \<Longrightarrow> (\<And>c. P c \<Longrightarrow> Q c) \<Longrightarrow> within h Q m"
  unfolding within_def using runs_mono by metis

lemma within_done [within_intros]: "within h P (done_with x)"
  by (simp add: within_def done_with_def runs_none)

lemma within_fail [within_intros]: "within h P (fail_with e)"
  by (simp add: within_def fail_with_def runs_none)

lemma within_ask [within_intros]: "within h P (ask f)"
  by (simp add: within_def ask_def runs_none)

lemma within_and_then [within_intros]:
  assumes m: "within h P m" and k: "\<And>x. within h P (k x)"
  shows "within h P (and_then m k)"
  unfolding within_def
proof
  fix s
  obtain r t where mt: "m s = (r, t)" by fastforce
  with m have 1: "runs h P (ps_world s) (ps_world t)"
    by (metis snd_conv within_def)
  show "runs h P (ps_world s) (ps_world (snd (and_then m k s)))"
  proof (cases r)
    case (Inr x)
    have "runs h P (ps_world t) (ps_world (snd (k x t)))"
      using k by (simp add: within_def)
    with 1 mt Inr show ?thesis
      by (simp add: and_then_def runs_trans)
  qed (simp add: and_then_def mt 1)
qed

lemma within_wrapping [within_intros]: "within h P m \<Longrightarrow> within h P (wrapping f m)"
  by (auto simp: within_def wrapping_def split: prod.splits sum.splits) (metis snd_conv)+

lemma within_attempt [within_intros]: "within h P m \<Longrightarrow> within h P (attempt m)"
  by (auto simp: within_def attempt_def split: prod.splits sum.splits) (metis snd_conv)+

lemma within_command [within_intros]: "P c \<Longrightarrow> within h P (command h c)"
  using runs_more [OF runs_none, of P c h]
  by (simp add: within_def command_def Let_def split_beta)

lemma within_joined [within_intros]: "within h P (joined j es)"
  by (simp add: joined_def within_intros)

lemma within_for_each [within_intros]:
  "(\<And>x. x \<in> set xs \<Longrightarrow> within h P (body x)) \<Longrightarrow> within h P (for_each body xs)"
  by (induction xs) (auto intro!: within_intros)

lemma within_collect [within_intros]:
  "(\<And>x. x \<in> set xs \<Longrightarrow> within h P (body x)) \<Longrightarrow> within h P (collect body xs)"
  by (induction xs) (auto intro!: within_intros)

lemma within_if [within_intros]:
  "(b \<Longrightarrow> within h P m) \<Longrightarrow> (\<not> b \<Longrightarrow> within h P n) \<Longrightarrow> within h P (if b then m else n)"
  by simp

lemma within_option [within_intros]:
  "(x = None \<Longrightarrow> within h P m) \<Longrightarrow> (\<And>y. x = Some y \<Longrightarrow> within h P (n y)) \<Longrightarrow>
   within h P (case x of None \<Rightarrow> m | Some y \<Rightarrow> n y)"
  by (cases x) auto

lemma within_sum [within_intros]:
  "(\<And>e. x = Inl e \<Longrightarrow> within h P (m e)) \<Longrightarrow> (\<And>y. x = Inr y \<Longrightarrow> within h P (n y)) \<Longrightarrow>
   within h P (case x of Inl e \<Rightarrow> m e | Inr y \<Rightarrow> n y)"
  by (cases x) auto

text \<open>Reading a successful action from its parts.\<close>

lemma and_then_Inr:
  "and_then m k s = (Inr y, t) \<longleftrightarrow> (\<exists>x u. m s = (Inr x, u) \<and> k x u = (Inr y, t))"
  by (auto simp: and_then_def split: prod.splits sum.splits)

lemma and_then_ask: "and_then (ask f) k s = (case f (ps_world s) of Inl e \<Rightarrow> (Inl e, s) | Inr x \<Rightarrow> k x s)"
  by (simp add: and_then_def ask_def)

lemma wrapping_Inr: "wrapping f m s = (Inr x, t) \<longleftrightarrow> m s = (Inr x, t)"
  by (auto simp: wrapping_def split: prod.splits sum.splits)

lemma attempt_Inr:
  "attempt m s = (Inr es, t) \<longleftrightarrow>
     (\<exists>e. m s = (Inl e, t) \<and> es = [e]) \<or> (\<exists>x. m s = (Inr x, t) \<and> es = [])"
  by (auto simp: attempt_def split: prod.splits sum.splits)

lemma done_with_Inr: "done_with x s = (Inr y, t) \<longleftrightarrow> y = x \<and> t = s"
  by (auto simp: done_with_def)

lemma fail_with_Inr: "fail_with e s \<noteq> (Inr y, t)"
  by (simp add: fail_with_def)

lemma joined_Inr: "joined j es s = (Inr x, t) \<longleftrightarrow> es = [] \<and> t = s"
  by (auto simp: joined_def done_with_def fail_with_def)

lemma command_Inr:
  "command h c s = (Inr x, t) \<longleftrightarrow>
     fst (h_run h c (ps_world s)) = None \<and> t = s\<lparr>ps_world := snd (h_run h c (ps_world s))\<rparr>"
  by (auto simp: command_def Let_def split: prod.splits option.splits)

lemmas action_Inr =
  and_then_Inr wrapping_Inr attempt_Inr done_with_Inr fail_with_Inr joined_Inr command_Inr

end
