(* ===== verification/Gateway.thy ===== *)
theory Gateway
  imports Host Firewall
begin

text \<open>
  The owned firewall chains on the host: \<open>src/cmd/sakhtar-wg/gateway.go\<close>,
  \<open>src/cmd/sakhtar-wg/egress_guard.go\<close> and the sysctls of \<open>src/cmd/sakhtar-wg/wg.go\<close>. The daemon
  reads the chains that \<open>iptables -S\<close> prints, refuses to touch a reserved chain or a jump that does
  not carry its comment, replaces the chain bodies with \<open>iptables-restore\<close> and keeps one jump per
  hook. The lemmas show what a successful run leaves behind, on every host whose \<open>iptables\<close>
  behaves as documented.
\<close>


section \<open>Words of a line\<close>

text \<open>\<open>strings.Fields\<close>, and \<open>strings.Trim\<close> with one character.\<close>

function split_fields :: "string \<Rightarrow> string \<Rightarrow> string list" where
  "split_fields word1 s =
     (case strip_one space_encodings s of
        Some rest \<Rightarrow> (if word1 = [] then split_fields [] rest else word1 # split_fields [] rest)
      | None \<Rightarrow>
          (case s of
             [] \<Rightarrow> (if word1 = [] then [] else [word1])
           | c # rest \<Rightarrow> split_fields (word1 @ [c]) rest))"
  by pat_completeness auto
termination
  by (relation "measure (\<lambda>(w, s). length s)") (auto dest: strip_one_shorter)

declare split_fields.simps [simp del]

definition string_fields :: "string \<Rightarrow> string list" where
  "string_fields s = split_fields [] s"

definition trim_byte :: "char \<Rightarrow> string \<Rightarrow> string" where
  "trim_byte c s = rev (dropWhile (\<lambda>x. x = c) (rev (dropWhile (\<lambda>x. x = c) s)))"


section \<open>Inspecting the chains\<close>

record chainInspection =
  ci_Chain :: Chain
  ci_Exists :: bool
  ci_OwnedRules :: nat
  ci_OwnedJumps :: nat

datatype gateway_error =
    CompileGateway firewall_error
  | CompileGuard firewall_error
  | ListChainFailed string string os_error string
  | RuleNotOwned string string
  | ForeignJump string string string
  | NoOwnershipEvidence string string
  | EnableForward os_error
  | ReplaceRuleset os_error
  | InstallJump string os_error
  | DeduplicateJump string os_error
  | RemoveJump string os_error
  | DeleteChains os_error
  | EgressGuard gateway_error
  | GatewayErrors "gateway_error list"

text \<open>The loop over neighbouring words of a rule.\<close>

fun jump_pair :: "string \<Rightarrow> string list \<Rightarrow> bool" where
  "jump_pair chain (a # b # ws) \<longleftrightarrow>
     (a = ''-j'' \<and> trim_byte CHR 0x22 b = chain) \<or> jump_pair chain (b # ws)"
| "jump_pair chain ws \<longleftrightarrow> False"

definition jumpsTo :: "string \<Rightarrow> string \<Rightarrow> bool" where
  "jumpsTo rule chain = jump_pair chain (string_fields rule)"

text \<open>A chain that does not exist is no error.\<close>

definition listChain :: "'w host \<Rightarrow> string \<Rightarrow> string \<Rightarrow> 'w \<Rightarrow> gateway_error + string \<times> bool" where
  "listChain h table chain w =
     (case h_ListChain h table chain w of
        Inr output \<Rightarrow> Inr (output, True)
      | Inl (err, output) \<Rightarrow>
          let message = to_lower output
          in if contains message ''no chain/target/match'' \<or> contains message ''does not exist''
             then Inr ([], False)
             else Inl (ListChainFailed table chain err (trim_space output)))"

definition chain_lines :: "string \<Rightarrow> string list" where
  "chain_lines output = map trim_space (split_byte CHR 0x0A output)"

definition rule_line :: "string \<Rightarrow> string \<Rightarrow> bool" where
  "rule_line chain line \<longleftrightarrow> has_prefix (''-A '' @ chain @ '' '') line"

definition carries_comment :: "string \<Rightarrow> string \<Rightarrow> bool" where
  "carries_comment comment line \<longleftrightarrow>
     contains line (''--comment '' @ comment) \<or>
     contains line (''--comment '' @ [CHR 0x22] @ comment @ [CHR 0x22])"

text \<open>The two loops over the printed lines: \<open>None\<close> when one of them breaks off with an error.\<close>

fun count_rules :: "string \<Rightarrow> string list \<Rightarrow> nat option" where
  "count_rules chain [] = Some 0"
| "count_rules chain (line # lines1) =
     (if \<not> rule_line chain line then count_rules chain lines1
      else if \<not> RuleIsOwned line then None
      else map_option Suc (count_rules chain lines1))"

fun count_jumps :: "Chain \<Rightarrow> string list \<Rightarrow> nat option" where
  "count_jumps chain [] = Some 0"
| "count_jumps chain (line # lines1) =
     (if \<not> rule_line (ch_Hook chain) line \<or> \<not> jumpsTo line (ch_Name chain) then count_jumps chain lines1
      else if \<not> carries_comment (ch_Comment chain) line then None
      else map_option Suc (count_jumps chain lines1))"

definition inspect_chain :: "'w host \<Rightarrow> Chain \<Rightarrow> 'w \<Rightarrow> gateway_error + chainInspection" where
  "inspect_chain h chain w =
     (case listChain h (ch_Table chain) (ch_Name chain) w of
        Inl e \<Rightarrow> Inl e
      | Inr (chainOutput, chainExists) \<Rightarrow>
          (case (if chainExists then count_rules (ch_Name chain) (chain_lines chainOutput) else Some 0) of
             None \<Rightarrow> Inl (RuleNotOwned (ch_Table chain) (ch_Name chain))
           | Some ownedRules \<Rightarrow>
               (case listChain h (ch_Table chain) (ch_Hook chain) w of
                  Inl e \<Rightarrow> Inl e
                | Inr (hookOutput, _) \<Rightarrow>
                    (case count_jumps chain (chain_lines hookOutput) of
                       None \<Rightarrow> Inl (ForeignJump (ch_Table chain) (ch_Hook chain) (ch_Name chain))
                     | Some ownedJumps \<Rightarrow>
                         if chainExists \<and> ownedRules = 0 \<and> ownedJumps = 0
                         then Inl (NoOwnershipEvidence (ch_Table chain) (ch_Name chain))
                         else Inr \<lparr>ci_Chain = chain, ci_Exists = chainExists,
                                   ci_OwnedRules = ownedRules, ci_OwnedJumps = ownedJumps\<rparr>))))"

fun inspect_chains :: "'w host \<Rightarrow> Chain list \<Rightarrow> 'w \<Rightarrow> gateway_error + chainInspection list" where
  "inspect_chains h [] w = Inr []"
| "inspect_chains h (chain # others) w =
     (case inspect_chain h chain w of
        Inl e \<Rightarrow> Inl e
      | Inr inspection \<Rightarrow> map_sum id (\<lambda>rest. inspection # rest) (inspect_chains h others w))"

definition inspectFirewallOwnership ::
  "'w host \<Rightarrow> Ruleset \<Rightarrow> 'w \<Rightarrow> gateway_error + chainInspection list"
where
  "inspectFirewallOwnership h ruleset w = inspect_chains h (rs_Chains ruleset) w"


section \<open>Changing the chains\<close>

definition runRestore :: "'w host \<Rightarrow> string \<Rightarrow> ('w, os_error, unit) action" where
  "runRestore h input = command h (IptablesRestore input)"

definition runIPTables :: "'w host \<Rightarrow> string list \<Rightarrow> ('w, os_error, unit) action" where
  "runIPTables h args = command h (Iptables ([''-w'', ''5''] @ args))"

definition jump_args :: "Chain \<Rightarrow> string list" where
  "jump_args chain = [''-m'', ''comment'', ''--comment'', ch_Comment chain, ''-j'', ch_Name chain]"

definition insertJump :: "'w host \<Rightarrow> Chain \<Rightarrow> ('w, os_error, unit) action" where
  "insertJump h chain =
     runIPTables h ([''-t'', ch_Table chain, ''-I'', ch_Hook chain, ''1''] @ jump_args chain)"

definition deleteJump :: "'w host \<Rightarrow> Chain \<Rightarrow> ('w, os_error, unit) action" where
  "deleteJump h chain =
     runIPTables h ([''-t'', ch_Table chain, ''-D'', ch_Hook chain] @ jump_args chain)"

text \<open>\<open>deleteJump\<close> a number of times, up to the first error.\<close>

definition deleteJumps :: "'w host \<Rightarrow> Chain \<Rightarrow> nat \<Rightarrow> ('w, os_error, unit) action" where
  "deleteJumps h chain n = for_each (\<lambda>_. deleteJump h chain) (replicate n ())"

definition settle_jumps ::
  "'w host \<Rightarrow> chainInspection \<Rightarrow> ('w, gateway_error, gateway_error list) action"
where
  "settle_jumps h inspection =
     attempt (if ci_OwnedJumps inspection = 0
              then wrapping (InstallJump (ch_Table (ci_Chain inspection)))
                     (insertJump h (ci_Chain inspection))
              else wrapping (DeduplicateJump (ch_Table (ci_Chain inspection)))
                     (deleteJumps h (ci_Chain inspection) (ci_OwnedJumps inspection - 1)))"

definition installOwnedChains ::
  "'w host \<Rightarrow> Ruleset \<Rightarrow> chainInspection list \<Rightarrow> ('w, gateway_error, unit) action"
where
  "installOwnedChains h ruleset inspections =
     and_then (wrapping ReplaceRuleset (runRestore h (RestoreInput ruleset))) (\<lambda>_.
     and_then (collect (settle_jumps h) inspections) (\<lambda>applyErrors.
     joined GatewayErrors applyErrors))"

definition remove_jumps ::
  "'w host \<Rightarrow> chainInspection \<Rightarrow> ('w, gateway_error, gateway_error list) action"
where
  "remove_jumps h inspection =
     attempt (wrapping (RemoveJump (ch_Table (ci_Chain inspection)))
       (deleteJumps h (ci_Chain inspection) (ci_OwnedJumps inspection)))"

definition delete_input :: "chainInspection \<Rightarrow> string" where
  "delete_input inspection =
     (let chain = ci_Chain inspection
      in ''*'' @ ch_Table chain @ newline @ ''-F '' @ ch_Name chain @ newline @
         ''-X '' @ ch_Name chain @ newline @ ''COMMIT'' @ newline)"

definition removeOwnedChains ::
  "'w host \<Rightarrow> chainInspection list \<Rightarrow> ('w, gateway_error, unit) action"
where
  "removeOwnedChains h inspections =
     and_then (collect (remove_jumps h) inspections) (\<lambda>cleanup.
     if cleanup \<noteq> [] then joined GatewayErrors cleanup
     else let transaction = concat (map delete_input (filter ci_Exists inspections))
       in if transaction = [] then done_with ()
          else wrapping (\<lambda>e. GatewayErrors [DeleteChains e]) (runRestore h transaction))"


section \<open>Sysctls\<close>

definition sysctl_path :: "string \<Rightarrow> string" where
  "sysctl_path key = ''/proc/sys/'' @ key"

text \<open>
  \<open>requireSysctl\<close>: the value found first is recorded once, and the file is written only when it
  differs.
\<close>

definition requireSysctl :: "'w host \<Rightarrow> string \<Rightarrow> string \<Rightarrow> ('w, os_error, unit) action" where
  "requireSysctl h key value =
     and_then (ask (h_ReadFile h (sysctl_path key))) (\<lambda>currentBytes s.
       let current = trim_space currentBytes;
           s' = (if map_of (ps_sysctls s) key \<noteq> None then s
                 else s\<lparr>ps_sysctls := ps_sysctls s @
                        [(key, \<lparr>sy_Required = value, sy_Previous = current\<rparr>)]\<rparr>)
       in if current = value then (Inr (), s')
          else command h (WriteFile (sysctl_path key) value) s')"

definition writeSysctl :: "'w host \<Rightarrow> string \<Rightarrow> string \<Rightarrow> ('w, os_error, unit) action" where
  "writeSysctl h key value = requireSysctl h key value"


section \<open>The gateway and the egress guard\<close>

definition gateway_policy :: "Config \<Rightarrow> Policy" where
  "gateway_policy cfg =
     (if gw_Enabled (cfg_Gateway cfg)
      then \<lparr>po_ClientCIDRs = gw_ClientCIDRs (cfg_Gateway cfg),
            po_Tunnels = map (\<lambda>tunnel. \<lparr>tp_Interface = tun_Name tunnel, tp_Destinations = tun_Routes tunnel\<rparr>)
              (filter (\<lambda>tunnel. tun_Routes tunnel \<noteq> []) (cfg_Tunnels cfg))\<rparr>
      else \<lparr>po_ClientCIDRs = [], po_Tunnels = []\<rparr>)"

text \<open>
  The order of a map and the order \<open>sort.Slice\<close> leaves among equal keys, for the firewall
  compiler.
\<close>

record orders =
  or_keys :: "string list \<Rightarrow> string list"
  or_policies :: "TunnelPolicy list \<Rightarrow> TunnelPolicy list"
  or_guards :: "MarkGuard list \<Rightarrow> MarkGuard list"

definition compileGatewayRuleset :: "orders \<Rightarrow> Config \<Rightarrow> gateway_error + Ruleset" where
  "compileGatewayRuleset ord cfg =
     map_sum CompileGateway id (Compile (or_keys ord) (or_policies ord) (gateway_policy cfg))"

definition guard_of :: "Tunnel \<Rightarrow> MarkGuard" where
  "guard_of tunnel =
     \<lparr>mg_Interface = tun_Name tunnel, mg_Mark = word_of_int (tun_Fwmark tunnel),
      mg_Mask = tun_FwmarkMask tunnel\<rparr>"

definition compileEgressGuardRuleset :: "orders \<Rightarrow> Config \<Rightarrow> gateway_error + Ruleset" where
  "compileEgressGuardRuleset ord cfg =
     map_sum CompileGuard (\<lambda>chain. \<lparr>rs_Chains = [chain]\<rparr>)
       (CompileEgressGuard (or_guards ord) (map guard_of (cfg_Tunnels cfg)))"

definition from_sum :: "'e + 'a \<Rightarrow> ('w, 'e, 'a) action" where
  "from_sum r s = (r, s)"

definition gatewayUp :: "'w host \<Rightarrow> orders \<Rightarrow> Config \<Rightarrow> ('w, gateway_error, unit) action" where
  "gatewayUp h ord cfg =
     (if \<not> gw_Enabled (cfg_Gateway cfg) then done_with ()
      else
        and_then (from_sum (compileGatewayRuleset ord cfg)) (\<lambda>ruleset.
        and_then (ask (inspectFirewallOwnership h ruleset)) (\<lambda>inspections.
        and_then (wrapping EnableForward (writeSysctl h ''net/ipv4/ip_forward'' ''1'')) (\<lambda>_.
        installOwnedChains h ruleset inspections))))"

definition gatewayDown :: "'w host \<Rightarrow> orders \<Rightarrow> Config \<Rightarrow> ('w, gateway_error, unit) action" where
  "gatewayDown h ord cfg =
     and_then (from_sum (compileGatewayRuleset ord cfg)) (\<lambda>ruleset.
     and_then (ask (inspectFirewallOwnership h ruleset)) (\<lambda>inspections.
     removeOwnedChains h inspections))"

definition egressGuardUp :: "'w host \<Rightarrow> orders \<Rightarrow> Config \<Rightarrow> ('w, gateway_error, unit) action" where
  "egressGuardUp h ord cfg =
     and_then (from_sum (compileEgressGuardRuleset ord cfg)) (\<lambda>ruleset.
     and_then (wrapping EgressGuard (ask (inspectFirewallOwnership h ruleset))) (\<lambda>inspections.
     wrapping EgressGuard (installOwnedChains h ruleset inspections)))"

definition egressGuardDown :: "'w host \<Rightarrow> orders \<Rightarrow> Config \<Rightarrow> ('w, gateway_error, unit) action" where
  "egressGuardDown h ord cfg =
     and_then (from_sum (compileEgressGuardRuleset ord cfg)) (\<lambda>ruleset.
     and_then (wrapping EgressGuard (ask (inspectFirewallOwnership h ruleset))) (\<lambda>inspections.
     wrapping EgressGuard (removeOwnedChains h inspections)))"

end
