(* ===== verification/Gateway_State.thy ===== *)
theory Gateway_State
  imports Gateway Config_Validate "HOL-Library.Sublist"
begin

text \<open>
  What the firewall code of \<open>Gateway\<close> leaves on a host. The host's \<open>iptables\<close> is described by what
  its manual promises: a view of the rules that \<open>-S\<close> prints, and what restoring, inserting and
  deleting do to that view. On every such host a successful run installs exactly the compiled
  chains with one jump each, a later run recognises them, and taking them down restores the
  firewall. Without any assumption on the host, only owned chains and jumps are ever named in a
  command.
\<close>

section \<open>Reading lines of graphic characters\<close>

definition graphic :: "char \<Rightarrow> bool" where
  "graphic c \<longleftrightarrow> 0x21 \<le> (of_char c :: nat) \<and> (of_char c :: nat) \<le> 0x7E"

lemma has_prefix_Cons: "has_prefix (x # p) (c # s) \<longleftrightarrow> x = c \<and> has_prefix p s"
  by (auto simp: has_prefix_def)

lemma strip_one_skips:
  assumes "list_all (\<lambda>p. p \<noteq> [] \<and> \<not> graphic (hd p)) ps" "graphic c"
  shows "strip_one ps (c # s) = None"
proof -
  have "\<not> has_prefix p (c # s)" if "p \<in> set ps" for p
    using assms that by (cases p) (auto simp: list_all_iff has_prefix_Cons)
  then show ?thesis
    by (auto simp: strip_one_def find_None_iff)
qed

lemma space_encodings_not_graphic:
  "list_all (\<lambda>p. p \<noteq> [] \<and> \<not> graphic (hd p)) space_encodings"
  "list_all (\<lambda>p. p \<noteq> [] \<and> \<not> graphic (hd p)) (map rev space_encodings)"
  by (simp_all add: space_encodings_def graphic_def)

lemmas strip_one_graphic = strip_one_skips [OF space_encodings_not_graphic(1)]
lemmas strip_one_graphic_rev = strip_one_skips [OF space_encodings_not_graphic(2)]

lemma trim_space_graphic:
  assumes "graphic (hd s)" "graphic (last s)" "s \<noteq> []"
  shows "trim_space s = s"
proof -
  obtain c r where s: "s = c # r" using assms(3) by (cases s) auto
  obtain d q where q: "rev s = d # q" using assms(3) by (cases "rev s") auto
  then have "s = rev q @ [d]" by (metis rev_rev_ident rev.simps(2))
  then have "last s = d" by simp
  have 1: "trim_left_of space_encodings s = s"
    using assms(1) strip_one_graphic unfolding s trim_left_of.simps [of _ "c # r"] by simp
  have 2: "trim_left_of (map rev space_encodings) (rev s) = rev s"
    using assms(2) strip_one_graphic_rev \<open>last s = d\<close>
    unfolding q trim_left_of.simps [of _ "d # q"] by simp
  show ?thesis
    by (simp add: trim_space_def 1 2)
qed

lemma split_fields_word:
  "list_all graphic w \<Longrightarrow> split_fields acc (w @ s) = split_fields (acc @ w) s"
proof (induction w arbitrary: acc)
  case (Cons c w)
  then show ?case
    using strip_one_graphic [of c "w @ s"] by (simp add: split_fields.simps [of acc "c # w @ s"])
qed simp

lemma strip_one_space: "strip_one space_encodings (CHR '' '' # s) = Some s"
  by (simp add: strip_one_def space_encodings_def has_prefix_def)

lemma strip_one_Nil: "strip_one space_encodings [] = None"
  by (auto simp: strip_one_def space_encodings_def has_prefix_def)

lemma split_fields_Nil: "split_fields w [] = (if w = [] then [] else [w])"
  by (simp add: split_fields.simps [of w "[]"] strip_one_Nil)

lemma split_fields_space:
  "w \<noteq> [] \<Longrightarrow> split_fields w (CHR '' '' # s) = w # split_fields [] s"
  by (simp add: split_fields.simps [of w "CHR '' '' # s"] strip_one_space)

lemma string_fields_join:
  assumes "list_all (\<lambda>w. w \<noteq> [] \<and> list_all graphic w) ws"
  shows "string_fields (join '' '' ws) = ws"
  using assms unfolding string_fields_def
proof (induction ws rule: induct_list012)
  case (2 w)
  then show ?case
    using split_fields_word [of w "[]" "[]"] by (simp add: split_fields_Nil)
next
  case (3 w v ws)
  then show ?case
    using split_fields_word [of w "[]" "'' '' @ join '' '' (v # ws)"]
    by (simp add: split_fields_space)
qed (simp add: split_fields_Nil)

lemma trim_byte_graphic:
  "c \<notin> set s \<Longrightarrow> trim_byte c s = s"
proof -
  have "c \<notin> set t \<Longrightarrow> dropWhile (\<lambda>x. x = c) t = t" for t
    by (cases t) auto
  then show "c \<notin> set s \<Longrightarrow> trim_byte c s = s"
    by (simp add: trim_byte_def)
qed


section \<open>How iptables behaves\<close>

text \<open>
  The rules that \<open>iptables -S\<close> prints for a chain of a table, \<open>None\<close> when the chain does not exist.
\<close>

type_synonym chain_view = "string \<times> string \<Rightarrow> string list option"

definition printable :: "string \<Rightarrow> bool" where
  "printable r \<longleftrightarrow> r \<noteq> [] \<and> CHR 0x0A \<notin> set r \<and> graphic (last r)"

definition rule_text :: "string \<Rightarrow> string \<Rightarrow> string" where
  "rule_text c r = ''-A '' @ c @ '' '' @ r"

text \<open>A chain is printed as a line for the chain, then a line for each rule.\<close>

definition printed_chain :: "string \<Rightarrow> string list \<Rightarrow> string \<Rightarrow> bool" where
  "printed_chain c rs output \<longleftrightarrow>
     (\<exists>policy. CHR 0x0A \<notin> set policy \<and>
        (output = concat (map (\<lambda>l. l @ newline) ((''-N '' @ c) # map (rule_text c) rs)) \<or>
         output = concat (map (\<lambda>l. l @ newline) ((''-P '' @ c @ '' '' @ policy) # map (rule_text c) rs))))"

text \<open>The printed form of the jump the daemon inserts: the comment may be quoted.\<close>

definition jump_shown :: "Chain \<Rightarrow> string \<Rightarrow> bool" where
  "jump_shown c r \<longleftrightarrow>
     r = ''-m comment --comment '' @ ch_Comment c @ '' -j '' @ ch_Name c \<or>
     r = ''-m comment --comment '' @ [CHR 0x22] @ ch_Comment c @ [CHR 0x22] @ '' -j '' @ ch_Name c"

definition put_chain :: "(string \<Rightarrow> string) \<Rightarrow> Chain \<Rightarrow> chain_view \<Rightarrow> chain_view" where
  "put_chain shown c v = v((ch_Table c, ch_Name c) \<mapsto> map shown (ch_Rules c))"

definition cut_chain :: "Chain \<Rightarrow> chain_view \<Rightarrow> chain_view" where
  "cut_chain c v = v((ch_Table c, ch_Name c) := None)"

definition delete_text :: "Chain \<Rightarrow> string" where
  "delete_text c = ''*'' @ ch_Table c @ newline @ ''-F '' @ ch_Name c @ newline @
     ''-X '' @ ch_Name c @ newline @ ''COMMIT'' @ newline"

text \<open>Listing prints what the chain holds, or says that there is no such chain.\<close>

definition lists_chains :: "'w host \<Rightarrow> ('w \<Rightarrow> chain_view) \<Rightarrow> bool" where
  "lists_chains h vw \<longleftrightarrow>
     (\<forall>w t c.
        (case vw w (t, c) of
           Some rs \<Rightarrow> list_all printable rs \<and>
             (\<exists>output. h_ListChain h t c w = Inr output \<and> printed_chain c rs output)
         | None \<Rightarrow>
             (\<exists>err output. h_ListChain h t c w = Inl (err, output) \<and>
                contains (to_lower output) ''no chain/target/match'')))"

text \<open>
  \<open>iptables-restore\<close> commits one table block after the other and stops at the first that fails. A
  rule keeps its comment when it is printed.
\<close>

definition restores_chains ::
  "'w host \<Rightarrow> ('w \<Rightarrow> chain_view) \<Rightarrow> (string \<Rightarrow> string) \<Rightarrow> Chain list \<Rightarrow> bool"
where
  "restores_chains h vw shown cs \<longleftrightarrow>
     (\<forall>r. RuleIsOwned r \<longrightarrow> RuleIsOwned (shown r)) \<and>
     (\<forall>w e w'. h_run h (IptablesRestore (concat (map chain_input cs))) w = (e, w') \<longrightarrow>
        (\<exists>k \<le> length cs. (e = None \<longrightarrow> k = length cs) \<and>
           vw w' = fold (put_chain shown) (take k cs) (vw w))) \<and>
     (\<forall>ds w e w'. subseq ds cs \<and> h_run h (IptablesRestore (concat (map delete_text ds))) w = (e, w') \<longrightarrow>
        (\<exists>k \<le> length ds. (e = None \<longrightarrow> k = length ds) \<and> vw w' = fold cut_chain (take k ds) (vw w)))"

text \<open>
  \<open>-I hook 1\<close> puts the jump first, \<open>-D\<close> takes the first jump of that form away, and neither changes
  anything when it fails.
\<close>

definition insert_args :: "Chain \<Rightarrow> string list" where
  "insert_args c = [''-w'', ''5'', ''-t'', ch_Table c, ''-I'', ch_Hook c, ''1''] @ jump_args c"

definition delete_args :: "Chain \<Rightarrow> string list" where
  "delete_args c = [''-w'', ''5'', ''-t'', ch_Table c, ''-D'', ch_Hook c] @ jump_args c"

definition hook_key :: "Chain \<Rightarrow> string \<times> string" where
  "hook_key c = (ch_Table c, ch_Hook c)"

definition name_key :: "Chain \<Rightarrow> string \<times> string" where
  "name_key c = (ch_Table c, ch_Name c)"

definition edits_jumps :: "'w host \<Rightarrow> ('w \<Rightarrow> chain_view) \<Rightarrow> (Chain \<Rightarrow> string) \<Rightarrow> Chain list \<Rightarrow> bool" where
  "edits_jumps h vw jump cs \<longleftrightarrow>
     (\<forall>c \<in> set cs. jump_shown c (jump c) \<and>
        (\<forall>w e w'. h_run h (Iptables (insert_args c)) w = (e, w') \<longrightarrow>
           (case e of
              Some _ \<Rightarrow> vw w' = vw w
            | None \<Rightarrow> (\<exists>rs. vw w (hook_key c) = Some rs \<and>
                         vw w' = (vw w)(hook_key c \<mapsto> jump c # rs)))) \<and>
        (\<forall>w e w'. h_run h (Iptables (delete_args c)) w = (e, w') \<longrightarrow>
           (case e of
              Some _ \<Rightarrow> vw w' = vw w
            | None \<Rightarrow> (\<exists>rs. vw w (hook_key c) = Some rs \<and> jump c \<in> set rs \<and>
                         vw w' = (vw w)(hook_key c \<mapsto> remove1 (jump c) rs)))))"

definition iptables_host ::
  "'w host \<Rightarrow> ('w \<Rightarrow> chain_view) \<Rightarrow> (string \<Rightarrow> string) \<Rightarrow> (Chain \<Rightarrow> string) \<Rightarrow> Chain list \<Rightarrow> bool"
where
  "iptables_host h vw shown jump cs \<longleftrightarrow>
     lists_chains h vw \<and> restores_chains h vw shown cs \<and> edits_jumps h vw jump cs \<and>
     (\<forall>path text w. vw (snd (h_run h (WriteFile path text) w)) = vw w)"

text \<open>Chains with names of their own: no chain is the hook of another.\<close>

definition chain_ok :: "Chain \<Rightarrow> bool" where
  "chain_ok c \<longleftrightarrow>
     list_all (\<lambda>w. w \<noteq> [] \<and> list_all graphic w \<and> CHR 0x22 \<notin> set w)
       [ch_Hook c, ch_Name c, ch_Comment c]"

definition chains_apart :: "Chain list \<Rightarrow> bool" where
  "chains_apart cs \<longleftrightarrow>
     list_all chain_ok cs \<and> distinct (map hook_key cs) \<and> distinct (map name_key cs) \<and>
     set (map hook_key cs) \<inter> set (map name_key cs) = {}"


section \<open>What the inspection sees\<close>

definition is_jump :: "Chain \<Rightarrow> string \<Rightarrow> bool" where
  "is_jump c r = jumpsTo (rule_text (ch_Hook c) r) (ch_Name c)"

definition hook_rules :: "chain_view \<Rightarrow> Chain \<Rightarrow> string list" where
  "hook_rules v c = (case v (hook_key c) of None \<Rightarrow> [] | Some rs \<Rightarrow> rs)"

definition jump_count :: "chain_view \<Rightarrow> Chain \<Rightarrow> nat" where
  "jump_count v c = length (filter (is_jump c) (hook_rules v c))"

lemma split_byte_lines:
  "list_all (\<lambda>l. CHR 0x0A \<notin> set l) ls \<Longrightarrow>
   split_byte CHR 0x0A (concat (map (\<lambda>l. l @ newline) ls)) = ls @ [[]]"
  by (induction ls) (simp_all add: newline_def split_byte_append)

lemma trim_left_graphic: "graphic (hd s) \<Longrightarrow> s \<noteq> [] \<Longrightarrow> trim_left_of space_encodings s = s"
  using strip_one_graphic [of "hd s" "tl s"] by (simp add: trim_left_of.simps [of _ s])

lemma trim_left_suffix: "\<exists>n. trim_left_of ps s = drop n s"
proof (induction ps s rule: trim_left_of.induct)
  case (1 ps s)
  show ?case
  proof (cases "strip_one ps s")
    case None
    then show ?thesis
      by (intro exI [of _ 0]) (simp add: trim_left_of.simps [of ps s])
  next
    case (Some u)
    then obtain m where "u = drop m s"
      by (auto simp: strip_one_def)
    then show ?thesis
      using 1 Some by (auto simp: trim_left_of.simps [of ps s])
  qed
qed

lemma trim_space_Nil: "trim_space [] = []"
proof -
  have "strip_one (map rev space_encodings) [] = None"
    by (auto simp: strip_one_def space_encodings_def has_prefix_def)
  then show ?thesis
    by (simp add: trim_space_def trim_left_of.simps [of _ "[]"] strip_one_Nil)
qed

lemma trim_space_take: "graphic (hd s) \<Longrightarrow> s \<noteq> [] \<Longrightarrow> \<exists>n. trim_space s = take n s"
proof -
  assume "graphic (hd s)" "s \<noteq> []"
  moreover obtain n where "trim_left_of (map rev space_encodings) (rev s) = drop n (rev s)"
    using trim_left_suffix by blast
  ultimately have "trim_space s = take (length s - n) s"
    by (simp add: trim_space_def trim_left_graphic rev_drop)
  then show ?thesis ..
qed

lemma has_prefix_take: "has_prefix p (take n s) \<Longrightarrow> has_prefix p s"
proof -
  assume "has_prefix p (take n s)"
  then have p: "take (min (length p) n) s = p"
    by (simp add: has_prefix_def)
  from arg_cong [OF p, of length] have "length p \<le> n"
    by (simp add: min_def split: if_splits)
  with p show ?thesis
    by (simp add: has_prefix_def min_def)
qed

lemma rule_text_trim:
  assumes "printable r"
  shows "trim_space (rule_text c r) = rule_text c r"
  using assms by (intro trim_space_graphic) (auto simp: rule_text_def printable_def graphic_def)

lemma rule_line_text: "rule_line c (rule_text c r)"
  by (simp add: rule_line_def rule_text_def has_prefix_def)

lemma chain_lines_printed:
  assumes "printed_chain c rs output" "list_all printable rs" "CHR 0x0A \<notin> set c"
  shows "filter (rule_line c) (chain_lines output) = map (rule_text c) rs"
proof -
  obtain hdr where out: "output = concat (map (\<lambda>l. l @ newline) (hdr # map (rule_text c) rs))"
    and hdr: "CHR 0x0A \<notin> set hdr" "hdr \<noteq> []" "graphic (hd hdr)" "\<not> has_prefix ''-A'' hdr"
  proof -
    obtain policy where p: "CHR 0x0A \<notin> set policy"
      "output = concat (map (\<lambda>l. l @ newline) ((''-N '' @ c) # map (rule_text c) rs)) \<or>
       output = concat (map (\<lambda>l. l @ newline) ((''-P '' @ c @ '' '' @ policy) # map (rule_text c) rs))"
      using assms(1) unfolding printed_chain_def by blast
    from p(2) show ?thesis
    proof
      assume "output = concat (map (\<lambda>l. l @ newline) ((''-N '' @ c) # map (rule_text c) rs))"
      then show ?thesis
        by (rule that) (use assms(3) in \<open>simp_all add: graphic_def has_prefix_def\<close>)
    next
      assume "output = concat (map (\<lambda>l. l @ newline) ((''-P '' @ c @ '' '' @ policy) # map (rule_text c) rs))"
      then show ?thesis
        by (rule that) (use assms(3) p(1) in \<open>simp_all add: graphic_def has_prefix_def\<close>)
    qed
  qed
  have rules: "list_all (\<lambda>l. CHR 0x0A \<notin> set l) (map (rule_text c) rs)"
    using assms(2,3) by (auto simp: list_all_iff rule_text_def printable_def)
  have lines: "chain_lines output = trim_space hdr # map (trim_space \<circ> rule_text c) rs @ [trim_space []]"
    using rules hdr(1) unfolding out chain_lines_def by (subst split_byte_lines) simp_all
  have "map (trim_space \<circ> rule_text c) rs = map (rule_text c) rs"
    using assms(2) rule_text_trim by (simp add: list_all_iff)
  moreover have "\<not> rule_line c (trim_space hdr)"
  proof
    assume "rule_line c (trim_space hdr)"
    then have "has_prefix (''-A '' @ c @ '' '') hdr"
      using trim_space_take [OF hdr(3,2)] by (auto simp: rule_line_def intro: has_prefix_take)
    with hdr(4) show False
      by (cases hdr; cases "tl hdr") (auto simp: has_prefix_def)
  qed
  moreover have "\<not> rule_line c (trim_space [])"
    by (simp add: rule_line_def has_prefix_def trim_space_Nil)
  ultimately show ?thesis
    using rule_line_text by (simp add: lines filter_id_conv)
qed

lemma count_rules_Some:
  "count_rules c lines1 = Some n \<longleftrightarrow>
     list_all RuleIsOwned (filter (rule_line c) lines1) \<and> n = length (filter (rule_line c) lines1)"
  by (induction lines1 arbitrary: n) auto

lemma count_jumps_Some:
  "count_jumps c lines1 = Some n \<longleftrightarrow>
     list_all (carries_comment (ch_Comment c))
       (filter (\<lambda>l. jumpsTo l (ch_Name c)) (filter (rule_line (ch_Hook c)) lines1)) \<and>
     n = length (filter (\<lambda>l. jumpsTo l (ch_Name c)) (filter (rule_line (ch_Hook c)) lines1))"
  by (induction lines1 arbitrary: n) auto

lemma graphic_no_newline: "list_all graphic w \<Longrightarrow> CHR 0x0A \<notin> set w"
  by (auto simp: list_all_iff graphic_def)

lemma listChain_view:
  assumes "lists_chains h vw" "CHR 0x0A \<notin> set c"
  shows "\<exists>output. listChain h t c w = Inr (output, vw w (t, c) \<noteq> None) \<and>
    filter (rule_line c) (chain_lines output) =
      map (rule_text c) (case vw w (t, c) of None \<Rightarrow> [] | Some rs \<Rightarrow> rs)"
proof -
  note spec_at = assms(1) [unfolded lists_chains_def, THEN spec [of _ w], THEN spec [of _ t], THEN spec [of _ c]]
  show ?thesis
  proof (cases "vw w (t, c)")
  case None
  then obtain err out where "h_ListChain h t c w = Inl (err, out)"
    "contains (to_lower out) ''no chain/target/match''"
    using spec_at by auto
  then have "listChain h t c w = Inr ([], False)"
    by (simp add: listChain_def)
  moreover have "filter (rule_line c) (chain_lines []) = []"
    by (simp add: chain_lines_def trim_space_Nil rule_line_def has_prefix_def)
  ultimately show ?thesis
    using None by simp
next
  case (Some rs)
  then have p: "list_all printable rs \<and>
      (\<exists>output. h_ListChain h t c w = Inr output \<and> printed_chain c rs output)"
    using spec_at by simp
  then obtain out where o: "h_ListChain h t c w = Inr out" "printed_chain c rs out"
    by blast
  have "filter (rule_line c) (chain_lines out) = map (rule_text c) rs"
    using chain_lines_printed [OF o(2)] p assms(2) by blast
  with o(1) Some show ?thesis
    by (simp add: listChain_def)
qed
qed

lemma option_eq_if: "(\<And>n. x = Some n \<longleftrightarrow> P \<and> n = m) \<Longrightarrow> x = (if P then Some m else None)"
  by (cases x) auto

definition name_rules :: "chain_view \<Rightarrow> Chain \<Rightarrow> string list" where
  "name_rules v c = (case v (name_key c) of None \<Rightarrow> [] | Some rs \<Rightarrow> rs)"

text \<open>The inspection of a chain, as a function of what the chains hold.\<close>

definition accepted_chain :: "chain_view \<Rightarrow> Chain \<Rightarrow> bool" where
  "accepted_chain v c \<longleftrightarrow>
     list_all (\<lambda>r. RuleIsOwned (rule_text (ch_Name c) r)) (name_rules v c) \<and>
     list_all (\<lambda>r. is_jump c r \<longrightarrow> carries_comment (ch_Comment c) (rule_text (ch_Hook c) r)) (hook_rules v c) \<and>
     (v (name_key c) \<noteq> None \<longrightarrow> name_rules v c \<noteq> [] \<or> 0 < jump_count v c)"

lemma inspect_chain_view:
  assumes "lists_chains h vw" "chain_ok c"
  shows "inspect_chain h c w = Inr i \<longleftrightarrow>
    accepted_chain (vw w) c \<and>
    i = \<lparr>ci_Chain = c, ci_Exists = (vw w (name_key c) \<noteq> None),
         ci_OwnedRules = length (name_rules (vw w) c), ci_OwnedJumps = jump_count (vw w) c\<rparr>"
proof -
  have nl: "CHR 0x0A \<notin> set (ch_Name c)" "CHR 0x0A \<notin> set (ch_Hook c)"
    using assms(2) by (simp_all add: chain_ok_def graphic_no_newline)
  obtain co where co: "listChain h (ch_Table c) (ch_Name c) w = Inr (co, vw w (name_key c) \<noteq> None)"
    "filter (rule_line (ch_Name c)) (chain_lines co) = map (rule_text (ch_Name c)) (name_rules (vw w) c)"
    using listChain_view [OF assms(1) nl(1), of "ch_Table c" w] by (auto simp: name_key_def name_rules_def)
  obtain ho b where ho: "listChain h (ch_Table c) (ch_Hook c) w = Inr (ho, b)"
    "filter (rule_line (ch_Hook c)) (chain_lines ho) = map (rule_text (ch_Hook c)) (hook_rules (vw w) c)"
    using listChain_view [OF assms(1) nl(2), of "ch_Table c" w] by (auto simp: hook_key_def hook_rules_def)
  let ?jumps = "filter (\<lambda>l. jumpsTo l (ch_Name c)) (map (rule_text (ch_Hook c)) (hook_rules (vw w) c))"
  have jumps: "length ?jumps = jump_count (vw w) c"
    "list_all (carries_comment (ch_Comment c)) ?jumps \<longleftrightarrow>
     list_all (\<lambda>r. is_jump c r \<longrightarrow> carries_comment (ch_Comment c) (rule_text (ch_Hook c) r)) (hook_rules (vw w) c)"
    by (auto simp: jump_count_def filter_map is_jump_def [abs_def] comp_def list_all_iff)
  have rules: "(if vw w (name_key c) \<noteq> None then count_rules (ch_Name c) (chain_lines co) else Some 0) = Some n \<longleftrightarrow>
      list_all (\<lambda>r. RuleIsOwned (rule_text (ch_Name c) r)) (name_rules (vw w) c) \<and> n = length (name_rules (vw w) c)" for n
    by (auto simp: count_rules_Some co(2) name_rules_def list_all_iff split: option.splits)
  have hooks: "count_jumps c (chain_lines ho) = Some n \<longleftrightarrow>
      list_all (\<lambda>r. is_jump c r \<longrightarrow> carries_comment (ch_Comment c) (rule_text (ch_Hook c) r)) (hook_rules (vw w) c) \<and>
      n = jump_count (vw w) c" for n
    unfolding count_jumps_Some ho(2) jumps ..
  show ?thesis
    unfolding inspect_chain_def co(1) ho(1) sum.case prod.case
      option_eq_if [OF rules] option_eq_if [OF hooks]
    by (auto simp: accepted_chain_def)
qed

definition inspection_of :: "chain_view \<Rightarrow> Chain \<Rightarrow> chainInspection" where
  "inspection_of v c = \<lparr>ci_Chain = c, ci_Exists = (v (name_key c) \<noteq> None),
     ci_OwnedRules = length (name_rules v c), ci_OwnedJumps = jump_count v c\<rparr>"

lemma inspect_chains_view:
  assumes "lists_chains h vw" "list_all chain_ok cs"
  shows "inspect_chains h cs w = Inr is \<longleftrightarrow>
    list_all (accepted_chain (vw w)) cs \<and> is = map (inspection_of (vw w)) cs"
  using assms(2)
proof (induction cs arbitrary: "is")
  case (Cons c cs)
  note head = inspect_chain_view [OF assms(1), of c w, folded inspection_of_def]
  show ?case
  proof (cases "inspect_chain h c w")
    case (Inl e)
    with head Cons.prems show ?thesis by fastforce
  next
    case (Inr i)
    with head Cons.prems have "accepted_chain (vw w) c" "i = inspection_of (vw w) c"
      by auto
    with Inr Cons show ?thesis
      by (cases "inspect_chains h cs w") auto
  qed
qed auto


section \<open>The jump the daemon inserts is recognised\<close>

lemma join_jump:
  "rule_text (ch_Hook c) (''-m comment --comment '' @ q @ '' -j '' @ ch_Name c) =
   join '' '' [''-A'', ch_Hook c, ''-m'', ''comment'', ''--comment'', q, ''-j'', ch_Name c]"
  by (simp add: rule_text_def)

lemma jump_shown_recognised:
  assumes "chain_ok c" "jump_shown c r"
  shows "is_jump c r" "carries_comment (ch_Comment c) (rule_text (ch_Hook c) r)"
proof -
  obtain q where r: "r = ''-m comment --comment '' @ q @ '' -j '' @ ch_Name c"
    and q: "q = ch_Comment c \<or> q = [CHR 0x22] @ ch_Comment c @ [CHR 0x22]"
    using assms(2) unfolding jump_shown_def by force
  have words: "list_all (\<lambda>w. w \<noteq> [] \<and> list_all graphic w)
      [''-A'', ch_Hook c, ''-m'', ''comment'', ''--comment'', q, ''-j'', ch_Name c]"
    using assms(1) q by (auto simp: chain_ok_def graphic_def)
  have "string_fields (rule_text (ch_Hook c) r) =
      [''-A'', ch_Hook c, ''-m'', ''comment'', ''--comment'', q, ''-j'', ch_Name c]"
    unfolding r join_jump by (rule string_fields_join [OF words])
  moreover have "trim_byte CHR 0x22 (ch_Name c) = ch_Name c"
    using assms(1) by (simp add: chain_ok_def trim_byte_graphic)
  ultimately show "is_jump c r"
    by (simp add: is_jump_def jumpsTo_def)
  show "carries_comment (ch_Comment c) (rule_text (ch_Hook c) r)"
    using q
  proof
    assume q: "q = ch_Comment c"
    then show ?thesis
      using contains_infix [of "''-A '' @ ch_Hook c @ '' -m comment ''" "''--comment '' @ ch_Comment c" "'' -j '' @ ch_Name c"]
      by (simp add: carries_comment_def r rule_text_def)
  next
    assume q: "q = [CHR 0x22] @ ch_Comment c @ [CHR 0x22]"
    then show ?thesis
      using contains_infix [of "''-A '' @ ch_Hook c @ '' -m comment ''"
          "''--comment '' @ [CHR 0x22] @ ch_Comment c @ [CHR 0x22]" "'' -j '' @ ch_Name c"]
      by (simp add: carries_comment_def r rule_text_def)
  qed
qed

section \<open>What the commands leave behind\<close>

definition foreign_rules :: "chain_view \<Rightarrow> Chain \<Rightarrow> string list" where
  "foreign_rules v c = filter (\<lambda>r. \<not> is_jump c r) (hook_rules v c)"

definition settled_hook :: "(Chain \<Rightarrow> string) \<Rightarrow> chain_view \<Rightarrow> Chain \<Rightarrow> string list" where
  "settled_hook jump v c =
     (if jump_count v c = 0 then jump c # hook_rules v c
      else (remove1 (jump c) ^^ (jump_count v c - 1)) (hook_rules v c))"

definition installed ::
  "(string \<Rightarrow> string) \<Rightarrow> (Chain \<Rightarrow> string) \<Rightarrow> Chain list \<Rightarrow> chain_view \<Rightarrow> chain_view \<Rightarrow> bool"
where
  "installed shown jump cs v v' \<longleftrightarrow>
     (\<forall>c \<in> set cs.
        v' (name_key c) = Some (map shown (ch_Rules c)) \<and>
        v' (hook_key c) = Some (settled_hook jump v c) \<and>
        v (hook_key c) \<noteq> None \<and> jump_count v' c = 1 \<and> foreign_rules v' c = foreign_rules v c) \<and>
     (\<forall>k. k \<notin> name_key ` set cs \<and> k \<notin> hook_key ` set cs \<longrightarrow> v' k = v k)"

definition uninstalled :: "Chain list \<Rightarrow> chain_view \<Rightarrow> chain_view \<Rightarrow> bool" where
  "uninstalled cs v v' \<longleftrightarrow>
     (\<forall>c \<in> set cs. v' (name_key c) = None \<and>
        v' (hook_key c) = map_option (filter (\<lambda>r. \<not> is_jump c r)) (v (hook_key c))) \<and>
     (\<forall>k. k \<notin> name_key ` set cs \<and> k \<notin> hook_key ` set cs \<longrightarrow> v' k = v k)"

lemma funpow_remove1_filter: "\<not> P x \<Longrightarrow> filter P ((remove1 x ^^ n) xs) = filter P xs"
  by (induction n) (simp_all add: filter_remove1 remove1_idem)

lemma hook_rules_cong: "v (hook_key c) = v' (hook_key c) \<Longrightarrow> hook_rules v c = hook_rules v' c"
  by (simp add: hook_rules_def)

lemma edits_jumpsD:
  assumes "edits_jumps h vw jump cs" "c \<in> set cs"
  shows "jump_shown c (jump c)"
    and "h_run h (Iptables (insert_args c)) w = (None, w') \<Longrightarrow>
      \<exists>rs. vw w (hook_key c) = Some rs \<and> vw w' = (vw w)(hook_key c \<mapsto> jump c # rs)"
    and "h_run h (Iptables (delete_args c)) w = (None, w') \<Longrightarrow>
      \<exists>rs. vw w (hook_key c) = Some rs \<and> jump c \<in> set rs \<and>
        vw w' = (vw w)(hook_key c \<mapsto> remove1 (jump c) rs)"
proof -
  note at = bspec [OF assms(1) [unfolded edits_jumps_def] assms(2)]
  show "jump_shown c (jump c)"
    using at by blast
  show "\<exists>rs. vw w (hook_key c) = Some rs \<and> vw w' = (vw w)(hook_key c \<mapsto> jump c # rs)"
    if "h_run h (Iptables (insert_args c)) w = (None, w')"
    using at [THEN conjunct2, THEN conjunct1, THEN spec, THEN spec, THEN spec, THEN mp, OF that] by simp
  show "\<exists>rs. vw w (hook_key c) = Some rs \<and> jump c \<in> set rs \<and>
        vw w' = (vw w)(hook_key c \<mapsto> remove1 (jump c) rs)"
    if "h_run h (Iptables (delete_args c)) w = (None, w')"
    using at [THEN conjunct2, THEN conjunct2, THEN spec, THEN spec, THEN spec, THEN mp, OF that] by simp
qed

lemma deleteJump_args: "deleteJump h c = command h (Iptables (delete_args c))"
  by (simp add: deleteJump_def runIPTables_def delete_args_def)

lemma insertJump_args: "insertJump h c = command h (Iptables (insert_args c))"
  by (simp add: insertJump_def runIPTables_def insert_args_def)

lemma deleteJumps_view:
  assumes "edits_jumps h vw jump cs" "c \<in> set cs" "chain_ok c"
    and "deleteJumps h c n s = (Inr u, t)"
  shows "vw (ps_world t) =
      (vw (ps_world s))(hook_key c := map_option (remove1 (jump c) ^^ n) (vw (ps_world s) (hook_key c)))
    \<and> jump_count (vw (ps_world t)) c + n = jump_count (vw (ps_world s)) c
    \<and> ps_sysctls t = ps_sysctls s"
  using assms(4)
proof (induction n arbitrary: s)
  case 0
  then show ?case
    by (auto simp: deleteJumps_def done_with_def option.map_id [unfolded id_def] funpow_0 [abs_def])
next
  case (Suc n)
  let ?v = "vw (ps_world s)" and ?j = "jump c"
  let ?m = "s\<lparr>ps_world := snd (h_run h (Iptables (delete_args c)) (ps_world s))\<rparr>"
  from Suc.prems have first: "fst (h_run h (Iptables (delete_args c)) (ps_world s)) = None"
    and rest: "deleteJumps h c n ?m = (Inr u, t)"
    by (auto simp: deleteJumps_def deleteJump_args action_Inr)
  obtain rs where rs: "?v (hook_key c) = Some rs" "?j \<in> set rs"
    "vw (ps_world ?m) = ?v(hook_key c \<mapsto> remove1 ?j rs)"
    using edits_jumpsD(3) [OF assms(1,2)] first by (metis prod.collapse process.select_convs(1) process.surjective process.update_convs(1))
  have "is_jump c ?j"
    using jump_shown_recognised(1) [OF assms(3) edits_jumpsD(1) [OF assms(1,2)]] .
  with rs(2) have "?j \<in> set (filter (is_jump c) rs)"
    by simp
  from length_pos_if_in_set [OF this] this
  have one: "length (filter (is_jump c) (remove1 ?j rs)) + 1 = length (filter (is_jump c) rs)"
    by (simp add: filter_remove1 length_remove1)
  have comm: "remove1 ?j ((remove1 ?j ^^ n) rs) = (remove1 ?j ^^ n) (remove1 ?j rs)"
    by (metis comp_apply funpow_Suc_right funpow.simps(2))
  have vt: "vw (ps_world t) = ?v(hook_key c \<mapsto> (remove1 ?j ^^ n) (remove1 ?j rs))"
    using conjunct1 [OF Suc.IH [OF rest]] unfolding rs(3) by (auto simp: fun_eq_iff)
  have cnt: "jump_count (vw (ps_world t)) c + n = length (filter (is_jump c) (remove1 ?j rs))"
    using conjunct1 [OF conjunct2 [OF Suc.IH [OF rest]]] unfolding rs(3)
    by (simp add: jump_count_def hook_rules_def)
  have "jump_count ?v c = length (filter (is_jump c) rs)"
    using rs(1) by (simp add: jump_count_def hook_rules_def)
  with cnt one have "jump_count (vw (ps_world t)) c + Suc n = jump_count ?v c"
    by linarith
  moreover have "vw (ps_world t) = ?v(hook_key c := map_option (remove1 ?j ^^ Suc n) (?v (hook_key c)))"
    using vt comm rs(1) by (auto simp: fun_eq_iff)
  moreover have "ps_sysctls t = ps_sysctls s"
    using Suc.IH [OF rest] by simp
  ultimately show ?case
    by blast
qed

lemma settled_hook_counts:
  assumes "chain_ok c" "jump_shown c (jump c)"
  shows "filter (\<lambda>r. \<not> is_jump c r) (settled_hook jump v c) = foreign_rules v c"
  using jump_shown_recognised(1) [OF assms]
  by (simp add: settled_hook_def foreign_rules_def funpow_remove1_filter)

lemma settle_jumps_view:
  assumes "edits_jumps h vw jump cs" "c \<in> set cs" "chain_ok c"
    and "settle_jumps h (inspection_of v c) s = (Inr [], t)" "vw (ps_world s) (hook_key c) = v (hook_key c)"
  shows "vw (ps_world t) = (vw (ps_world s))(hook_key c \<mapsto> settled_hook jump v c) \<and>
    jump_count (vw (ps_world t)) c = 1 \<and> v (hook_key c) \<noteq> None \<and> ps_sysctls t = ps_sysctls s"
proof (cases "jump_count v c = 0")
  case True
  let ?w = "ps_world s" and ?w' = "snd (h_run h (Iptables (insert_args c)) (ps_world s))"
  from True assms(4) have "fst (h_run h (Iptables (insert_args c)) ?w) = None"
    and t: "t = s\<lparr>ps_world := ?w'\<rparr>"
    by (auto simp: settle_jumps_def inspection_of_def insertJump_args action_Inr)
  then have run: "h_run h (Iptables (insert_args c)) ?w = (None, ?w')"
    by (metis prod.collapse)
  from edits_jumpsD(2) [OF assms(1,2) run] obtain rs where rs: "vw ?w (hook_key c) = Some rs"
    "vw ?w' = (vw ?w)(hook_key c \<mapsto> jump c # rs)"
    by blast
  have "hook_rules v c = rs"
    using rs(1) assms(5) by (simp add: hook_rules_def)
  moreover from this True have "filter (is_jump c) rs = []"
    by (simp add: jump_count_def)
  moreover have "is_jump c (jump c)"
    using jump_shown_recognised(1) [OF assms(3) edits_jumpsD(1) [OF assms(1,2)]] .
  ultimately show ?thesis
    using t rs True assms(5) by (simp add: settled_hook_def jump_count_def [of "_(_ \<mapsto> _)"] hook_rules_def [of "_(_ \<mapsto> _)"])
next
  case False
  from False assms(4) have del: "deleteJumps h c (jump_count v c - 1) s = (Inr (), t)"
    by (auto simp: settle_jumps_def inspection_of_def action_Inr)
  have v: "jump_count (vw (ps_world s)) c = jump_count v c"
    using assms(5) by (simp add: jump_count_def hook_rules_def)
  obtain rs where rs: "v (hook_key c) = Some rs"
    using False by (cases "v (hook_key c)") (auto simp: jump_count_def hook_rules_def)
  show ?thesis
    using deleteJumps_view [OF assms(1-3) del] False v assms(5) rs
    by (auto simp: settled_hook_def hook_rules_def)
qed

lemma collect_settle_view:
  assumes "edits_jumps h vw jump cs" "list_all chain_ok cs"
    and "collect (settle_jumps h) (map (inspection_of v) ds) s = (Inr [], t)"
    and "set ds \<subseteq> set cs" "distinct (map hook_key ds)"
    and "\<And>c. c \<in> set ds \<Longrightarrow> vw (ps_world s) (hook_key c) = v (hook_key c)"
  shows "(\<forall>c \<in> set ds. vw (ps_world t) (hook_key c) = Some (settled_hook jump v c) \<and>
      jump_count (vw (ps_world t)) c = 1 \<and> v (hook_key c) \<noteq> None) \<and>
    (\<forall>k. k \<notin> hook_key ` set ds \<longrightarrow> vw (ps_world t) k = vw (ps_world s) k) \<and>
    ps_sysctls t = ps_sysctls s"
  using assms(3-)
proof (induction ds arbitrary: s)
  case (Cons c ds)
  from Cons.prems(1) obtain m where head: "settle_jumps h (inspection_of v c) s = (Inr [], m)"
    and tail: "collect (settle_jumps h) (map (inspection_of v) ds) m = (Inr [], t)"
    by (auto simp: action_Inr)
  have c: "c \<in> set cs" "chain_ok c"
    using Cons.prems(2) assms(2) by (auto simp: list_all_iff)
  have step: "vw (ps_world m) = (vw (ps_world s))(hook_key c \<mapsto> settled_hook jump v c)"
    "jump_count (vw (ps_world m)) c = 1" "v (hook_key c) \<noteq> None" "ps_sysctls m = ps_sysctls s"
    using settle_jumps_view [OF assms(1) c head] Cons.prems(4) [of c] by (blast intro: list.set_intros)+
  have rest: "(\<forall>c \<in> set ds. vw (ps_world t) (hook_key c) = Some (settled_hook jump v c) \<and>
      jump_count (vw (ps_world t)) c = 1 \<and> v (hook_key c) \<noteq> None) \<and>
    (\<forall>k. k \<notin> hook_key ` set ds \<longrightarrow> vw (ps_world t) k = vw (ps_world m) k) \<and>
    ps_sysctls t = ps_sysctls m"
  proof (rule Cons.IH [OF tail])
    fix d assume "d \<in> set ds"
    then have "hook_key d \<noteq> hook_key c"
      using Cons.prems(3) by (metis distinct.simps(2) image_eqI list.set_map list.simps(9))
    with \<open>d \<in> set ds\<close> show "vw (ps_world m) (hook_key d) = v (hook_key d)"
      using Cons.prems(4) step(1) by simp
  qed (use Cons.prems in simp_all)
  have "hook_key c \<notin> hook_key ` set ds"
    using Cons.prems(3) by simp
  then have same: "vw (ps_world t) (hook_key c) = vw (ps_world m) (hook_key c)"
    using rest by blast
  then have "jump_count (vw (ps_world t)) c = 1"
    using step(2) by (simp add: jump_count_def hook_rules_def)
  moreover have "vw (ps_world t) (hook_key c) = Some (settled_hook jump v c)"
    using same step(1) by simp
  moreover have "vw (ps_world t) k = vw (ps_world s) k" if "k \<notin> hook_key ` set (c # ds)" for k
  proof -
    have "vw (ps_world t) k = vw (ps_world m) k"
      using rest that by (metis image_insert insertCI list.simps(15))
    with that step(1) show ?thesis
      by simp
  qed
  ultimately show ?case
    using rest step(3,4) by (simp only: list.set ball_simps) blast
qed (auto simp: done_with_def)

lemma put_chain_other: "k \<noteq> name_key c \<Longrightarrow> put_chain shown c v k = v k"
  by (simp add: put_chain_def name_key_def)

lemma put_chain_same: "put_chain shown c v (name_key c) = Some (map shown (ch_Rules c))"
  by (simp add: put_chain_def name_key_def)

lemma fold_put_chain_off:
  "k \<notin> name_key ` set cs \<Longrightarrow> fold (put_chain shown) cs v k = v k"
  by (induction cs arbitrary: v) (simp_all add: put_chain_other)

lemma fold_put_chain_at:
  "distinct (map name_key cs) \<Longrightarrow> c \<in> set cs \<Longrightarrow>
   fold (put_chain shown) cs v (name_key c) = Some (map shown (ch_Rules c))"
proof (induction cs arbitrary: v)
  case (Cons d cs)
  show ?case
  proof (cases "c \<in> set cs")
    case False
    with Cons.prems have "c = d" "name_key d \<notin> name_key ` set cs"
      by auto
    then show ?thesis
      by (simp add: fold_put_chain_off put_chain_same)
  qed (use Cons in simp)
qed simp

lemma fold_cut_chain:
  "fold cut_chain cs v k = (if k \<in> name_key ` set cs then None else v k)"
proof (induction cs arbitrary: v)
  case (Cons c cs)
  have "cut_chain c v k = (if k = name_key c then None else v k)"
    by (simp add: cut_chain_def name_key_def)
  with Cons [of "cut_chain c v"] show ?case
    by (cases "k = name_key c") simp_all
qed simp

lemma delete_input_text: "delete_input i = delete_text (ci_Chain i)"
  by (simp add: delete_input_def delete_text_def Let_def)

lemma restores_chainsD:
  assumes "restores_chains h vw shown cs"
  shows "fst (h_run h (IptablesRestore (concat (map chain_input cs))) w) = None \<Longrightarrow>
      vw (snd (h_run h (IptablesRestore (concat (map chain_input cs))) w)) = fold (put_chain shown) cs (vw w)"
    and "subseq ds cs \<Longrightarrow> fst (h_run h (IptablesRestore (concat (map delete_text ds))) w) = None \<Longrightarrow>
      vw (snd (h_run h (IptablesRestore (concat (map delete_text ds))) w)) = fold cut_chain ds (vw w)"
proof -
  note parts = assms [unfolded restores_chains_def, THEN conjunct2]
  let ?put = "h_run h (IptablesRestore (concat (map chain_input cs))) w"
  let ?cut = "h_run h (IptablesRestore (concat (map delete_text ds))) w"
  show "vw (snd ?put) = fold (put_chain shown) cs (vw w)" if "fst ?put = None"
    using parts [THEN conjunct1, THEN spec [of _ w], THEN spec [of _ "fst ?put"], THEN spec [of _ "snd ?put"],
        THEN mp, OF prod.collapse [symmetric]] that
    by simp
  show "vw (snd ?cut) = fold cut_chain ds (vw w)" if "subseq ds cs" "fst ?cut = None"
    using parts [THEN conjunct2, THEN spec [of _ ds], THEN spec [of _ w], THEN spec [of _ "fst ?cut"],
        THEN spec [of _ "snd ?cut"], THEN mp, OF conjI [OF that(1) prod.collapse [symmetric]]] that
    by simp
qed

lemma installOwnedChains_view:
  assumes "iptables_host h vw shown jump (rs_Chains rs)" "chains_apart (rs_Chains rs)"
    and "installOwnedChains h rs (map (inspection_of (vw (ps_world s))) (rs_Chains rs)) s = (Inr u, t)"
  shows "installed shown jump (rs_Chains rs) (vw (ps_world s)) (vw (ps_world t)) \<and>
    ps_sysctls t = ps_sysctls s"
proof -
  let ?cs = "rs_Chains rs" and ?v = "vw (ps_world s)"
  let ?run = "h_run h (IptablesRestore (concat (map chain_input ?cs))) (ps_world s)"
  let ?m = "s\<lparr>ps_world := snd ?run\<rparr>"
  have edits: "edits_jumps h vw jump ?cs"
    using assms(1) by (simp add: iptables_host_def)
  have ok: "list_all chain_ok ?cs" "distinct (map hook_key ?cs)" "distinct (map name_key ?cs)"
    "hook_key ` set ?cs \<inter> name_key ` set ?cs = {}"
    using assms(2) by (simp_all add: chains_apart_def)
  have first: "fst ?run = None"
    and settle: "collect (settle_jumps h) (map (inspection_of ?v) ?cs) ?m = (Inr [], t)"
    using assms(3) by (auto simp: installOwnedChains_def runRestore_def RestoreInput_def action_Inr)
  have "restores_chains h vw shown ?cs"
    using assms(1) by (simp add: iptables_host_def)
  from restores_chainsD(1) [OF this first] have put: "vw (ps_world ?m) = fold (put_chain shown) ?cs ?v"
    by simp
  have hooks: "vw (ps_world ?m) (hook_key c) = ?v (hook_key c)" if "c \<in> set ?cs" for c
    unfolding put using that ok(4) by (intro fold_put_chain_off) blast
  have settled: "(\<forall>c \<in> set ?cs. vw (ps_world t) (hook_key c) = Some (settled_hook jump ?v c) \<and>
      jump_count (vw (ps_world t)) c = 1 \<and> ?v (hook_key c) \<noteq> None) \<and>
    (\<forall>k. k \<notin> hook_key ` set ?cs \<longrightarrow> vw (ps_world t) k = vw (ps_world ?m) k) \<and>
    ps_sysctls t = ps_sysctls ?m"
    by (rule collect_settle_view [OF edits ok(1) settle subset_refl ok(2) hooks])
  have off: "vw (ps_world t) k = fold (put_chain shown) ?cs ?v k" if "k \<notin> hook_key ` set ?cs" for k
    using settled that unfolding put by blast
  have "vw (ps_world t) (name_key c) = Some (map shown (ch_Rules c))" if "c \<in> set ?cs" for c
  proof -
    have "name_key c \<notin> hook_key ` set ?cs"
      using that ok(4) by blast
    from off [OF this] show ?thesis
      by (simp add: fold_put_chain_at [OF ok(3) that])
  qed
  moreover have "foreign_rules (vw (ps_world t)) c = foreign_rules ?v c" if "c \<in> set ?cs" for c
  proof -
    have "hook_rules (vw (ps_world t)) c = settled_hook jump ?v c"
      using settled that by (simp add: hook_rules_def)
    then show ?thesis
      using settled_hook_counts [of c jump ?v] edits_jumpsD(1) [OF edits that] ok(1) that
      by (simp add: foreign_rules_def [of "vw (ps_world t)"] list_all_iff)
  qed
  moreover have "vw (ps_world t) k = ?v k" if "k \<notin> name_key ` set ?cs" "k \<notin> hook_key ` set ?cs" for k
    unfolding off [OF that(2)] by (rule fold_put_chain_off [OF that(1)])
  ultimately show ?thesis
    using settled unfolding installed_def by simp
qed

lemma remove_jumps_view:
  assumes "edits_jumps h vw jump cs" "c \<in> set cs" "chain_ok c"
    and "remove_jumps h (inspection_of v c) s = (Inr [], t)" "vw (ps_world s) (hook_key c) = v (hook_key c)"
  shows "vw (ps_world t) =
      (vw (ps_world s))(hook_key c := map_option (filter (\<lambda>r. \<not> is_jump c r)) (v (hook_key c))) \<and>
    ps_sysctls t = ps_sysctls s"
proof -
  have del: "deleteJumps h c (jump_count v c) s = (Inr (), t)"
    using assms(4) by (auto simp: remove_jumps_def inspection_of_def action_Inr)
  note res = deleteJumps_view [OF assms(1-3) del]
  have v: "jump_count (vw (ps_world s)) c = jump_count v c"
    using assms(5) by (simp add: jump_count_def hook_rules_def)
  have "map_option (remove1 (jump c) ^^ jump_count v c) (v (hook_key c)) =
      map_option (filter (\<lambda>r. \<not> is_jump c r)) (v (hook_key c))"
  proof (cases "v (hook_key c)")
    case (Some rs)
    let ?left = "(remove1 (jump c) ^^ jump_count v c) rs"
    have "jump_count (vw (ps_world t)) c = 0"
      using res v by linarith
    moreover have "hook_rules (vw (ps_world t)) c = ?left"
      using res [THEN conjunct1] Some assms(5) by (simp add: hook_rules_def)
    ultimately have "filter (is_jump c) ?left = []"
      by (simp add: jump_count_def [of "vw (ps_world t)"])
    then have "filter (\<lambda>r. \<not> is_jump c r) ?left = ?left"
      by (simp add: filter_empty_conv filter_id_conv)
    moreover have "filter (\<lambda>r. \<not> is_jump c r) ?left = filter (\<lambda>r. \<not> is_jump c r) rs"
      using jump_shown_recognised(1) [OF assms(3) edits_jumpsD(1) [OF assms(1,2)]]
      by (simp add: funpow_remove1_filter)
    ultimately show ?thesis
      using Some by simp
  qed simp
  with res assms(5) show ?thesis
    by simp
qed

lemma collect_remove_view:
  assumes "edits_jumps h vw jump cs" "list_all chain_ok cs"
    and "collect (remove_jumps h) (map (inspection_of v) ds) s = (Inr [], t)"
    and "set ds \<subseteq> set cs" "distinct (map hook_key ds)"
    and "\<And>c. c \<in> set ds \<Longrightarrow> vw (ps_world s) (hook_key c) = v (hook_key c)"
  shows "(\<forall>c \<in> set ds. vw (ps_world t) (hook_key c) =
      map_option (filter (\<lambda>r. \<not> is_jump c r)) (v (hook_key c))) \<and>
    (\<forall>k. k \<notin> hook_key ` set ds \<longrightarrow> vw (ps_world t) k = vw (ps_world s) k) \<and>
    ps_sysctls t = ps_sysctls s"
  using assms(3-)
proof (induction ds arbitrary: s)
  case (Cons c ds)
  from Cons.prems(1) obtain m where head: "remove_jumps h (inspection_of v c) s = (Inr [], m)"
    and tail: "collect (remove_jumps h) (map (inspection_of v) ds) m = (Inr [], t)"
    by (auto simp: action_Inr)
  have c: "c \<in> set cs" "chain_ok c"
    using Cons.prems(2) assms(2) by (auto simp: list_all_iff)
  have step: "vw (ps_world m) = (vw (ps_world s))(hook_key c :=
      map_option (filter (\<lambda>r. \<not> is_jump c r)) (v (hook_key c)))" "ps_sysctls m = ps_sysctls s"
    using remove_jumps_view [OF assms(1) c head] Cons.prems(4) [of c] by (blast intro: list.set_intros)+
  have fresh: "hook_key c \<notin> hook_key ` set ds"
    using Cons.prems(3) by simp
  have rest: "(\<forall>c \<in> set ds. vw (ps_world t) (hook_key c) =
      map_option (filter (\<lambda>r. \<not> is_jump c r)) (v (hook_key c))) \<and>
    (\<forall>k. k \<notin> hook_key ` set ds \<longrightarrow> vw (ps_world t) k = vw (ps_world m) k) \<and>
    ps_sysctls t = ps_sysctls m"
  proof (rule Cons.IH [OF tail])
    fix d assume "d \<in> set ds"
    with fresh have "hook_key d \<noteq> hook_key c"
      by (metis image_eqI)
    with \<open>d \<in> set ds\<close> show "vw (ps_world m) (hook_key d) = v (hook_key d)"
      using Cons.prems(4) step(1) by simp
  qed (use Cons.prems in simp_all)
  have "vw (ps_world t) (hook_key c) = vw (ps_world m) (hook_key c)"
    using rest fresh by blast
  then have "vw (ps_world t) (hook_key c) = map_option (filter (\<lambda>r. \<not> is_jump c r)) (v (hook_key c))"
    using step(1) by simp
  moreover have "vw (ps_world t) k = vw (ps_world s) k" if "k \<notin> hook_key ` set (c # ds)" for k
  proof -
    have "vw (ps_world t) k = vw (ps_world m) k"
      using rest that by (metis image_insert insertCI list.simps(15))
    with that step(1) show ?thesis
      by simp
  qed
  ultimately show ?case
    using rest step(2) by (simp only: list.set ball_simps) blast
qed (auto simp: done_with_def)

lemma removeOwnedChains_view:
  assumes "iptables_host h vw shown jump cs" "chains_apart cs"
    and "removeOwnedChains h (map (inspection_of (vw (ps_world s))) cs) s = (Inr u, t)"
  shows "uninstalled cs (vw (ps_world s)) (vw (ps_world t)) \<and> ps_sysctls t = ps_sysctls s"
proof -
  let ?v = "vw (ps_world s)"
  have ok: "list_all chain_ok cs" "distinct (map hook_key cs)" "hook_key ` set cs \<inter> name_key ` set cs = {}"
    "edits_jumps h vw jump cs"
    using assms(1,2) by (simp_all add: chains_apart_def iptables_host_def)
  define ds where "ds = filter (\<lambda>c. ?v (name_key c) \<noteq> None) cs"
  have input: "concat (map delete_input (filter ci_Exists (map (inspection_of ?v) cs))) = concat (map delete_text ds)"
    by (simp add: ds_def filter_map comp_def inspection_of_def delete_input_text [abs_def])
  obtain m where jumps: "collect (remove_jumps h) (map (inspection_of ?v) cs) s = (Inr [], m)"
    and rest: "(if concat (map delete_text ds) = [] then done_with ()
       else wrapping (\<lambda>e. GatewayErrors [DeleteChains e]) (runRestore h (concat (map delete_text ds)))) m = (Inr u, t)"
    using assms(3) unfolding removeOwnedChains_def input by (auto simp: action_Inr Let_def split: if_splits)
  have mid: "(\<forall>c \<in> set cs. vw (ps_world m) (hook_key c) =
      map_option (filter (\<lambda>r. \<not> is_jump c r)) (?v (hook_key c))) \<and>
    (\<forall>k. k \<notin> hook_key ` set cs \<longrightarrow> vw (ps_world m) k = ?v k) \<and> ps_sysctls m = ps_sysctls s"
    by (rule collect_remove_view [OF ok(4,1) jumps subset_refl ok(2) refl])
  have cut: "vw (ps_world t) = fold cut_chain ds (vw (ps_world m)) \<and> ps_sysctls t = ps_sysctls m"
  proof (cases "concat (map delete_text ds) = []")
    case True
    then have "ds = []"
      by (cases ds) (simp_all add: delete_text_def)
    with True rest show ?thesis
      by (simp add: done_with_def)
  next
    case False
    let ?run = "h_run h (IptablesRestore (concat (map delete_text ds))) (ps_world m)"
    from False rest have none: "fst ?run = None" and t: "t = m\<lparr>ps_world := snd ?run\<rparr>"
      by (auto simp: runRestore_def action_Inr simp del: concat_eq_Nil_conv)
    have "subseq ds cs"
      unfolding ds_def by (rule subseq_filter_left)
    have "restores_chains h vw shown cs"
      using assms(1) by (simp add: iptables_host_def)
    from restores_chainsD(2) [OF this \<open>subseq ds cs\<close> none] t show ?thesis
      by simp
  qed
  have "vw (ps_world t) (name_key c) = None" if "c \<in> set cs" for c
  proof -
    have "vw (ps_world m) (name_key c) = ?v (name_key c)"
      using mid ok(3) that by blast
    then show ?thesis
      using that unfolding cut [THEN conjunct1] fold_cut_chain ds_def by auto
  qed
  moreover have same: "vw (ps_world t) k = vw (ps_world m) k" if "k \<notin> name_key ` set cs" for k
    using that unfolding cut [THEN conjunct1] fold_cut_chain ds_def by auto
  moreover have "vw (ps_world t) (hook_key c) = map_option (filter (\<lambda>r. \<not> is_jump c r)) (?v (hook_key c))"
    if "c \<in> set cs" for c
  proof -
    have "hook_key c \<notin> name_key ` set cs"
      using ok(3) that by blast
    from same [OF this] show ?thesis
      using mid that by simp
  qed
  moreover have "vw (ps_world t) k = ?v k" if "k \<notin> name_key ` set cs" "k \<notin> hook_key ` set cs" for k
    unfolding same [OF that(1)] using mid that(2) by blast
  ultimately show ?thesis
    using mid cut unfolding uninstalled_def by simp
qed

section \<open>The compiled rulesets\<close>

definition orders_ok :: "orders \<Rightarrow> bool" where
  "orders_ok ord \<longleftrightarrow> visits (or_keys ord) \<and> sorts_by tp_Interface (or_policies ord) \<and>
     sorts_by mg_Interface (or_guards ord)"

definition ruleset_ok :: "Ruleset \<Rightarrow> bool" where
  "ruleset_ok rs \<longleftrightarrow> chains_apart (rs_Chains rs) \<and>
     list_all (\<lambda>c. list_all RuleIsOwned (ch_Rules c)) (rs_Chains rs)"

lemmas chain_constants = FilterChain_def NATChain_def MangleChain_def OutputChain_def OwnerComment_def

lemma graphic_literal:
  "chain_ok \<lparr>ch_Table = ''filter'', ch_Hook = ''OUTPUT'', ch_Name = OutputChain,
     ch_Comment = OwnerComment @ '':filter-output'', ch_Rules = rs\<rparr>"
  "chain_ok \<lparr>ch_Table = ''filter'', ch_Hook = ''FORWARD'', ch_Name = FilterChain,
     ch_Comment = OwnerComment @ '':filter-forward'', ch_Rules = rs\<rparr>"
  "chain_ok \<lparr>ch_Table = ''nat'', ch_Hook = ''POSTROUTING'', ch_Name = NATChain,
     ch_Comment = OwnerComment @ '':nat-postrouting'', ch_Rules = rs\<rparr>"
  "chain_ok \<lparr>ch_Table = ''mangle'', ch_Hook = ''FORWARD'', ch_Name = MangleChain,
     ch_Comment = OwnerComment @ '':mangle-forward'', ch_Rules = rs\<rparr>"
  by (simp_all add: chain_ok_def chain_constants graphic_def)

lemma compiled_guard_ok:
  assumes "orders_ok ord" "compileEgressGuardRuleset ord cfg = Inr rs"
  shows "ruleset_ok rs"
proof -
  obtain chain where c: "CompileEgressGuard (or_guards ord) (map guard_of (cfg_Tunnels cfg)) = Inr chain"
    and rs: "rs = \<lparr>rs_Chains = [chain]\<rparr>"
    using assms(2) by (auto simp: compileEgressGuardRuleset_def map_sum_Inr_iff)
  then obtain rules where "chain = \<lparr>ch_Table = ''filter'', ch_Hook = ''OUTPUT'', ch_Name = OutputChain,
     ch_Comment = OwnerComment @ '':filter-output'', ch_Rules = rules\<rparr>"
    by (auto simp: CompileEgressGuard_def Let_def map_sum_Inr_iff split: if_splits)
  moreover have "list_all RuleIsOwned (ch_Rules chain)"
    using compiled_rules_owned [of "or_keys ord" "or_policies ord" "gateway_policy cfg" "or_guards ord"] assms(1) c
    by (simp add: orders_ok_def list_all_iff)
  ultimately show ?thesis
    using graphic_literal(1) rs
    by (simp add: ruleset_ok_def chains_apart_def hook_key_def name_key_def chain_constants)
qed

lemma compiled_gateway_ok:
  assumes "orders_ok ord" "compileGatewayRuleset ord cfg = Inr rs"
  shows "ruleset_ok rs"
proof -
  have c: "Compile (or_keys ord) (or_policies ord) (gateway_policy cfg) = Inr rs"
    using assms(2) by (auto simp: compileGatewayRuleset_def map_sum_Inr_iff)
  then obtain f n m where cs: "rs_Chains rs =
     [\<lparr>ch_Table = ''filter'', ch_Hook = ''FORWARD'', ch_Name = FilterChain,
       ch_Comment = OwnerComment @ '':filter-forward'', ch_Rules = f\<rparr>,
      \<lparr>ch_Table = ''nat'', ch_Hook = ''POSTROUTING'', ch_Name = NATChain,
       ch_Comment = OwnerComment @ '':nat-postrouting'', ch_Rules = n\<rparr>,
      \<lparr>ch_Table = ''mangle'', ch_Hook = ''FORWARD'', ch_Name = MangleChain,
       ch_Comment = OwnerComment @ '':mangle-forward'', ch_Rules = m\<rparr>]"
    by (auto simp: Compile_def split: sum.splits)
  moreover have "list_all (\<lambda>c. list_all RuleIsOwned (ch_Rules c)) (rs_Chains rs)"
    using compiled_rules_owned [of "or_keys ord" "or_policies ord" "gateway_policy cfg" "or_guards ord"] assms(1) c
    by (simp add: orders_ok_def list_all_iff)
  moreover have "chains_apart (rs_Chains rs)"
    unfolding cs chains_apart_def using graphic_literal(2-)
    by (simp add: hook_key_def name_key_def chain_constants)
  ultimately show ?thesis
    by (simp add: ruleset_ok_def)
qed


section \<open>Bringing the chains up and down\<close>

text \<open>The two ways up and the two ways down, with the ruleset they compile.\<close>

definition firewall_up :: "'w host \<Rightarrow> orders \<Rightarrow> Config \<Rightarrow> Ruleset \<Rightarrow> ('w, gateway_error, unit) action \<Rightarrow> bool" where
  "firewall_up h ord cfg rs up \<longleftrightarrow>
     (compileEgressGuardRuleset ord cfg = Inr rs \<and> up = egressGuardUp h ord cfg) \<or>
     (compileGatewayRuleset ord cfg = Inr rs \<and> gw_Enabled (cfg_Gateway cfg) \<and> up = gatewayUp h ord cfg)"

definition firewall_down :: "'w host \<Rightarrow> orders \<Rightarrow> Config \<Rightarrow> Ruleset \<Rightarrow> ('w, gateway_error, unit) action \<Rightarrow> bool" where
  "firewall_down h ord cfg rs down \<longleftrightarrow>
     (compileEgressGuardRuleset ord cfg = Inr rs \<and> down = egressGuardDown h ord cfg) \<or>
     (compileGatewayRuleset ord cfg = Inr rs \<and> down = gatewayDown h ord cfg)"

lemma ask_Inr: "ask f s = (Inr x, t) \<longleftrightarrow> f (ps_world s) = Inr x \<and> t = s"
  by (auto simp: ask_def)

lemma from_sum_Inr: "from_sum r s = (Inr x, t) \<longleftrightarrow> r = Inr x \<and> t = s"
  by (auto simp: from_sum_def)

lemma requireSysctl_view:
  assumes "\<forall>path data w. vw (snd (h_run h (WriteFile path data) w)) = vw w"
    and "requireSysctl h key value s = (r, t)"
  shows "vw (ps_world t) = vw (ps_world s)"
  using assms by (auto simp: requireSysctl_def and_then_ask Let_def command_def split: sum.splits prod.splits if_splits)
                 (metis snd_conv)+

lemma inspect_ok:
  assumes "iptables_host h vw shown jump (rs_Chains rs)" "ruleset_ok rs"
  shows "inspectFirewallOwnership h rs w = Inr is \<longleftrightarrow>
    list_all (accepted_chain (vw w)) (rs_Chains rs) \<and> is = map (inspection_of (vw w)) (rs_Chains rs)"
  using assms unfolding inspectFirewallOwnership_def
  by (intro inspect_chains_view) (simp_all add: iptables_host_def ruleset_ok_def chains_apart_def)

lemma firewall_up_view:
  assumes "firewall_up h ord cfg rs up" "orders_ok ord"
    and "iptables_host h vw shown jump (rs_Chains rs)" "up s = (Inr u, t)"
  shows "installed shown jump (rs_Chains rs) (vw (ps_world s)) (vw (ps_world t))"
proof -
  have ok: "ruleset_ok rs"
    using assms(1,2) compiled_guard_ok compiled_gateway_ok unfolding firewall_up_def by blast
  have install: "installed shown jump (rs_Chains rs) (vw (ps_world m)) (vw (ps_world t))"
    if "inspectFirewallOwnership h rs w = Inr is" "vw w = vw (ps_world m)"
      "installOwnedChains h rs is m = (Inr u, t)" for w "is" m
  proof -
    have "is = map (inspection_of (vw (ps_world m))) (rs_Chains rs)"
      using that(1,2) inspect_ok [OF assms(3) ok] by simp
    with that(3) show ?thesis
      using installOwnedChains_view [OF assms(3)] ok by (simp add: ruleset_ok_def)
  qed
  have files: "\<forall>path data w. vw (snd (h_run h (WriteFile path data) w)) = vw w"
    using assms(3) by (simp add: iptables_host_def)
  from assms(1) show ?thesis
    unfolding firewall_up_def
  proof (elim disjE conjE)
    assume c: "compileEgressGuardRuleset ord cfg = Inr rs" "up = egressGuardUp h ord cfg"
    with assms(4) obtain "is" where "inspectFirewallOwnership h rs (ps_world s) = Inr is"
      "installOwnedChains h rs is s = (Inr u, t)"
      by (auto simp: egressGuardUp_def action_Inr ask_Inr from_sum_Inr)
    from install [OF this(1) refl this(2)] show ?thesis .
  next
    assume c: "compileGatewayRuleset ord cfg = Inr rs" "gw_Enabled (cfg_Gateway cfg)" "up = gatewayUp h ord cfg"
    with assms(4) obtain "is" m where i: "inspectFirewallOwnership h rs (ps_world s) = Inr is"
      "writeSysctl h ''net/ipv4/ip_forward'' ''1'' s = (Inr (), m)" "installOwnedChains h rs is m = (Inr u, t)"
      by (auto simp: gatewayUp_def action_Inr ask_Inr from_sum_Inr)
    have "vw (ps_world m) = vw (ps_world s)"
      using requireSysctl_view [OF files i(2) [unfolded writeSysctl_def]] .
    with install [OF i(1) _ i(3)] show ?thesis
      by simp
  qed
qed

lemma firewall_down_view:
  assumes "firewall_down h ord cfg rs down" "orders_ok ord"
    and "iptables_host h vw shown jump (rs_Chains rs)" "down s = (Inr u, t)"
  shows "uninstalled (rs_Chains rs) (vw (ps_world s)) (vw (ps_world t))"
proof -
  have ok: "ruleset_ok rs"
    using assms(1,2) compiled_guard_ok compiled_gateway_ok unfolding firewall_down_def by blast
  obtain "is" where i: "inspectFirewallOwnership h rs (ps_world s) = Inr is" "removeOwnedChains h is s = (Inr u, t)"
    using assms(1,4) unfolding firewall_down_def
    by (auto simp: egressGuardDown_def gatewayDown_def action_Inr ask_Inr from_sum_Inr)
  then have "is = map (inspection_of (vw (ps_world s))) (rs_Chains rs)"
    using inspect_ok [OF assms(3) ok] by simp
  with i(2) show ?thesis
    using removeOwnedChains_view [OF assms(3)] ok by (simp add: ruleset_ok_def)
qed

text \<open>The inspection recognises what a successful run has left behind.\<close>

lemma RuleIsOwned_line: "RuleIsOwned r \<Longrightarrow> RuleIsOwned (rule_text c r)"
proof -
  have step: "contains s p \<Longrightarrow> contains (x @ s) p" for x s p
    by (induction x) auto
  assume "RuleIsOwned r"
  then show ?thesis
    using step [of r _ "''-A '' @ c @ '' ''"] by (auto simp: RuleIsOwned_def rule_text_def)
qed

lemma installed_accepted:
  assumes "iptables_host h vw shown jump (rs_Chains rs)" "ruleset_ok rs"
    and "installed shown jump (rs_Chains rs) v v'" "list_all (accepted_chain v) (rs_Chains rs)"
  shows "list_all (accepted_chain v') (rs_Chains rs)"
  unfolding list_all_iff
proof
  fix c
  assume c: "c \<in> set (rs_Chains rs)"
  have at: "v' (name_key c) = Some (map shown (ch_Rules c))" "jump_count v' c = 1"
    "hook_rules v' c = settled_hook jump v c"
    using assms(3) c by (auto simp: installed_def hook_rules_def)
  have "list_all RuleIsOwned (ch_Rules c)"
    using assms(2) c by (auto simp: ruleset_ok_def list_all_iff)
  moreover have "RuleIsOwned r \<Longrightarrow> RuleIsOwned (shown r)" for r
    using assms(1) by (simp add: iptables_host_def restores_chains_def)
  ultimately have rules: "list_all (\<lambda>r. RuleIsOwned (rule_text (ch_Name c) r)) (name_rules v' c)"
    using at(1) RuleIsOwned_line by (auto simp: name_rules_def list_all_iff)
  have ok: "chain_ok c" "jump_shown c (jump c)"
    using assms(1,2) c edits_jumpsD(1) [of h vw jump "rs_Chains rs" c]
    by (auto simp: ruleset_ok_def chains_apart_def list_all_iff iptables_host_def)
  have "set (settled_hook jump v c) \<subseteq> insert (jump c) (set (hook_rules v c))"
  proof -
    have "set ((remove1 x ^^ n) xs) \<subseteq> set xs" for n and x :: string and xs
      by (induction n) (auto dest: notin_set_remove1)
    then show ?thesis
      by (auto simp: settled_hook_def)
  qed
  moreover have "list_all (\<lambda>r. is_jump c r \<longrightarrow> carries_comment (ch_Comment c) (rule_text (ch_Hook c) r)) (hook_rules v c)"
    using assms(4) c by (auto simp: accepted_chain_def list_all_iff)
  ultimately have "list_all (\<lambda>r. is_jump c r \<longrightarrow> carries_comment (ch_Comment c) (rule_text (ch_Hook c) r)) (hook_rules v' c)"
    using jump_shown_recognised(2) [OF ok] unfolding at(3) list_all_iff by blast
  with rules at(2) show "accepted_chain v' c"
    by (simp add: accepted_chain_def)
qed

section \<open>The commands the firewall code can run\<close>

definition firewall_cmd :: "Ruleset \<Rightarrow> host_cmd \<Rightarrow> bool" where
  "firewall_cmd rs c \<longleftrightarrow>
     c = WriteFile (sysctl_path ''net/ipv4/ip_forward'') ''1'' \<or>
     c = IptablesRestore (RestoreInput rs) \<or>
     (\<exists>ds. subseq ds (rs_Chains rs) \<and> c = IptablesRestore (concat (map delete_text ds))) \<or>
     (\<exists>chain \<in> set (rs_Chains rs). c = Iptables (insert_args chain) \<or> c = Iptables (delete_args chain))"

lemma inspect_chains_list:
  "inspect_chains h cs w = Inr is \<Longrightarrow> map ci_Chain is = cs"
proof (induction cs arbitrary: "is")
  case (Cons c cs)
  then obtain i rest where i: "inspect_chain h c w = Inr i" "is = i # rest" "inspect_chains h cs w = Inr rest"
    by (auto split: sum.splits simp: map_sum_Inr_iff)
  then have "ci_Chain i = c"
    by (auto simp: inspect_chain_def split: sum.splits prod.splits option.splits if_splits)
  with i Cons.IH show ?case
    by simp
qed simp

lemma within_from_sum [within_intros]: "within h P (from_sum r)"
  by (simp add: within_def from_sum_def runs_none)

lemma within_jumps [within_intros]:
  assumes "c \<in> set (rs_Chains rs)"
  shows "within h (firewall_cmd rs) (insertJump h c)" "within h (firewall_cmd rs) (deleteJumps h c n)"
proof -
  have "firewall_cmd rs (Iptables (insert_args c))" "firewall_cmd rs (Iptables (delete_args c))"
    using assms by (auto simp: firewall_cmd_def)
  then show "within h (firewall_cmd rs) (insertJump h c)" "within h (firewall_cmd rs) (deleteJumps h c n)"
    by (auto simp: insertJump_args deleteJumps_def deleteJump_args intro!: within_intros)
qed

lemma within_install [within_intros]:
  assumes "map ci_Chain is = rs_Chains rs"
  shows "within h (firewall_cmd rs) (installOwnedChains h rs is)"
proof -
  have "ci_Chain i \<in> set (rs_Chains rs)" if "i \<in> set is" for i
    using assms that by (metis image_eqI list.set_map)
  then show ?thesis
    unfolding installOwnedChains_def settle_jumps_def [abs_def] runRestore_def
    by (intro within_intros) (auto simp: firewall_cmd_def)
qed

lemma within_remove [within_intros]:
  assumes "map ci_Chain is = rs_Chains rs"
  shows "within h (firewall_cmd rs) (removeOwnedChains h is)"
proof -
  have mem: "ci_Chain i \<in> set (rs_Chains rs)" if "i \<in> set is" for i
    using assms that by (metis image_eqI list.set_map)
  have "subseq (map ci_Chain (filter ci_Exists is)) (map ci_Chain is)"
    by (intro subseq_map subseq_filter_left)
  then have "firewall_cmd rs (IptablesRestore (concat (map delete_input (filter ci_Exists is))))"
    unfolding assms firewall_cmd_def delete_input_text [abs_def] by (metis (no_types, lifting) map_map comp_apply map_eq_conv)
  with mem show ?thesis
    unfolding removeOwnedChains_def remove_jumps_def [abs_def] runRestore_def Let_def
    by (intro within_intros) auto
qed

lemma within_writeSysctl [within_intros]:
  assumes "P (WriteFile (sysctl_path key) value)"
  shows "within h P (writeSysctl h key value)"
proof -
  have "within h P (\<lambda>s. let s' = g s in if b then (Inr (), s') else command h (WriteFile (sysctl_path key) value) s')"
    if "\<And>s. ps_world (g s) = ps_world s" for b g
  proof (unfold within_def Let_def, intro allI)
    fix s
    have "runs h P (ps_world (g s)) (ps_world (snd (command h (WriteFile (sysctl_path key) value) (g s))))"
      using within_command [of P "WriteFile (sysctl_path key) value" h, OF assms] by (simp add: within_def)
    then show "runs h P (ps_world s)
        (ps_world (snd (if b then (Inr (), g s) else command h (WriteFile (sysctl_path key) value) (g s))))"
      by (simp add: that runs_none)
  qed
  then show ?thesis
    unfolding writeSysctl_def requireSysctl_def Let_def
    by (intro within_and_then within_ask) simp
qed

lemma within_inspected:
  assumes "\<And>is. map ci_Chain is = rs_Chains rs \<Longrightarrow> within h P (k is)"
  shows "within h P (and_then (ask (inspectFirewallOwnership h rs)) k)"
  unfolding within_def
proof
  fix s
  show "runs h P (ps_world s) (ps_world (snd (and_then (ask (inspectFirewallOwnership h rs)) k s)))"
  proof (cases "inspectFirewallOwnership h rs (ps_world s)")
    case (Inl e)
    then show ?thesis
      by (simp add: and_then_ask runs_none)
  next
    case (Inr "is")
    then have "map ci_Chain is = rs_Chains rs"
      by (simp add: inspectFirewallOwnership_def inspect_chains_list)
    from assms [OF this] show ?thesis
      by (simp add: and_then_ask Inr within_def)
  qed
qed

lemma wrapping_ask: "wrapping f (ask g) = ask (\<lambda>w. map_sum f id (g w))"
  by (auto simp: wrapping_def ask_def fun_eq_iff split: sum.splits)

lemma within_inspected_wrapped:
  assumes "\<And>is. map ci_Chain is = rs_Chains rs \<Longrightarrow> within h P (k is)"
  shows "within h P (and_then (wrapping f (ask (inspectFirewallOwnership h rs))) k)"
  unfolding within_def
proof
  fix s
  show "runs h P (ps_world s) (ps_world (snd (and_then (wrapping f (ask (inspectFirewallOwnership h rs))) k s)))"
  proof (cases "inspectFirewallOwnership h rs (ps_world s)")
    case (Inl e)
    then show ?thesis
      by (simp add: wrapping_ask and_then_ask runs_none)
  next
    case (Inr "is")
    then have "map ci_Chain is = rs_Chains rs"
      by (simp add: inspectFirewallOwnership_def inspect_chains_list)
    from assms [OF this] show ?thesis
      by (simp add: wrapping_ask and_then_ask Inr within_def)
  qed
qed

lemma within_compiled:
  "(\<And>x. r = Inr x \<Longrightarrow> within h P (k x)) \<Longrightarrow> within h P (and_then (from_sum r) k)"
  by (cases r) (auto simp: within_def and_then_def from_sum_def runs_none)

lemma firewall_up_within:
  assumes "firewall_up h ord cfg rs up"
  shows "within h (firewall_cmd rs) up"
  using assms unfolding firewall_up_def
proof (elim disjE conjE)
  assume c: "compileEgressGuardRuleset ord cfg = Inr rs" "up = egressGuardUp h ord cfg"
  show ?thesis
    unfolding c(2) egressGuardUp_def
    by (rule within_compiled) (use c(1) in \<open>auto intro!: within_inspected_wrapped within_wrapping within_install\<close>)
next
  assume c: "compileGatewayRuleset ord cfg = Inr rs" "gw_Enabled (cfg_Gateway cfg)" "up = gatewayUp h ord cfg"
  have f: "firewall_cmd rs (WriteFile (sysctl_path ''net/ipv4/ip_forward'') ''1'')"
    by (simp add: firewall_cmd_def)
  show ?thesis
    unfolding c(3) gatewayUp_def
    by (simp add: c(1,2))
       (intro within_compiled within_inspected within_and_then within_wrapping within_writeSysctl,
        auto simp: f intro!: within_install)
qed

lemma firewall_down_within:
  assumes "firewall_down h ord cfg rs down"
  shows "within h (firewall_cmd rs) down"
  using assms unfolding firewall_down_def
proof (elim disjE conjE)
  assume c: "compileEgressGuardRuleset ord cfg = Inr rs" "down = egressGuardDown h ord cfg"
  show ?thesis
    unfolding c(2) egressGuardDown_def
    by (rule within_compiled) (use c(1) in \<open>auto intro!: within_inspected_wrapped within_wrapping within_remove\<close>)
next
  assume c: "compileGatewayRuleset ord cfg = Inr rs" "down = gatewayDown h ord cfg"
  show ?thesis
    unfolding c(2) gatewayDown_def
    by (rule within_compiled) (use c(1) in \<open>auto intro!: within_inspected within_remove\<close>)
qed

text \<open>When the inspection refuses, nothing has been run.\<close>

lemma firewall_refused:
  assumes "inspectFirewallOwnership h rs (ps_world s) = Inl e"
  shows "firewall_up h ord cfg rs up \<Longrightarrow> snd (up s) = s \<and> (\<exists>e'. fst (up s) = Inl e')"
    and "firewall_down h ord cfg rs down \<Longrightarrow> snd (down s) = s \<and> (\<exists>e'. fst (down s) = Inl e')"
  using assms unfolding firewall_up_def firewall_down_def
  by (auto simp: egressGuardUp_def gatewayUp_def egressGuardDown_def gatewayDown_def and_then_def from_sum_def
      wrapping_def ask_def)

section \<open>Properties\<close>

text \<open>
  A small host for the examples: \<open>iptables\<close> on a map of chains, for the guard of one tunnel.
\<close>

definition sample_guard :: MarkGuard where
  "sample_guard = \<lparr>mg_Interface = ''wg0'', mg_Mark = 1, mg_Mask = NOT 0\<rparr>"

definition sample_chain :: Chain where
  "sample_chain =
     \<lparr>ch_Table = ''filter'', ch_Hook = ''OUTPUT'', ch_Name = OutputChain,
      ch_Comment = OwnerComment @ '':filter-output'', ch_Rules = [loopback_rule, guard_rule sample_guard]\<rparr>"

definition sample_jump :: "Chain \<Rightarrow> string" where
  "sample_jump c = ''-m comment --comment '' @ ch_Comment c @ '' -j '' @ ch_Name c"

definition sample_view :: "chain_view \<Rightarrow> chain_view" where
  "sample_view w k = map_option (filter printable) (w k)"

definition sample_iptables :: "host_cmd \<Rightarrow> chain_view \<Rightarrow> os_error option \<times> chain_view" where
  "sample_iptables cmd w =
     (let hook = hook_key sample_chain; j = sample_jump sample_chain
      in if cmd = IptablesRestore (chain_input sample_chain) then (None, put_chain id sample_chain w)
         else if cmd = IptablesRestore (delete_text sample_chain) then (None, cut_chain sample_chain w)
         else if cmd = Iptables (insert_args sample_chain) then
           (case w hook of None \<Rightarrow> (Some ENOENT, w) | Some rs \<Rightarrow> (None, w(hook \<mapsto> j # rs)))
         else if cmd = Iptables (delete_args sample_chain) then
           (case w hook of
              None \<Rightarrow> (Some ENOENT, w)
            | Some rs \<Rightarrow> if j \<in> set rs then (None, w(hook \<mapsto> remove1 j rs)) else (Some ENOENT, w))
         else (None, w))"

definition sample_list :: "string \<Rightarrow> string \<Rightarrow> chain_view \<Rightarrow> (os_error \<times> string) + string" where
  "sample_list t c w =
     (case sample_view w (t, c) of
        None \<Rightarrow> Inl (HostError ''exit status 1'', ''iptables: No chain/target/match by that name.'')
      | Some rs \<Rightarrow> Inr (concat (map (\<lambda>l. l @ newline) ((''-N '' @ c) # map (rule_text c) rs))))"

definition sample_fw_host :: "chain_view host" where
  "sample_fw_host =
     \<lparr>h_run = sample_iptables, h_ListChain = sample_list, h_ReadFile = \<lambda>_ _. Inr ''1'',
      h_LinkByName = \<lambda>_ _. Inl LinkNotFoundError, h_LinkList = \<lambda>_. Inr [],
      h_AddrList = \<lambda>_ _ _. Inr [], h_RouteList = \<lambda>_ _ _ _ _. Inr [], h_RuleList = \<lambda>_. Inr [],
      h_Device = \<lambda>_ _. Inl ENOENT, h_ResolveUDPAddr = \<lambda>text _. Inr text, h_ParseAddr = \<lambda>_. Inl ENOENT,
      h_ParseKey = \<lambda>_. None, h_PublicKey = id, h_KeyDigest = id\<rparr>"

lemma sample_printable:
  "printable loopback_rule" "printable (guard_rule sample_guard)" "printable (sample_jump sample_chain)"
  by (simp_all add: printable_def loopback_rule_def guard_rule_def sample_jump_def sample_chain_def sample_guard_def
      owner_match_def chain_constants graphic_def markSelector_def hex_prefixed_def hex_string.simps)

lemma sample_texts:
  "chain_input sample_chain \<noteq> delete_text sample_chain" "insert_args sample_chain \<noteq> delete_args sample_chain"
  by (simp_all add: chain_input_def delete_text_def sample_chain_def newline_def insert_args_def delete_args_def)

lemma sample_lists: "lists_chains sample_fw_host sample_view"
proof -
  have low: "to_lower ''iptables: No chain/target/match by that name.'' =
      ''iptables: '' @ ''no chain/target/match'' @ '' by that name.''"
    by (simp add: go_string_simps)
  have "contains (to_lower ''iptables: No chain/target/match by that name.'') ''no chain/target/match''"
    unfolding low by (rule contains_infix)
  moreover have "sample_view w k = Some rs \<Longrightarrow> list_all printable rs" for w k rs
    by (auto simp: sample_view_def list_all_iff)
  moreover have "printed_chain c rs (concat (map (\<lambda>l. l @ newline) ((''-N '' @ c) # map (rule_text c) rs)))" for c rs
    unfolding printed_chain_def by (intro exI [of _ "[]"]) simp
  ultimately show ?thesis
    by (auto simp: lists_chains_def sample_fw_host_def sample_list_def split: option.splits)
qed

lemma sample_view_upd:
  "sample_view (w(k \<mapsto> rs)) = (sample_view w)(k \<mapsto> filter printable rs)"
  "sample_view (w(k := None)) = (sample_view w)(k := None)"
  by (auto simp: sample_view_def fun_eq_iff)

lemma sample_restores: "restores_chains sample_fw_host sample_view id [sample_chain]"
proof -
  have "sample_view (put_chain id sample_chain w) = put_chain id sample_chain (sample_view w)" for w
    using sample_printable(1,2) unfolding put_chain_def sample_view_upd by (simp add: sample_chain_def)
  moreover have "sample_view (cut_chain sample_chain w) = cut_chain sample_chain (sample_view w)" for w
    by (simp add: cut_chain_def sample_view_upd)
  moreover have "ds = [] \<or> ds = [sample_chain]" if "subseq ds [sample_chain]" for ds
    using that unfolding in_set_subseqs [symmetric] by (auto simp: Let_def)
  moreover have "chain_input sample_chain \<noteq> []" "delete_text sample_chain \<noteq> []"
    by (simp_all add: chain_input_def delete_text_def)
  ultimately show ?thesis
    using sample_texts(1) unfolding restores_chains_def
    by (fastforce simp: sample_fw_host_def sample_iptables_def Let_def)
qed

lemma sample_chain_ok: "chain_ok sample_chain"
  using graphic_literal(1) by (simp add: sample_chain_def)

lemma sample_edits: "edits_jumps sample_fw_host sample_view sample_jump [sample_chain]"
proof -
  let ?c = sample_chain and ?j = "sample_jump sample_chain"
  have upd: "sample_view (w(k \<mapsto> ?j # rs)) = (sample_view w)(k \<mapsto> ?j # filter printable rs)"
    "sample_view (w(k \<mapsto> remove1 ?j rs)) = (sample_view w)(k \<mapsto> remove1 ?j (filter printable rs))" for w k rs
    using sample_printable(3) by (simp_all add: sample_view_upd filter_remove1)
  have view: "sample_view w k = Some (filter printable rs)" if "w k = Some rs" for w k rs
    using that by (simp add: sample_view_def)
  have "jump_shown ?c ?j"
    by (simp add: jump_shown_def sample_jump_def)
  then show ?thesis
    using sample_texts(2) sample_printable(3) unfolding edits_jumps_def
    by (auto simp: sample_fw_host_def sample_iptables_def Let_def upd view split: option.splits if_splits)
qed

lemma sample_iptables_host: "iptables_host sample_fw_host sample_view id sample_jump [sample_chain]"
  using sample_lists sample_restores sample_edits
  by (simp add: iptables_host_def sample_fw_host_def sample_iptables_def Let_def)

lemma firewall_up_accepted:
  assumes "firewall_up h ord cfg rs up" "orders_ok ord"
    and "iptables_host h vw shown jump (rs_Chains rs)" "up s = (Inr u, t)"
  shows "ruleset_ok rs" "list_all (accepted_chain (vw (ps_world s))) (rs_Chains rs)"
proof -
  show ok: "ruleset_ok rs"
    using assms(1,2) compiled_guard_ok compiled_gateway_ok unfolding firewall_up_def by blast
  obtain "is" where "inspectFirewallOwnership h rs (ps_world s) = Inr is"
    using assms(1,4) unfolding firewall_up_def
    by (auto simp: egressGuardUp_def gatewayUp_def action_Inr ask_Inr from_sum_Inr)
  then show "list_all (accepted_chain (vw (ps_world s))) (rs_Chains rs)"
    using inspect_ok [OF assms(3) ok] by blast
qed


text \<open>
  (C15) Bringing the chains up and down again gives back the firewall as it was: on a host without
  the owned chains and jumps, every chain of every table is as before.
\<close>

theorem firewall_round_trip:
  assumes "firewall_up h ord cfg rs up" and "firewall_down h ord cfg rs down" and "orders_ok ord"
    and "iptables_host h vw shown jump (rs_Chains rs)"
    and "list_all (\<lambda>c. vw (ps_world s) (name_key c) = None \<and> jump_count (vw (ps_world s)) c = 0) (rs_Chains rs)"
    and "up s = (Inr u, m)" and "down m = (Inr u', t)"
  shows "vw (ps_world t) = vw (ps_world s)"
proof
  fix k
  let ?cs = "rs_Chains rs" and ?v = "vw (ps_world s)" and ?vm = "vw (ps_world m)" and ?vt = "vw (ps_world t)"
  note up = firewall_up_view [OF assms(1,3,4,6)]
  note down = firewall_down_view [OF assms(2,3,4,7)]
  consider c where "c \<in> set ?cs" "k = name_key c" | c where "c \<in> set ?cs" "k = hook_key c"
    | "k \<notin> name_key ` set ?cs" "k \<notin> hook_key ` set ?cs"
    by blast
  then show "?vt k = ?v k"
  proof cases
    case 1
    then have "?vt k = None" "?v k = None"
      using down assms(5) by (auto simp: uninstalled_def list_all_iff)
    then show ?thesis
      by simp
  next
    case 2
    have hook: "?vm k = Some (settled_hook jump ?v c)" "?v k \<noteq> None"
      using up 2 by (simp_all add: installed_def)
    have none: "jump_count ?v c = 0"
      using assms(5) 2(1) by (simp add: list_all_iff)
    have "c \<in> set ?cs" "chain_ok c" "jump_shown c (jump c)"
      using 2(1) firewall_up_accepted(1) [OF assms(1,3,4,6)] assms(4) edits_jumpsD(1)
      by (auto simp: ruleset_ok_def chains_apart_def list_all_iff iptables_host_def)
    then have "filter (\<lambda>r. \<not> is_jump c r) (settled_hook jump ?v c) = foreign_rules ?v c"
      by (intro settled_hook_counts)
    also have "\<dots> = hook_rules ?v c"
      using none by (simp add: foreign_rules_def jump_count_def filter_empty_conv filter_id_conv)
    finally have "?vt k = Some (hook_rules ?v c)"
      using down 2 hook by (simp add: uninstalled_def)
    then show ?thesis
      using 2(2) hook(2) by (auto simp: hook_rules_def)
  next
    case 3
    have "?vt k = ?vm k"
      using down 3 unfolding uninstalled_def by blast
    also have "\<dots> = ?v k"
      using up 3 unfolding installed_def by blast
    finally show ?thesis .
  qed
qed

definition sample_fw_config :: Config where
  "sample_fw_config =
     sample_config\<lparr>cfg_Tunnels := [(sample_tunnel ''wg0'' 1 ''10.1.0.0/16'')\<lparr>tun_FwmarkMask := NOT 0\<rparr>]\<rparr>"

definition sample_orders :: orders where
  "sample_orders = \<lparr>or_keys = rev, or_policies = sort_key tp_Interface, or_guards = sort_key mg_Interface\<rparr>"

definition sample_process :: "chain_view process" where
  "sample_process = \<lparr>ps_world = [(''filter'', ''OUTPUT'') \<mapsto> [''-j LOG'']], ps_sysctls = []\<rparr>"

lemma sample_orders_ok: "orders_ok sample_orders"
  by (simp add: orders_ok_def sample_orders_def)

lemma sample_compiles:
  "compileEgressGuardRuleset sample_orders sample_fw_config = Inr \<lparr>rs_Chains = [sample_chain]\<rparr>"
  by (simp add: compileEgressGuardRuleset_def sample_orders_def sample_fw_config_def guard_of_def sample_tunnel_def
      CompileEgressGuard_def sample_chain_def sample_guard_def validInterface_def contains_any_def)

lemma sample_up: "firewall_up sample_fw_host sample_orders sample_fw_config \<lparr>rs_Chains = [sample_chain]\<rparr>
    (egressGuardUp sample_fw_host sample_orders sample_fw_config)"
  "firewall_down sample_fw_host sample_orders sample_fw_config \<lparr>rs_Chains = [sample_chain]\<rparr>
    (egressGuardDown sample_fw_host sample_orders sample_fw_config)"
  by (simp_all add: firewall_up_def firewall_down_def sample_compiles)

lemma sample_log: "printable ''-j LOG''" "\<not> is_jump sample_chain ''-j LOG''"
proof -
  have "string_fields (rule_text ''OUTPUT'' ''-j LOG'') = [''-A'', ''OUTPUT'', ''-j'', ''LOG'']"
    using string_fields_join [of "[''-A'', ''OUTPUT'', ''-j'', ''LOG'']"] by (simp add: rule_text_def graphic_def)
  then show "\<not> is_jump sample_chain ''-j LOG''"
    by (simp add: is_jump_def jumpsTo_def sample_chain_def trim_byte_def chain_constants)
qed (simp add: printable_def graphic_def)

lemma sample_start_world:
  "sample_view (ps_world sample_process) = [(''filter'', ''OUTPUT'') \<mapsto> [''-j LOG'']]"
  "hook_key sample_chain = (''filter'', ''OUTPUT'')" "name_key sample_chain = (''filter'', OutputChain)"
  using sample_log(1) by (auto simp: sample_view_def sample_process_def hook_key_def name_key_def sample_chain_def fun_eq_iff)

lemma sample_inspects:
  "inspectFirewallOwnership sample_fw_host \<lparr>rs_Chains = [sample_chain]\<rparr> (ps_world sample_process) =
     Inr [inspection_of (sample_view (ps_world sample_process)) sample_chain]"
  "jump_count (sample_view (ps_world sample_process)) sample_chain = 0"
  "sample_view (ps_world sample_process) (name_key sample_chain) = None"
proof -
  let ?v = "sample_view (ps_world sample_process)"
  show none: "?v (name_key sample_chain) = None"
    by (simp add: sample_start_world chain_constants)
  show zero: "jump_count ?v sample_chain = 0"
    using sample_log(2) by (simp add: jump_count_def hook_rules_def sample_start_world)
  have "accepted_chain ?v sample_chain"
    using none sample_log(2) by (simp add: accepted_chain_def name_rules_def hook_rules_def sample_start_world)
  then show "inspectFirewallOwnership sample_fw_host \<lparr>rs_Chains = [sample_chain]\<rparr> (ps_world sample_process) =
     Inr [inspection_of ?v sample_chain]"
    using inspect_ok [of sample_fw_host sample_view id sample_jump "\<lparr>rs_Chains = [sample_chain]\<rparr>"]
      sample_iptables_host compiled_guard_ok [OF sample_orders_ok sample_compiles]
    by simp
qed

definition sample_guarded :: "chain_view process" where
  "sample_guarded = sample_process\<lparr>ps_world := (ps_world sample_process)(name_key sample_chain \<mapsto> ch_Rules sample_chain,
     hook_key sample_chain \<mapsto> [sample_jump sample_chain, ''-j LOG''])\<rparr>"

lemma sample_up_run:
  "egressGuardUp sample_fw_host sample_orders sample_fw_config sample_process = (Inr (), sample_guarded)"
proof -
  have hook: "put_chain id sample_chain (ps_world sample_process) (hook_key sample_chain) = Some [''-j LOG'']"
    by (simp add: put_chain_def hook_key_def sample_process_def sample_chain_def chain_constants)
  have restore: "command sample_fw_host (IptablesRestore (chain_input sample_chain)) sample_process =
      (Inr (), sample_process\<lparr>ps_world := put_chain id sample_chain (ps_world sample_process)\<rparr>)"
    by (simp add: command_def sample_fw_host_def sample_iptables_def Let_def)
  have insert: "command sample_fw_host (Iptables (insert_args sample_chain))
      (sample_process\<lparr>ps_world := put_chain id sample_chain (ps_world sample_process)\<rparr>) = (Inr (), sample_guarded)"
    using hook by (simp add: command_def sample_fw_host_def sample_iptables_def Let_def sample_guarded_def
        put_chain_def name_key_def)
  show ?thesis
    by (simp add: egressGuardUp_def sample_compiles from_sum_def and_then_def wrapping_ask wrapping_def ask_def sample_inspects
        installOwnedChains_def runRestore_def RestoreInput_def restore settle_jumps_def attempt_def inspection_of_def
        insertJump_args insert joined_def done_with_def)
qed


lemma sample_inspects_guarded:
  "inspectFirewallOwnership sample_fw_host \<lparr>rs_Chains = [sample_chain]\<rparr> (ps_world sample_guarded) =
     Inr [inspection_of (sample_view (ps_world sample_guarded)) sample_chain]"
  "jump_count (sample_view (ps_world sample_guarded)) sample_chain = 1"
  "sample_view (ps_world sample_guarded) (name_key sample_chain) \<noteq> None"
proof -
  let ?rs = "\<lparr>rs_Chains = [sample_chain]\<rparr>"
  have host: "iptables_host sample_fw_host sample_view id sample_jump (rs_Chains ?rs)"
    using sample_iptables_host by simp
  have inst: "installed id sample_jump (rs_Chains ?rs) (sample_view (ps_world sample_process)) (sample_view (ps_world sample_guarded))"
    by (rule firewall_up_view [OF sample_up(1) sample_orders_ok host sample_up_run])
  note start = firewall_up_accepted [OF sample_up(1) sample_orders_ok host sample_up_run]
  show "jump_count (sample_view (ps_world sample_guarded)) sample_chain = 1"
    "sample_view (ps_world sample_guarded) (name_key sample_chain) \<noteq> None"
    using inst by (simp_all add: installed_def)
  show "inspectFirewallOwnership sample_fw_host ?rs (ps_world sample_guarded) =
     Inr [inspection_of (sample_view (ps_world sample_guarded)) sample_chain]"
    using inspect_ok [OF host start(1)] installed_accepted [OF host start(1) inst start(2)] by simp
qed

lemma sample_down_run:
  "\<exists>t. egressGuardDown sample_fw_host sample_orders sample_fw_config sample_guarded = (Inr (), t)"
proof -
  let ?w = "(ps_world sample_guarded)(hook_key sample_chain \<mapsto> [''-j LOG''])"
  have hook: "ps_world sample_guarded (hook_key sample_chain) = Some [sample_jump sample_chain, ''-j LOG'']"
    by (simp add: sample_guarded_def)
  have delete: "command sample_fw_host (Iptables (delete_args sample_chain)) sample_guarded =
      (Inr (), sample_guarded\<lparr>ps_world := ?w\<rparr>)"
    using hook sample_texts(2) by (simp add: command_def sample_fw_host_def sample_iptables_def Let_def)
  have cut: "command sample_fw_host (IptablesRestore (delete_text sample_chain)) (sample_guarded\<lparr>ps_world := ?w\<rparr>) =
      (Inr (), sample_guarded\<lparr>ps_world := cut_chain sample_chain ?w\<rparr>)"
    using sample_texts(1) by (simp add: command_def sample_fw_host_def sample_iptables_def Let_def)
  have "delete_text sample_chain \<noteq> []"
    by (simp add: delete_text_def)
  then show ?thesis
    using sample_inspects_guarded(3)
    by (simp add: egressGuardDown_def sample_compiles from_sum_def and_then_def wrapping_ask wrapping_def ask_def
        sample_inspects_guarded(1,2) removeOwnedChains_def remove_jumps_def attempt_def inspection_of_def deleteJumps_def
        deleteJump_args delete delete_input_text runRestore_def cut joined_def done_with_def Let_def)
qed

theorem firewall_round_trip_witness:
  "\<exists>t. egressGuardDown sample_fw_host sample_orders sample_fw_config sample_guarded = (Inr (), t) \<and>
     sample_view (ps_world t) = [(''filter'', ''OUTPUT'') \<mapsto> [''-j LOG'']]"
proof -
  obtain t where t: "egressGuardDown sample_fw_host sample_orders sample_fw_config sample_guarded = (Inr (), t)"
    using sample_down_run by blast
  have "sample_view (ps_world t) = sample_view (ps_world sample_process)"
    by (rule firewall_round_trip [OF sample_up sample_orders_ok _ _ sample_up_run t])
       (use sample_iptables_host sample_inspects in simp_all)
  with t show ?thesis
    by (auto simp: sample_start_world)
qed



end
