(* ===== verification/Spec2Isabelle.thy ===== *)
theory Spec2Isabelle
  imports Lifecycle Kernel_Plan Routing Route_Source Health Firewall Config_Validate Dns_Cache Proxy_Server Gateway_State
begin

text \<open>
  A verification development of the sakhtar-wg daemon.
\<close>

end
